(* ===== verification/Fly_Prelude.thy ===== *)
theory Fly_Prelude
  imports Main "HOL-Library.Monad_Syntax" "HOL-Library.Signed_Division"
begin

text \<open>
  The prelude of the development: what every component of libfly shares.

  \<^item> Addresses, the null pointer and C's \<open>int\<close>.  A computation returns an \<open>option\<close>:
    \<open>None\<close> stands for "no defined result", which is undefined behaviour of C (a null or
    dangling pointer is dereferenced, a signed operation overflows, a division by zero, an
    uninitialised field is read) or a call that does not return.  So every theorem of the form
    \<open>f x = Some y\<close> says that the C function returns and that none of this happens.
  \<^item> The error codes of \<^verbatim>\<open>include/libfly/fly_error.h\<close>.
  \<^item> Reachability of a step relation and the locale that turns an inductive invariant into a
    fact about every reachable state.
\<close>

section \<open>Addresses\<close>

type_synonym ptr = nat

abbreviation NULL :: ptr where
  "NULL \<equiv> 0"

named_theorems heap_simps \<open>how the reads and writes of the model's heaps compute\<close>
named_theorems frame_simps \<open>fields an operation leaves unchanged\<close>

section \<open>C integers\<close>

text \<open>
  \<open>int\<close> is 32 bits wide on every platform the library builds for.  A signed result out of
  range is undefined behaviour, so the checked operations return \<open>None\<close> there.  Division
  truncates towards zero (\<open>sdiv\<close>, \<open>smod\<close>).
\<close>

definition INT_MIN :: int where
  "INT_MIN = - (2 ^ 31)"

definition INT_MAX :: int where
  "INT_MAX = 2 ^ 31 - 1"

definition c_ok :: "int \<Rightarrow> bool" where
  "c_ok x \<longleftrightarrow> INT_MIN \<le> x \<and> x \<le> INT_MAX"

definition c_int :: "int \<Rightarrow> int option" where
  "c_int x = (if c_ok x then Some x else None)"

definition c_add :: "int \<Rightarrow> int \<Rightarrow> int option" where
  "c_add a b = c_int (a + b)"

definition c_sub :: "int \<Rightarrow> int \<Rightarrow> int option" where
  "c_sub a b = c_int (a - b)"

definition c_mul :: "int \<Rightarrow> int \<Rightarrow> int option" where
  "c_mul a b = c_int (a * b)"

definition c_quot :: "int \<Rightarrow> int \<Rightarrow> int option" where
  "c_quot a b = (if b = 0 then None else c_int (a sdiv b))"

definition c_rem :: "int \<Rightarrow> int \<Rightarrow> int option" where
  "c_rem a b = (if b = 0 \<or> \<not> c_ok (a sdiv b) then None else Some (a smod b))"

text \<open>Two's complement wrap-around, for the atomic builtins (they never trap).\<close>

definition c_wrap :: "int \<Rightarrow> int" where
  "c_wrap x = (x + 2 ^ 31) mod 2 ^ 32 - 2 ^ 31"

lemma c_ok_iff: "c_ok x \<longleftrightarrow> - 2147483648 \<le> x \<and> x \<le> 2147483647"
  by (simp add: c_ok_def INT_MIN_def INT_MAX_def)

lemma c_int_Some [simp]: "c_ok x \<Longrightarrow> c_int x = Some x"
  by (simp add: c_int_def)

lemma c_int_eq_Some_iff: "c_int x = Some y \<longleftrightarrow> c_ok x \<and> y = x"
  by (auto simp: c_int_def)

lemma c_ok_between: "c_ok a \<Longrightarrow> c_ok b \<Longrightarrow> a \<le> x \<Longrightarrow> x \<le> b \<Longrightarrow> c_ok x"
  by (simp add: c_ok_def)

lemma c_ok_0 [simp]: "c_ok 0" and c_ok_1 [simp]: "c_ok 1"
  by (simp_all add: c_ok_iff)

lemma c_wrap_id [simp]: "c_ok x \<Longrightarrow> c_wrap x = x"
  by (simp add: c_wrap_def c_ok_iff)

lemma c_ok_wrap: "c_ok (c_wrap x)"
  by (simp add: c_wrap_def c_ok_iff)

lemmas c_arith_defs = c_add_def c_sub_def c_mul_def c_quot_def c_rem_def

text \<open>For nonnegative operands the truncating operations are \<open>div\<close> and \<open>mod\<close>.\<close>

lemma sdiv_nonneg: "0 \<le> (a::int) \<Longrightarrow> 0 < b \<Longrightarrow> a sdiv b = a div b"
  by (cases "a = 0") (simp_all add: signed_divide_int_def sgn_if)

lemma smod_nonneg: "0 \<le> (a::int) \<Longrightarrow> 0 < b \<Longrightarrow> a smod b = a mod b"
  by (cases "a = 0") (simp_all add: signed_modulo_int_def sgn_if)

lemma c_quot_nonneg: "0 \<le> a \<Longrightarrow> 0 < b \<Longrightarrow> c_ok a \<Longrightarrow> c_quot a b = Some (a div b)"
proof -
  assume "0 \<le> a" "0 < b" "c_ok a"
  moreover from this have "a div b \<le> a" "0 \<le> a div b"
    using zdiv_mono2 [of a 1 b] by (simp_all add: pos_imp_zdiv_nonneg_iff)
  ultimately have "c_ok (a div b)"
    using c_ok_between [OF c_ok_0] by blast
  with \<open>0 \<le> a\<close> \<open>0 < b\<close> show ?thesis
    by (simp add: c_quot_def sdiv_nonneg)
qed

lemma c_rem_nonneg: "0 \<le> a \<Longrightarrow> 0 < b \<Longrightarrow> c_ok a \<Longrightarrow> c_rem a b = Some (a mod b)"
  using c_quot_nonneg [of a b]
  by (auto simp: c_rem_def c_quot_def smod_nonneg c_int_def split: if_splits)

section \<open>Error codes\<close>

text \<open>\<^verbatim>\<open>enum fly_errors\<close>; the library's functions pass the codes on as \<open>int\<close>.\<close>

datatype fly_errors = FLYESUCCESS | FLYENORES | FLYEATTR | FLYELLLIB | FLYENOIMP

fun fly_err :: "fly_errors \<Rightarrow> int" where
  "fly_err FLYESUCCESS = 0"
| "fly_err FLYENORES = 1"
| "fly_err FLYEATTR = 2"
| "fly_err FLYELLLIB = 3"
| "fly_err FLYENOIMP = 4"

definition FLY_SUCCEEDED :: "int \<Rightarrow> bool" where
  "FLY_SUCCEEDED errcode \<longleftrightarrow> errcode = fly_err FLYESUCCESS"

lemma FLY_SUCCEEDED_0 [simp]: "FLY_SUCCEEDED e \<longleftrightarrow> e = 0"
  by (simp add: FLY_SUCCEEDED_def)

lemma fly_err_eq_0_iff [simp]: "fly_err e = 0 \<longleftrightarrow> e = FLYESUCCESS"
  by (cases e) simp_all

section \<open>Reachable states and invariants\<close>

inductive reach :: "('s \<Rightarrow> bool) \<Rightarrow> ('s \<Rightarrow> 's \<Rightarrow> bool) \<Rightarrow> 's \<Rightarrow> bool" for init step where
  reach_init: "init s \<Longrightarrow> reach init step s"
| reach_step: "reach init step s \<Longrightarrow> step s t \<Longrightarrow> reach init step t"

text \<open>
  The interface of a component that is verified by an inductive invariant: the start states
  satisfy it and every step keeps it.
\<close>

locale invariant_system =
  fixes init :: "'s \<Rightarrow> bool"
    and step :: "'s \<Rightarrow> 's \<Rightarrow> bool"
    and inv :: "'s \<Rightarrow> bool"
  assumes inv_init: "init s \<Longrightarrow> inv s"
    and inv_step: "inv s \<Longrightarrow> step s t \<Longrightarrow> inv t"
begin

lemma reach_inv: "reach init step s \<Longrightarrow> inv s"
  by (induction rule: reach.induct) (auto intro: inv_init inv_step)

lemma reach_imp: "reach init step s \<Longrightarrow> (\<And>s. inv s \<Longrightarrow> P s) \<Longrightarrow> P s"
  by (blast dest: reach_inv)

lemma rtranclp_inv: "step\<^sup>*\<^sup>* s t \<Longrightarrow> inv s \<Longrightarrow> inv t"
  by (induction rule: rtranclp_induct) (auto intro: inv_step)

end

section \<open>Counting threads\<close>

text \<open>How many of the threads stand at a place with \<open>P\<close>.\<close>

definition pc_count :: "('p \<Rightarrow> bool) \<Rightarrow> ('t \<Rightarrow> 'p) \<Rightarrow> int" where
  "pc_count P f = int (card {t. P (f t)})"

lemma pc_count_nonneg: "0 \<le> pc_count P f"
  by (simp add: pc_count_def)

lemma pc_count_upd:
  assumes "finite {t. P (f t)}"
  shows "pc_count P (f(t := x)) = pc_count P f - of_bool (P (f t)) + of_bool (P x)"
proof -
  define A where "A = {u. P (f u)} - {t}"
  have "finite A" using assms by (simp add: A_def)
  then have c: "card (insert t A) = Suc (card A)"
    by (intro card_insert_disjoint) (simp_all add: A_def)
  have "{u. P (f u)} = (if P (f t) then insert t A else A)"
    "{u. P ((f(t := x)) u)} = (if P x then insert t A else A)" by (auto simp: A_def)
  then show ?thesis by (simp add: pc_count_def c)
qed

lemma finite_moved:
  assumes "finite {u. f u \<noteq> a}"
  shows "finite {u. (f(t := x)) u \<noteq> a}"
proof (rule finite_subset)
  show "{u. (f(t := x)) u \<noteq> a} \<subseteq> insert t {u. f u \<noteq> a}" by auto
  show "finite (insert t {u. f u \<noteq> a})" using assms by simp
qed

end
