(* ===== verification/Fly_List.thy ===== *)
theory Fly_List
  imports Fly_Prelude
begin

text \<open>
  \<^verbatim>\<open>src/fly_list.h\<close>: the intrusive doubly linked list every other component stores its
  elements in, on an explicit heap of nodes, with the allocator the library calls through the
  function pointers \<^verbatim>\<open>fly_malloc\<close> and \<^verbatim>\<open>fly_free\<close>.

  The list head is itself a \<^verbatim>\<open>struct fly_list\<close>: its \<open>next\<close> is the first node and
  its \<open>prev\<close> the last one.  The predicate \<open>dll\<close> relates the heap to a HOL list of
  (node, element) pairs; each operation is shown to implement an operation on that list and to
  touch no address outside the list's own footprint.
\<close>

section \<open>Nodes, the heap and the allocator\<close>

record fly_list =
  l_next :: ptr
  l_prev :: ptr
  l_el :: ptr

text \<open>
  \<open>brk\<close> numbers the allocations: the next block lives at address \<open>brk\<close>, and
  \<open>malloc_ok brk\<close> tells whether the allocator grants it (\<^verbatim>\<open>malloc\<close> may always
  return null).  A freed address is never handed out again, so every use after free is seen.
\<close>

record node_mem =
  brk :: ptr
  malloc_ok :: "ptr \<Rightarrow> bool"
  nodes :: "ptr \<rightharpoonup> fly_list"

definition fly_malloc :: "'a node_mem_scheme \<Rightarrow> ptr \<times> 'a node_mem_scheme" where
  "fly_malloc m =
     (if malloc_ok m (brk m) then brk m else NULL, m\<lparr>brk := Suc (brk m)\<rparr>)"

definition node_at :: "'a node_mem_scheme \<Rightarrow> ptr \<Rightarrow> fly_list option" where
  "node_at m p = (if p = NULL then None else nodes m p)"

definition get_next :: "'a node_mem_scheme \<Rightarrow> ptr \<Rightarrow> ptr option" where
  "get_next m p = map_option l_next (node_at m p)"

definition get_prev :: "'a node_mem_scheme \<Rightarrow> ptr \<Rightarrow> ptr option" where
  "get_prev m p = map_option l_prev (node_at m p)"

definition get_el :: "'a node_mem_scheme \<Rightarrow> ptr \<Rightarrow> ptr option" where
  "get_el m p = map_option l_el (node_at m p)"

definition put_node :: "'a node_mem_scheme \<Rightarrow> ptr \<Rightarrow> fly_list \<Rightarrow> 'a node_mem_scheme" where
  "put_node m p n = m\<lparr>nodes := (nodes m)(p \<mapsto> n)\<rparr>"

definition set_next :: "'a node_mem_scheme \<Rightarrow> ptr \<Rightarrow> ptr \<Rightarrow> 'a node_mem_scheme option" where
  "set_next m p v = map_option (\<lambda>n. put_node m p (n\<lparr>l_next := v\<rparr>)) (node_at m p)"

definition set_prev :: "'a node_mem_scheme \<Rightarrow> ptr \<Rightarrow> ptr \<Rightarrow> 'a node_mem_scheme option" where
  "set_prev m p v = map_option (\<lambda>n. put_node m p (n\<lparr>l_prev := v\<rparr>)) (node_at m p)"

text \<open>Freeing a node that is not allocated is undefined.\<close>

definition fly_free_node :: "'a node_mem_scheme \<Rightarrow> ptr \<Rightarrow> 'a node_mem_scheme option" where
  "fly_free_node m p =
     (case node_at m p of None \<Rightarrow> None | Some _ \<Rightarrow> Some (m\<lparr>nodes := (nodes m)(p := None)\<rparr>))"

section \<open>The operations\<close>

definition fly_list_init :: "'a node_mem_scheme \<Rightarrow> ptr \<Rightarrow> 'a node_mem_scheme" where
  "fly_list_init m list = put_node m list \<lparr>l_next = NULL, l_prev = NULL, l_el = NULL\<rparr>"

definition fly_list_init_with_el :: "'a node_mem_scheme \<Rightarrow> ptr \<Rightarrow> ptr \<Rightarrow> 'a node_mem_scheme" where
  "fly_list_init_with_el m list el = put_node m list \<lparr>l_next = NULL, l_prev = NULL, l_el = el\<rparr>"

definition fly_list_head :: "'a node_mem_scheme \<Rightarrow> ptr \<Rightarrow> ptr option" where
  "fly_list_head m list = get_next m list"

definition fly_list_tail :: "'a node_mem_scheme \<Rightarrow> ptr \<Rightarrow> ptr option" where
  "fly_list_tail m list = get_prev m list"

definition fly_list_append_node ::
  "'a node_mem_scheme \<Rightarrow> ptr \<Rightarrow> ptr \<Rightarrow> 'a node_mem_scheme option" where
  "fly_list_append_node m list node = do {
     p \<leftarrow> get_prev m list;
     m \<leftarrow> (if p \<noteq> NULL then do {
             m \<leftarrow> set_next m p node;
             p \<leftarrow> get_prev m list;
             set_prev m node p
           } else set_next m list node);
     set_prev m list node
   }"

definition fly_list_append ::
  "'a node_mem_scheme \<Rightarrow> ptr \<Rightarrow> ptr \<Rightarrow> (int \<times> 'a node_mem_scheme) option" where
  "fly_list_append m list el = (case fly_malloc m of (node, m) \<Rightarrow>
     if node \<noteq> NULL then do {
       m \<leftarrow> fly_list_append_node (fly_list_init_with_el m node el) list node;
       Some (fly_err FLYESUCCESS, m)
     } else Some (fly_err FLYENORES, m))"

definition fly_list_prepend_node ::
  "'a node_mem_scheme \<Rightarrow> ptr \<Rightarrow> ptr \<Rightarrow> 'a node_mem_scheme option" where
  "fly_list_prepend_node m list node = do {
     n \<leftarrow> get_next m list;
     m \<leftarrow> set_next m node n;
     set_next m list node
   }"

definition fly_list_prepend ::
  "'a node_mem_scheme \<Rightarrow> ptr \<Rightarrow> ptr \<Rightarrow> (int \<times> 'a node_mem_scheme) option" where
  "fly_list_prepend m list el = (case fly_malloc m of (node, m) \<Rightarrow>
     if node \<noteq> NULL then do {
       m \<leftarrow> fly_list_prepend_node (fly_list_init_with_el m node el) list node;
       Some (fly_err FLYESUCCESS, m)
     } else Some (fly_err FLYENORES, m))"

text \<open>The loop \<^verbatim>\<open>while (head && (head != node)) head = head->next\<close>.\<close>

partial_function (option) fly_list_walk ::
  "'a node_mem_scheme \<Rightarrow> ptr \<Rightarrow> ptr \<Rightarrow> ptr option" where
  "fly_list_walk m head node =
     (if head \<noteq> NULL \<and> head \<noteq> node
      then Option.bind (get_next m head) (\<lambda>n. fly_list_walk m n node)
      else Some head)"

definition fly_list_remove_node ::
  "'a node_mem_scheme \<Rightarrow> ptr \<Rightarrow> ptr \<Rightarrow> 'a node_mem_scheme option" where
  "fly_list_remove_node m list node = do {
     head \<leftarrow> fly_list_head m list;
     n \<leftarrow> get_next m list;
     m \<leftarrow> (if n = node then do { v \<leftarrow> get_next m node; set_next m list v } else Some m);
     p \<leftarrow> get_prev m list;
     m \<leftarrow> (if p = node then do { v \<leftarrow> get_prev m node; set_prev m list v } else Some m);
     head \<leftarrow> fly_list_walk m head node;
     (if head \<noteq> NULL then do {
        p \<leftarrow> get_prev m head;
        m \<leftarrow> (if p \<noteq> NULL then do { n \<leftarrow> get_next m head; set_next m p n } else Some m);
        n \<leftarrow> get_next m head;
        (if n \<noteq> NULL then do { p \<leftarrow> get_prev m head; set_prev m n p } else Some m)
      } else Some m)
   }"

text \<open>The loop of \<^verbatim>\<open>fly_list_get\<close>: \<^verbatim>\<open>while (node && (node->el != el))\<close>.\<close>

partial_function (option) fly_list_find ::
  "'a node_mem_scheme \<Rightarrow> ptr \<Rightarrow> ptr \<Rightarrow> ptr option" where
  "fly_list_find m node el =
     (if node \<noteq> NULL
      then Option.bind (get_el m node) (\<lambda>e.
             if e \<noteq> el then Option.bind (get_next m node) (\<lambda>n. fly_list_find m n el)
             else Some node)
      else Some node)"

definition fly_list_get :: "'a node_mem_scheme \<Rightarrow> ptr \<Rightarrow> ptr \<Rightarrow> ptr option" where
  "fly_list_get m list el = do { node \<leftarrow> get_next m list; fly_list_find m node el }"

definition fly_list_remove ::
  "'a node_mem_scheme \<Rightarrow> ptr \<Rightarrow> ptr \<Rightarrow> 'a node_mem_scheme option" where
  "fly_list_remove m list el = do {
     node \<leftarrow> fly_list_get m list el;
     (if node \<noteq> NULL then do {
        m \<leftarrow> fly_list_remove_node m list node;
        fly_free_node m node
      } else Some m)
   }"

definition fly_list_is_empty :: "'a node_mem_scheme \<Rightarrow> ptr \<Rightarrow> bool option" where
  "fly_list_is_empty m list = do { n \<leftarrow> get_next m list; Some (n = NULL) }"

definition fly_list_tail_remove ::
  "'a node_mem_scheme \<Rightarrow> ptr \<Rightarrow> (ptr \<times> 'a node_mem_scheme) option" where
  "fly_list_tail_remove m list = do {
     tail \<leftarrow> fly_list_tail m list;
     (if tail \<noteq> NULL then do {
        ret \<leftarrow> get_el m tail;
        m \<leftarrow> fly_list_remove_node m list tail;
        m \<leftarrow> fly_free_node m tail;
        Some (ret, m)
      } else Some (NULL, m))
   }"

section \<open>Nodes on the heap as a HOL list\<close>

lemmas heap_defs = get_next_def get_prev_def get_el_def set_next_def set_prev_def
  node_at_def put_node_def

fun first_node :: "(ptr \<times> ptr) list \<Rightarrow> ptr \<Rightarrow> ptr" where
  "first_node [] q = q"
| "first_node ((n, e) # xs) q = n"

definition last_node :: "ptr \<Rightarrow> (ptr \<times> ptr) list \<Rightarrow> ptr" where
  "last_node p xs = (if xs = [] then p else fst (last xs))"

text \<open>
  \<open>seg h p xs q\<close>: the nodes of \<open>xs\<close> lie on the heap one after the other, the first one
  points back to \<open>p\<close> and the last one on to \<open>q\<close>.
\<close>

fun seg :: "(ptr \<rightharpoonup> fly_list) \<Rightarrow> ptr \<Rightarrow> (ptr \<times> ptr) list \<Rightarrow> ptr \<Rightarrow> bool" where
  "seg h p [] q \<longleftrightarrow> True"
| "seg h p ((n, e) # xs) q \<longleftrightarrow>
     h n = Some \<lparr>l_next = first_node xs q, l_prev = p, l_el = e\<rparr> \<and> seg h n xs q"

definition footprint :: "ptr \<Rightarrow> (ptr \<times> ptr) list \<Rightarrow> ptr set" where
  "footprint l xs = insert l (fst ` set xs)"

definition dll :: "(ptr \<rightharpoonup> fly_list) \<Rightarrow> ptr \<Rightarrow> (ptr \<times> ptr) list \<Rightarrow> bool" where
  "dll h l xs \<longleftrightarrow>
     distinct (NULL # l # map fst xs) \<and>
     h l = Some \<lparr>l_next = first_node xs NULL, l_prev = last_node NULL xs, l_el = NULL\<rparr> \<and>
     seg h NULL xs NULL"

text \<open>Two heaps agree outside a set of addresses.\<close>

definition eq_off :: "ptr set \<Rightarrow> (ptr \<rightharpoonup> 'b) \<Rightarrow> (ptr \<rightharpoonup> 'b) \<Rightarrow> bool" where
  "eq_off S h h' \<longleftrightarrow> (\<forall>p. p \<notin> S \<longrightarrow> h' p = h p)"

definition node_mem_ok :: "'a node_mem_scheme \<Rightarrow> bool" where
  "node_mem_ok m \<longleftrightarrow> 0 < brk m \<and> dom (nodes m) \<subseteq> {..<brk m}"

lemma last_node_simps [simp]:
  "last_node p [] = p"
  "last_node p (xs @ [(n, e)]) = n"
  "last_node p ((n, e) # xs) = last_node n xs"
  by (auto simp: last_node_def)

lemma last_node_append [simp]: "last_node p (xs @ ys) = last_node (last_node p xs) ys"
  by (simp add: last_node_def)

lemma first_node_append [simp]: "first_node (xs @ ys) q = first_node xs (first_node ys q)"
  by (cases xs) auto

lemma seg_append [simp]:
  "seg h p (xs @ ys) q \<longleftrightarrow> seg h p xs (first_node ys q) \<and> seg h (last_node p xs) ys q"
  by (induction h p xs q rule: seg.induct) auto

lemma seg_upd [simp]: "a \<notin> fst ` set xs \<Longrightarrow> seg (h(a := v)) p xs q = seg h p xs q"
  by (induction h p xs q rule: seg.induct) auto

lemma seg_cong: "(\<And>a. a \<in> fst ` set xs \<Longrightarrow> h' a = h a) \<Longrightarrow> seg h' p xs q = seg h p xs q"
  by (induction h p xs q rule: seg.induct) auto

lemma seg_node: "seg h p xs q \<Longrightarrow> (n, e) \<in> set xs \<Longrightarrow> \<exists>a b. h n = Some \<lparr>l_next = a, l_prev = b, l_el = e\<rparr>"
  by (induction h p xs q rule: seg.induct) auto

lemma seg_unique: "seg h p xs NULL \<Longrightarrow> seg h p ys NULL \<Longrightarrow> first_node xs NULL = first_node ys NULL \<Longrightarrow>
  NULL \<notin> fst ` set xs \<Longrightarrow> NULL \<notin> fst ` set ys \<Longrightarrow> xs = ys"
proof (induction xs arbitrary: p ys)
  case Nil
  then show ?case by (cases ys) auto
next
  case (Cons x xs)
  then show ?case by (cases x; cases ys) (fastforce simp: image_iff)+
qed

lemma last_node_in: "last_node p xs \<in> insert p (fst ` set xs)"
  by (auto simp: last_node_def)

lemma last_node_neq [simp]:
  "n \<noteq> p \<Longrightarrow> n \<notin> fst ` set xs \<Longrightarrow> last_node p xs \<noteq> n"
  "n \<noteq> p \<Longrightarrow> n \<notin> fst ` set xs \<Longrightarrow> n \<noteq> last_node p xs"
  using last_node_in [of p xs] by auto

lemma first_node_in: "first_node xs q \<in> insert q (fst ` set xs)"
  by (cases xs) auto

lemma first_node_neq [simp]:
  "n \<noteq> q \<Longrightarrow> n \<notin> fst ` set xs \<Longrightarrow> first_node xs q \<noteq> n"
  "n \<noteq> q \<Longrightarrow> n \<notin> fst ` set xs \<Longrightarrow> n \<noteq> first_node xs q"
  using first_node_in [of xs q] by auto

lemma dll_unique: "dll h l xs \<Longrightarrow> dll h l ys \<Longrightarrow> xs = ys"
  by (rule seg_unique [of h NULL]) (auto simp: dll_def)

lemma dll_local: "dll h l xs \<Longrightarrow> (\<And>a. a \<in> footprint l xs \<Longrightarrow> h' a = h a) \<Longrightarrow> dll h' l xs"
  using seg_cong [of xs h' h NULL NULL] by (simp add: dll_def footprint_def)

lemma eq_off_refl [simp]: "eq_off S h h"
  by (simp add: eq_off_def)

lemma eq_off_trans: "eq_off S h h' \<Longrightarrow> eq_off T h' h'' \<Longrightarrow> eq_off (S \<union> T) h h''"
  by (simp add: eq_off_def)

lemma eq_off_mono: "eq_off S h h' \<Longrightarrow> S \<subseteq> T \<Longrightarrow> eq_off T h h'"
  by (auto simp: eq_off_def)

lemma dll_frame: "dll h l xs \<Longrightarrow> eq_off S h h' \<Longrightarrow> S \<inter> footprint l xs = {} \<Longrightarrow> dll h' l xs"
  by (erule dll_local) (auto simp: eq_off_def)

lemma dll_dom: "dll h l xs \<Longrightarrow> footprint l xs \<subseteq> dom h"
  by (fastforce simp: dll_def footprint_def dest: seg_node)

lemma dll_nonnull: "dll h l xs \<Longrightarrow> NULL \<notin> footprint l xs"
  by (auto simp: dll_def footprint_def)

lemma dll_head: "dll (nodes m) l xs \<Longrightarrow> get_next m l = Some (first_node xs NULL)"
  by (simp add: dll_def heap_defs)

lemma dll_tail: "dll (nodes m) l xs \<Longrightarrow> get_prev m l = Some (last_node NULL xs)"
  by (simp add: dll_def heap_defs)

lemma dll_init: "l \<noteq> NULL \<Longrightarrow> dll (nodes (fly_list_init m l)) l []"
  by (simp add: dll_def fly_list_init_def put_node_def)

lemma seg_get_el: "seg (nodes m) p xs q \<Longrightarrow> (n, e) \<in> set xs \<Longrightarrow> n \<noteq> NULL \<Longrightarrow> get_el m n = Some e"
  by (drule (1) seg_node) (auto simp: heap_defs)

lemma dll_get_el: "dll (nodes m) l xs \<Longrightarrow> (n, e) \<in> set xs \<Longrightarrow> get_el m n = Some e"
  by (rule seg_get_el) (auto simp: dll_def image_iff)

section \<open>What the operations do\<close>

lemma nodes_update_inj [simp]: "m\<lparr>nodes := x\<rparr> = m\<lparr>nodes := y\<rparr> \<longleftrightarrow> x = y"
  by (cases m) simp

lemma is_empty_dll: "dll (nodes m) l xs \<Longrightarrow> fly_list_is_empty m l = Some (xs = [])"
  by (cases xs) (auto simp: fly_list_is_empty_def heap_defs dll_def)

lemma append_node_dll:
  assumes "dll (nodes m) l xs" and "nodes m n = Some \<lparr>l_next = NULL, l_prev = NULL, l_el = e\<rparr>"
    and "n \<notin> footprint l xs" and "n \<noteq> NULL"
  shows "\<exists>h'. fly_list_append_node m l n = Some (m\<lparr>nodes := h'\<rparr>) \<and> dll h' l (xs @ [(n, e)]) \<and>
    eq_off (insert n (footprint l xs)) (nodes m) h' \<and> dom h' = dom (nodes m)"
proof (cases xs rule: rev_cases)
  case Nil
  with assms show ?thesis
    by (auto simp: fly_list_append_node_def heap_defs dll_def footprint_def eq_off_def)
next
  case (snoc ys z)
  obtain k v where "z = (k, v)" by (cases z)
  with snoc assms show ?thesis
    by (auto simp: fly_list_append_node_def heap_defs dll_def footprint_def eq_off_def)
qed

text \<open>Appending: a fresh node at the end, or the error code and an unchanged list.\<close>

lemma append_dll:
  assumes "node_mem_ok m" and "dll (nodes m) l xs" and "malloc_ok m (brk m)"
  shows "\<exists>h'. fly_list_append m l e = Some (0, m\<lparr>brk := Suc (brk m), nodes := h'\<rparr>) \<and>
    dll h' l (xs @ [(brk m, e)]) \<and> eq_off (insert (brk m) (footprint l xs)) (nodes m) h' \<and>
    dom h' = insert (brk m) (dom (nodes m))"
proof -
  let ?n = "brk m"
  let ?m = "fly_list_init_with_el (m\<lparr>brk := Suc ?n\<rparr>) ?n e"
  have n: "nodes m ?n = None" "?n \<noteq> NULL"
    using assms(1) by (auto simp: node_mem_ok_def domIff subset_iff)
  then have fresh: "?n \<notin> footprint l xs"
    using dll_dom [OF assms(2)] by auto
  then have "dll (nodes ?m) l xs"
    by (intro dll_local [OF assms(2)]) (auto simp: fly_list_init_with_el_def put_node_def)
  from append_node_dll [OF this, of ?n e] n fresh
  obtain h' where "fly_list_append_node ?m l ?n = Some (?m\<lparr>nodes := h'\<rparr>)"
    "dll h' l (xs @ [(?n, e)])" "eq_off (insert ?n (footprint l xs)) (nodes ?m) h'"
    "dom h' = dom (nodes ?m)"
    by (auto simp: fly_list_init_with_el_def put_node_def)
  with n assms(3) show ?thesis
    by (auto simp: fly_list_append_def fly_malloc_def fly_list_init_with_el_def put_node_def
        eq_off_def)
qed

lemma append_no_memory:
  "\<not> malloc_ok m (brk m) \<Longrightarrow>
    fly_list_append m l e = Some (fly_err FLYENORES, m\<lparr>brk := Suc (brk m)\<rparr>)"
  by (simp add: fly_list_append_def fly_malloc_def)

text \<open>The two walks end at the node they look for, or at null.\<close>

lemma walk_seg:
  assumes "seg (nodes m) p xs q" and "NULL \<notin> fst ` set xs" and "n \<notin> fst ` set xs"
  shows "fly_list_walk m (first_node xs q) n = fly_list_walk m q n"
  using assms
proof (induction xs arbitrary: p)
  case (Cons x xs)
  then show ?case
    by (cases x) (subst fly_list_walk.simps, auto simp: heap_defs)
qed simp

lemma walk_stop [simp]: "fly_list_walk m n n = Some n" "fly_list_walk m NULL n = Some NULL"
  by (subst fly_list_walk.simps, simp)+

lemma find_seg:
  assumes "seg (nodes m) p xs q" and "NULL \<notin> fst ` set xs" and "e \<notin> snd ` set xs"
  shows "fly_list_find m (first_node xs q) e = fly_list_find m q e"
  using assms
proof (induction xs arbitrary: p)
  case (Cons x xs)
  then show ?case
    by (cases x) (subst fly_list_find.simps, auto simp: heap_defs)
qed simp

lemma find_stop [simp]: "fly_list_find m NULL e = Some NULL"
  by (subst fly_list_find.simps) simp

lemma find_here: "get_el m n = Some e \<Longrightarrow> n \<noteq> NULL \<Longrightarrow> fly_list_find m n e = Some n"
  by (subst fly_list_find.simps) simp

lemma get_dll_absent:
  "dll (nodes m) l xs \<Longrightarrow> e \<notin> snd ` set xs \<Longrightarrow> fly_list_get m l e = Some NULL"
  using find_seg [of m NULL xs NULL e] by (auto simp: fly_list_get_def dll_head dll_def)

lemma get_dll_present:
  assumes "dll (nodes m) l (xs @ (n, e) # ys)" and "e \<notin> snd ` set xs"
  shows "fly_list_get m l e = Some n"
proof -
  have "fly_list_find m (first_node xs n) e = fly_list_find m n e"
    using assms by (intro find_seg [of m NULL]) (auto simp: dll_def)
  also have "\<dots> = Some n"
    using assms dll_get_el [OF assms(1), of n e] by (intro find_here) (auto simp: dll_def)
  finally show ?thesis
    using dll_head [OF assms(1)] by (simp add: fly_list_get_def)
qed

text \<open>Unlinking a node joins its neighbours and leaves the node itself as it was.\<close>

definition unlinked :: "(ptr \<rightharpoonup> fly_list) \<Rightarrow> ptr \<Rightarrow> (ptr \<times> ptr) list \<Rightarrow> (ptr \<times> ptr) list \<Rightarrow>
    ptr \<rightharpoonup> fly_list" where
  "unlinked h l xs ys =
     (let a = last_node l xs; b = first_node ys l;
          h = h(a := map_option (\<lambda>n. n\<lparr>l_next := first_node ys NULL\<rparr>) (h a))
      in h(b := map_option (\<lambda>n. n\<lparr>l_prev := last_node NULL xs\<rparr>) (h b)))"

lemma unlinked_dll:
  assumes "dll h l (xs @ (n, e) # ys)"
  shows "dll (unlinked h l xs ys) l (xs @ ys)"
proof (cases xs rule: rev_cases)
  case Nil
  with assms show ?thesis
    by (cases ys) (auto simp: unlinked_def dll_def)
next
  case (snoc as a)
  obtain k v where "a = (k, v)" by (cases a)
  with snoc assms show ?thesis
    by (cases ys) (auto simp: unlinked_def dll_def)
qed

lemma unlinked_frame:
  assumes "dll h l (xs @ (n, e) # ys)"
  shows "unlinked h l xs ys n = h n" and "eq_off (footprint l (xs @ ys)) h (unlinked h l xs ys)"
    and "dom (unlinked h l xs ys) = dom h"
proof -
  have "l \<in> dom h" "last_node l xs \<in> footprint l xs" "first_node ys l \<in> footprint l ys"
    using assms last_node_in [of l xs] first_node_in [of ys l] by (auto simp: dll_def footprint_def)
  moreover have "n \<notin> footprint l xs" "n \<notin> footprint l ys"
    using assms by (auto simp: dll_def footprint_def)
  ultimately show "unlinked h l xs ys n = h n"
    and "eq_off (footprint l (xs @ ys)) h (unlinked h l xs ys)"
    and "dom (unlinked h l xs ys) = dom h"
    by (auto simp: unlinked_def Let_def eq_off_def footprint_def split: if_splits)
qed

lemma walk_to_node:
  assumes "dll h l (xs @ (n, e) # ys)" and "seg (nodes m) NULL xs n"
  shows "fly_list_walk m (first_node xs n) n = Some n"
  using walk_seg [OF assms(2), of n] assms(1) by (auto simp: dll_def)

lemma remove_node_exec:
  assumes "dll (nodes m) l (xs @ (n, e) # ys)"
  shows "fly_list_remove_node m l n = Some (m\<lparr>nodes := unlinked (nodes m) l xs ys\<rparr>)"
proof (cases xs rule: rev_cases)
  case Nil
  note W = walk_to_node [OF assms]
  show ?thesis
  proof (cases ys)
    case ys: Nil
    with Nil assms show ?thesis
      by (simp add: fly_list_remove_node_def fly_list_head_def heap_defs dll_def unlinked_def W)
  next
    case (Cons b bs)
    obtain k v where b: "b = (k, v)" by (cases b)
    with Nil Cons assms show ?thesis
      by (simp add: fly_list_remove_node_def fly_list_head_def heap_defs dll_def unlinked_def
          fun_upd_twist W)
  qed
next
  case (snoc as a)
  obtain k v where a: "a = (k, v)" by (cases a)
  note W = walk_to_node [OF assms, simplified snoc a, simplified]
  show ?thesis
  proof (cases ys)
    case Nil
    with snoc a assms show ?thesis
      by (simp add: fly_list_remove_node_def fly_list_head_def heap_defs dll_def unlinked_def
          fun_upd_twist W)
  next
    case (Cons b bs)
    obtain j w where b: "b = (j, w)" by (cases b)
    with snoc a Cons assms show ?thesis
      by (simp add: fly_list_remove_node_def fly_list_head_def heap_defs dll_def unlinked_def
          fun_upd_twist W)
  qed
qed

lemmas remove_node_dll = remove_node_exec unlinked_dll unlinked_frame

text \<open>The element list after \<^verbatim>\<open>fly_list_remove\<close>: the first occurrence goes.\<close>

fun remove_el :: "ptr \<Rightarrow> (ptr \<times> ptr) list \<Rightarrow> (ptr \<times> ptr) list" where
  "remove_el e [] = []"
| "remove_el e ((n, x) # xs) = (if x = e then xs else (n, x) # remove_el e xs)"

lemma map_snd_remove_el [simp]: "map snd (remove_el e xs) = remove1 e (map snd xs)"
  by (induction xs) auto

lemma remove_el_absent: "e \<notin> snd ` set xs \<Longrightarrow> remove_el e xs = xs"
  by (induction xs) auto

lemma remove_el_split: "e \<notin> snd ` set xs \<Longrightarrow> remove_el e (xs @ (n, e) # ys) = xs @ ys"
  by (induction xs) auto

lemma first_occurrence:
  "e \<in> snd ` set xs \<Longrightarrow> \<exists>as n bs. xs = as @ (n, e) # bs \<and> e \<notin> snd ` set as"
proof (induction xs)
  case (Cons x xs)
  obtain k v where x: "x = (k, v)" by (cases x)
  show ?case
  proof (cases "v = e")
    case True
    with x have "x # xs = [] @ (k, e) # xs \<and> e \<notin> snd ` set []" by simp
    then show ?thesis by blast
  next
    case False
    with Cons x obtain as n bs where "xs = as @ (n, e) # bs" "e \<notin> snd ` set as" by auto
    with False x have "x # xs = (x # as) @ (n, e) # bs \<and> e \<notin> snd ` set (x # as)" by simp
    then show ?thesis by blast
  qed
qed simp

lemma dll_free: "dll h l xs \<Longrightarrow> n \<notin> footprint l xs \<Longrightarrow> dll (h(n := None)) l xs"
  by (erule dll_local) auto

lemma free_unlinked:
  assumes "dll (nodes m) l (xs @ (n, e) # ys)" and "h = unlinked (nodes m) l xs ys"
  shows "fly_free_node (m\<lparr>nodes := h\<rparr>) n = Some (m\<lparr>nodes := h(n := None)\<rparr>)"
    and "dll (h(n := None)) l (xs @ ys)"
    and "eq_off (footprint l (xs @ (n, e) # ys)) (nodes m) (h(n := None))"
    and "dom (h(n := None)) = dom (nodes m) - {n}"
proof -
  have n: "nodes m n \<noteq> None" "n \<noteq> NULL" "n \<notin> footprint l (xs @ ys)"
    using assms(1) by (auto simp: dll_def footprint_def)
  with unlinked_frame(1) [OF assms(1)] assms(2)
  show "fly_free_node (m\<lparr>nodes := h\<rparr>) n = Some (m\<lparr>nodes := h(n := None)\<rparr>)"
    by (auto simp: fly_free_node_def node_at_def)
  from n(3) unlinked_dll [OF assms(1)] assms(2) show "dll (h(n := None)) l (xs @ ys)"
    by (auto intro: dll_free)
  from unlinked_frame(2) [OF assms(1)] assms(2)
  show "eq_off (footprint l (xs @ (n, e) # ys)) (nodes m) (h(n := None))"
    by (auto simp: eq_off_def footprint_def)
  from unlinked_frame(3) [OF assms(1)] assms(2) show "dom (h(n := None)) = dom (nodes m) - {n}"
    by auto
qed

lemma remove_dll_present:
  assumes "dll (nodes m) l (xs @ (n, e) # ys)" and "e \<notin> snd ` set xs"
  shows "\<exists>h'. fly_list_remove m l e = Some (m\<lparr>nodes := h'\<rparr>) \<and> dll h' l (xs @ ys) \<and>
    eq_off (footprint l (xs @ (n, e) # ys)) (nodes m) h' \<and> dom h' = dom (nodes m) - {n}"
proof -
  have "n \<noteq> NULL" using assms(1) by (auto simp: dll_def)
  with free_unlinked [OF assms(1) refl] show ?thesis
    by (simp add: fly_list_remove_def get_dll_present [OF assms] remove_node_exec [OF assms(1)])
qed

lemma remove_dll_absent:
  "dll (nodes m) l xs \<Longrightarrow> e \<notin> snd ` set xs \<Longrightarrow> fly_list_remove m l e = Some m"
  by (simp add: fly_list_remove_def get_dll_absent)

lemma tail_remove_dll:
  assumes "dll (nodes m) l (xs @ [(n, e)])"
  shows "\<exists>h'. fly_list_tail_remove m l = Some (e, m\<lparr>nodes := h'\<rparr>) \<and> dll h' l xs \<and>
    eq_off (footprint l (xs @ [(n, e)])) (nodes m) h' \<and> dom h' = dom (nodes m) - {n}"
proof -
  have n: "n \<noteq> NULL" "get_el m n = Some e"
    using assms dll_get_el [OF assms, of n e] by (auto simp: dll_def)
  with free_unlinked [OF assms refl] dll_tail [OF assms] show ?thesis
    by (simp add: fly_list_tail_remove_def fly_list_tail_def remove_node_exec [OF assms])
qed

lemma tail_remove_empty: "dll (nodes m) l [] \<Longrightarrow> fly_list_tail_remove m l = Some (NULL, m)"
  by (simp add: fly_list_tail_remove_def fly_list_tail_def dll_tail)

section \<open>The contract of a list of elements\<close>

text \<open>
  What the clients of the list rely on, over an abstract representation \<open>rep m es\<close>: the
  state \<open>m\<close> holds the elements \<open>es\<close>.  \<open>room m\<close> tells whether the next allocation
  succeeds.
\<close>

locale element_list =
  fixes rep :: "'m \<Rightarrow> ptr list \<Rightarrow> bool"
    and room :: "'m \<Rightarrow> bool"
    and append :: "'m \<Rightarrow> ptr \<Rightarrow> (int \<times> 'm) option"
    and remove :: "'m \<Rightarrow> ptr \<Rightarrow> 'm option"
    and pop :: "'m \<Rightarrow> (ptr \<times> 'm) option"
    and empty :: "'m \<Rightarrow> bool option"
  assumes append_room: "rep m es \<Longrightarrow> room m \<Longrightarrow>
      \<exists>m'. append m e = Some (fly_err FLYESUCCESS, m') \<and> rep m' (es @ [e])"
    and append_full: "rep m es \<Longrightarrow> \<not> room m \<Longrightarrow>
      \<exists>m'. append m e = Some (fly_err FLYENORES, m') \<and> rep m' es"
    and remove: "rep m es \<Longrightarrow> \<exists>m'. remove m e = Some m' \<and> rep m' (remove1 e es)"
    and pop_last: "rep m (es @ [e]) \<Longrightarrow> \<exists>m'. pop m = Some (e, m') \<and> rep m' es"
    and pop_empty: "rep m [] \<Longrightarrow> pop m = Some (NULL, m)"
    and is_empty: "rep m es \<Longrightarrow> empty m = Some (es = [])"
begin

lemmas list_laws = append_room append_full remove pop_last pop_empty is_empty

lemma append_total: "rep m es \<Longrightarrow> \<exists>c m'. append m e = Some (c, m') \<and>
    rep m' (if FLY_SUCCEEDED c then es @ [e] else es)"
proof (cases "room m")
  case True
  assume "rep m es"
  from append_room [OF this True] show ?thesis by fastforce
next
  case False
  assume "rep m es"
  from append_full [OF this False, of e] obtain m' where
    "append m e = Some (fly_err FLYENORES, m')" "rep m' es" by blast
  then show ?thesis by (intro exI [of _ "fly_err FLYENORES"] exI [of _ m']) simp
qed

lemma append_pop: "rep m es \<Longrightarrow> room m \<Longrightarrow>
    \<exists>m1 m2. append m e = Some (0, m1) \<and> pop m1 = Some (e, m2) \<and> rep m2 es"
  using append_room [of m es e] pop_last by fastforce

lemma append_remove: "rep m es \<Longrightarrow> room m \<Longrightarrow> e \<notin> set es \<Longrightarrow>
    \<exists>m1 m2. append m e = Some (0, m1) \<and> remove m1 e = Some m2 \<and> rep m2 es"
  using append_room [of m es e] remove [of _ "es @ [e]" e] by (fastforce simp: remove1_append)

end

text \<open>
  Emptying a list element by element, as three loops of the library do.  \<open>body\<close> is the loop's
  body, \<open>drain\<close> the loop.
\<close>

locale drain_loop =
  fixes rep :: "'m \<Rightarrow> ptr list \<Rightarrow> bool"
    and body :: "'m \<Rightarrow> 'm option"
    and drain :: "'m \<Rightarrow> 'm option"
  assumes body: "rep m es \<Longrightarrow> es \<noteq> [] \<Longrightarrow>
      \<exists>m' es'. body m = Some m' \<and> rep m' es' \<and> length es' < length es"
    and drain_unfold: "rep m es \<Longrightarrow> drain m = (if es = [] then Some m else Option.bind (body m) drain)"
begin

lemma drains: "rep m es \<Longrightarrow> \<exists>m'. drain m = Some m' \<and> rep m' []"
proof (induction es arbitrary: m rule: length_induct)
  case (1 es)
  show ?case
  proof (cases "es = []")
    case True
    with "1.prems" drain_unfold [OF "1.prems"] show ?thesis by auto
  next
    case False
    with body [OF "1.prems"] obtain m' es' where
      "body m = Some m'" "rep m' es'" "length es' < length es" by blast
    with "1.IH" drain_unfold [OF "1.prems"] False show ?thesis by auto
  qed
qed

end

text \<open>
  \<open>list_rep l m0 m es\<close>: the list at \<open>l\<close> holds \<open>es\<close> in \<open>m\<close>, and everything but this
  list's nodes is as in \<open>m0\<close>: no other node of the heap, and no other field of the state.
\<close>

definition list_rep ::
  "ptr \<Rightarrow> 'a node_mem_scheme \<Rightarrow> 'a node_mem_scheme \<Rightarrow> ptr list \<Rightarrow> bool" where
  "list_rep l m0 m es \<longleftrightarrow>
     node_mem_ok m \<and> (\<exists>b h. m = m0\<lparr>brk := b, nodes := h\<rparr>) \<and> l \<in> dom (nodes m0) \<and>
     (\<exists>xs. map snd xs = es \<and> dll (nodes m) l xs \<and> fst ` set xs \<inter> dom (nodes m0) = {} \<and>
        dom (nodes m) = dom (nodes m0) \<union> fst ` set xs \<and>
        eq_off (footprint l xs) (nodes m0) (nodes m))"

definition list_room :: "'a node_mem_scheme \<Rightarrow> bool" where
  "list_room m \<longleftrightarrow> malloc_ok m (brk m)"

lemma list_repE:
  assumes "list_rep l m0 m es"
  obtains xs b h where "node_mem_ok m" "m = m0\<lparr>brk := b, nodes := h\<rparr>" "l \<in> dom (nodes m0)"
    "map snd xs = es" "dll (nodes m) l xs" "fst ` set xs \<inter> dom (nodes m0) = {}"
    "dom (nodes m) = dom (nodes m0) \<union> fst ` set xs"
    "eq_off (footprint l xs) (nodes m0) (nodes m)"
  using assms unfolding list_rep_def by blast

text \<open>The last element of the list, as the emptying loops read it.\<close>

lemma list_rep_last:
  assumes "list_rep l m0 m (es @ [e])"
  shows "\<exists>n. fly_list_tail m l = Some n \<and> get_el m n = Some e"
proof -
  obtain xs where xs: "map snd xs = es @ [e]" "dll (nodes m) l xs"
    using assms by (rule list_repE)
  then obtain ys n where "xs = ys @ [(n, e)]"
    by (cases xs rule: rev_cases) auto
  with xs(2) dll_tail [OF xs(2)] dll_get_el [OF xs(2), of n e] show ?thesis
    by (simp add: fly_list_tail_def)
qed

lemma node_mem_ok_dom: "node_mem_ok m \<Longrightarrow> p \<in> dom (nodes m) \<Longrightarrow> p < brk m"
  by (auto simp: node_mem_ok_def)

lemma list_rep_append_room:
  assumes "list_rep l m0 m es" and "list_room m"
  shows "\<exists>m'. fly_list_append m l e = Some (fly_err FLYESUCCESS, m') \<and> list_rep l m0 m' (es @ [e])"
proof -
  obtain xs b h where r: "node_mem_ok m" "m = m0\<lparr>brk := b, nodes := h\<rparr>" "l \<in> dom (nodes m0)"
    "map snd xs = es" "dll (nodes m) l xs" "fst ` set xs \<inter> dom (nodes m0) = {}"
    "dom (nodes m) = dom (nodes m0) \<union> fst ` set xs"
    "eq_off (footprint l xs) (nodes m0) (nodes m)"
    by (rule list_repE [OF assms(1)])
  obtain h' where h': "fly_list_append m l e = Some (0, m\<lparr>brk := Suc (brk m), nodes := h'\<rparr>)"
    "dll h' l (xs @ [(brk m, e)])" "eq_off (insert (brk m) (footprint l xs)) (nodes m) h'"
    "dom h' = insert (brk m) (dom (nodes m))"
    using append_dll [OF r(1,5), of e] assms(2) by (auto simp: list_room_def)
  have fresh: "brk m \<notin> dom (nodes m)"
    using node_mem_ok_dom [OF r(1)] by blast
  have "node_mem_ok (m\<lparr>brk := Suc (brk m), nodes := h'\<rparr>)"
    using r(1) h'(4) by (auto simp: node_mem_ok_def)
  moreover have "eq_off (footprint l (xs @ [(brk m, e)])) (nodes m0) h'"
    using r(8) h'(3) by (auto simp: eq_off_def footprint_def)
  ultimately have "list_rep l m0 (m\<lparr>brk := Suc (brk m), nodes := h'\<rparr>) (es @ [e])"
    unfolding list_rep_def using r h'(2,4) fresh
    by (intro conjI exI [of _ "xs @ [(brk m, e)]"]) auto
  with h'(1) show ?thesis by auto
qed

lemma list_rep_skip:
  assumes "list_rep l m0 m es"
  shows "list_rep l m0 (m\<lparr>brk := Suc (brk m)\<rparr>) es"
proof -
  obtain xs b h where r: "node_mem_ok m" "m = m0\<lparr>brk := b, nodes := h\<rparr>" "l \<in> dom (nodes m0)"
    "map snd xs = es" "dll (nodes m) l xs" "fst ` set xs \<inter> dom (nodes m0) = {}"
    "dom (nodes m) = dom (nodes m0) \<union> fst ` set xs" "eq_off (footprint l xs) (nodes m0) (nodes m)"
    using assms by (rule list_repE)
  have "node_mem_ok (m\<lparr>brk := Suc (brk m)\<rparr>)"
    using r(1) by (auto simp: node_mem_ok_def)
  moreover have "m\<lparr>brk := Suc (brk m)\<rparr> = m0\<lparr>brk := Suc b, nodes := h\<rparr>"
    using r(2) by simp
  ultimately show ?thesis
    unfolding list_rep_def using r(2-)
    by (intro conjI exI [of _ xs] exI [of _ "Suc b"] exI [of _ h]) auto
qed

lemma list_rep_append_full:
  assumes "list_rep l m0 m es" and "\<not> list_room m"
  shows "\<exists>m'. fly_list_append m l e = Some (fly_err FLYENORES, m') \<and> list_rep l m0 m' es"
  using assms list_rep_skip [OF assms(1)] by (auto simp: append_no_memory list_room_def)

text \<open>Dropping one node of the list keeps the representation.\<close>

lemma list_rep_drop:
  assumes "list_rep l m0 m es" and "dll (nodes m) l (xs @ (n, e) # ys)"
    and "dll h' l (xs @ ys)" and "eq_off (footprint l (xs @ (n, e) # ys)) (nodes m) h'"
    and "dom h' = dom (nodes m) - {n}"
  shows "list_rep l m0 (m\<lparr>nodes := h'\<rparr>) (map snd (xs @ ys))"
proof -
  obtain zs b h where r: "node_mem_ok m" "m = m0\<lparr>brk := b, nodes := h\<rparr>" "l \<in> dom (nodes m0)"
    "dll (nodes m) l zs" "fst ` set zs \<inter> dom (nodes m0) = {}"
    "dom (nodes m) = dom (nodes m0) \<union> fst ` set zs" "eq_off (footprint l zs) (nodes m0) (nodes m)"
    using assms(1) by (rule list_repE)
  have zs: "zs = xs @ (n, e) # ys"
    using dll_unique [OF r(4) assms(2)] .
  have n: "n \<notin> fst ` set xs" "n \<notin> fst ` set ys" "n \<notin> dom (nodes m0)"
    using assms(2) r(5) zs by (auto simp: dll_def)
  have "h' p = nodes m0 p" if "p \<notin> footprint l (xs @ ys)" for p
  proof (cases "p = n")
    case True
    with assms(5) have "p \<notin> dom h'" by simp
    with True n(3) show ?thesis by (simp add: domIff)
  next
    case False
    with that have "p \<notin> footprint l (xs @ (n, e) # ys)" by (simp add: footprint_def)
    with assms(4) r(7) zs show ?thesis by (simp add: eq_off_def)
  qed
  then have "eq_off (footprint l (xs @ ys)) (nodes m0) h'"
    by (simp add: eq_off_def)
  moreover have "node_mem_ok (m\<lparr>nodes := h'\<rparr>)"
    using r(1) assms(5) by (auto simp: node_mem_ok_def)
  ultimately show ?thesis
    unfolding list_rep_def using r zs n assms(3,5)
    by (intro conjI exI [of _ "xs @ ys"]) auto
qed

lemma list_rep_remove:
  assumes "list_rep l m0 m es"
  shows "\<exists>m'. fly_list_remove m l e = Some m' \<and> list_rep l m0 m' (remove1 e es) \<and> brk m' = brk m"
proof -
  obtain xs where xs: "map snd xs = es" "dll (nodes m) l xs"
    using assms by (rule list_repE)
  show ?thesis
  proof (cases "e \<in> snd ` set xs")
    case True
    from first_occurrence [OF True]
    obtain as n bs where s: "xs = as @ (n, e) # bs" "e \<notin> snd ` set as" by blast
    with xs have d: "dll (nodes m) l (as @ (n, e) # bs)" by simp
    obtain h' where h': "fly_list_remove m l e = Some (m\<lparr>nodes := h'\<rparr>)" "dll h' l (as @ bs)"
      "eq_off (footprint l (as @ (n, e) # bs)) (nodes m) h'" "dom h' = dom (nodes m) - {n}"
      using remove_dll_present [OF d s(2)] by blast
    have "remove1 e es = map snd (remove_el e xs)"
      by (simp only: map_snd_remove_el xs(1))
    then have "remove1 e es = map snd (as @ bs)"
      by (simp only: s(1) remove_el_split [OF s(2)])
    with list_rep_drop [OF assms d h'(2-4)] h'(1) show ?thesis by auto
  next
    case False
    moreover from this xs(1) have "e \<notin> set es" by auto
    ultimately show ?thesis
      using assms remove_dll_absent [OF xs(2)] by (simp add: remove1_idem)
  qed
qed

lemma list_rep_pop:
  assumes "list_rep l m0 m (es @ [e])"
  shows "\<exists>m'. fly_list_tail_remove m l = Some (e, m') \<and> list_rep l m0 m' es \<and> brk m' = brk m"
proof -
  obtain xs where xs: "map snd xs = es @ [e]" "dll (nodes m) l xs"
    using assms by (rule list_repE)
  then obtain ys n where ys: "xs = ys @ [(n, e)]" "map snd ys = es"
    by (cases xs rule: rev_cases) auto
  with xs have d: "dll (nodes m) l (ys @ (n, e) # [])" by simp
  obtain h' where h': "fly_list_tail_remove m l = Some (e, m\<lparr>nodes := h'\<rparr>)" "dll h' l (ys @ [])"
    "eq_off (footprint l (ys @ (n, e) # [])) (nodes m) h'" "dom h' = dom (nodes m) - {n}"
    using tail_remove_dll [OF d] by auto
  with list_rep_drop [OF assms d h'(2-4)] ys(2) show ?thesis by auto
qed

interpretation nodes_list: element_list "list_rep l m0" list_room
    "\<lambda>m e. fly_list_append m l e" "\<lambda>m e. fly_list_remove m l e"
    "\<lambda>m. fly_list_tail_remove m l" "\<lambda>m. fly_list_is_empty m l"
  for l :: ptr and m0 :: "'a node_mem_scheme"
proof unfold_locales
  fix m :: "'a node_mem_scheme" and es :: "ptr list" and e :: ptr
  show "\<exists>m'. fly_list_append m l e = Some (fly_err FLYESUCCESS, m') \<and> list_rep l m0 m' (es @ [e])"
    if "list_rep l m0 m es" "list_room m"
    using that by (rule list_rep_append_room)
  show "\<exists>m'. fly_list_append m l e = Some (fly_err FLYENORES, m') \<and> list_rep l m0 m' es"
    if "list_rep l m0 m es" "\<not> list_room m"
    using that by (rule list_rep_append_full)
  show "\<exists>m'. fly_list_remove m l e = Some m' \<and> list_rep l m0 m' (remove1 e es)"
    if "list_rep l m0 m es"
    using list_rep_remove [OF that] by blast
  show "\<exists>m'. fly_list_tail_remove m l = Some (e, m') \<and> list_rep l m0 m' es"
    if "list_rep l m0 m (es @ [e])"
    using list_rep_pop [OF that] by blast
  show "fly_list_tail_remove m l = Some (NULL, m)" if "list_rep l m0 m []"
    using that by (auto elim: list_repE simp: tail_remove_empty)
  show "fly_list_is_empty m l = Some (es = [])" if "list_rep l m0 m es"
    using that by (auto elim!: list_repE simp: is_empty_dll)
qed

lemma list_repI:
  assumes "node_mem_ok m" and "dll (nodes m) l xs"
  shows "list_rep l (m\<lparr>nodes := nodes m |` (- fst ` set xs)\<rparr>) m (map snd xs)"
proof -
  have "m = m\<lparr>nodes := nodes m |` (- fst ` set xs), brk := brk m, nodes := nodes m\<rparr>" by simp
  then have "\<exists>b h. m = m\<lparr>nodes := nodes m |` (- fst ` set xs), brk := b, nodes := h\<rparr>" by blast
  moreover have "l \<in> dom (nodes m) \<and> l \<notin> fst ` set xs \<and> fst ` set xs \<subseteq> dom (nodes m)"
    using assms(2) dll_dom [OF assms(2)] by (auto simp: dll_def footprint_def)
  ultimately show ?thesis
    unfolding list_rep_def using assms
    by (intro conjI exI [of _ xs]) (auto simp del: image_iff simp: eq_off_def footprint_def)
qed

text \<open>A second list of the heap that shares no node is untouched.\<close>

lemma list_rep_other:
  assumes "list_rep l m0 m es" and "dll (nodes m0) l' xs" and "l \<notin> footprint l' xs"
  shows "dll (nodes m) l' xs"
proof -
  obtain ys where "fst ` set ys \<inter> dom (nodes m0) = {}" "eq_off (footprint l ys) (nodes m0) (nodes m)"
    using assms(1) by (rule list_repE)
  moreover from this(1) assms(3) dll_dom [OF assms(2)]
  have "footprint l ys \<inter> footprint l' xs = {}"
    unfolding footprint_def [of l ys] by blast
  ultimately show ?thesis
    by (intro dll_frame [OF assms(2)])
qed

lemma set_next_brk [frame_simps]: "set_next m p v = Some m' \<Longrightarrow> brk m' = brk m \<and> malloc_ok m' = malloc_ok m"
  by (auto simp: set_next_def put_node_def)

lemma set_prev_brk [frame_simps]: "set_prev m p v = Some m' \<Longrightarrow> brk m' = brk m \<and> malloc_ok m' = malloc_ok m"
  by (auto simp: set_prev_def put_node_def)

lemma append_node_brk: "fly_list_append_node m l n = Some m' \<Longrightarrow> brk m' = brk m"
  by (auto simp: fly_list_append_node_def Option.bind_eq_Some_conv split: if_splits
      dest!: set_next_brk set_prev_brk)

lemma append_brk: "fly_list_append m l e = Some (c, m') \<Longrightarrow> brk m' = Suc (brk m)"
  by (auto simp: fly_list_append_def fly_malloc_def Option.bind_eq_Some_conv
      fly_list_init_with_el_def put_node_def split: if_splits dest!: append_node_brk)

section \<open>Runs of operations\<close>

text \<open>
  A client's sequence of calls on one list, with the value each call returns, and the same
  sequence on a HOL list.  The abstract run is told the allocator's answers and the number of
  the next allocation, nothing else.
\<close>

datatype list_op = Append ptr | Remove ptr | Pop | IsEmpty

fun list_step :: "ptr \<Rightarrow> 'a node_mem_scheme \<Rightarrow> list_op \<Rightarrow> (int \<times> 'a node_mem_scheme) option" where
  "list_step l m (Append e) = fly_list_append m l e"
| "list_step l m (Remove e) = do { m' \<leftarrow> fly_list_remove m l e; Some (0, m') }"
| "list_step l m Pop = do { (e, m') \<leftarrow> fly_list_tail_remove m l; Some (int e, m') }"
| "list_step l m IsEmpty = do { b \<leftarrow> fly_list_is_empty m l; Some (of_bool b, m) }"

fun list_run :: "ptr \<Rightarrow> 'a node_mem_scheme \<Rightarrow> list_op list \<Rightarrow> (int list \<times> 'a node_mem_scheme) option" where
  "list_run l m [] = Some ([], m)"
| "list_run l m (x # xs) = do {
     (r, m) \<leftarrow> list_step l m x;
     (rs, m) \<leftarrow> list_run l m xs;
     Some (r # rs, m)
   }"

fun abs_step :: "(ptr \<Rightarrow> bool) \<Rightarrow> ptr \<times> ptr list \<Rightarrow> list_op \<Rightarrow> int \<times> ptr \<times> ptr list" where
  "abs_step ok (b, es) (Append e) =
     (if ok b then (0, Suc b, es @ [e]) else (1, Suc b, es))"
| "abs_step ok (b, es) (Remove e) = (0, b, remove1 e es)"
| "abs_step ok (b, es) Pop = (if es = [] then (0, b, es) else (int (last es), b, butlast es))"
| "abs_step ok (b, es) IsEmpty = (of_bool (es = []), b, es)"

fun abs_run :: "(ptr \<Rightarrow> bool) \<Rightarrow> ptr \<times> ptr list \<Rightarrow> list_op list \<Rightarrow> int list \<times> ptr \<times> ptr list" where
  "abs_run ok s [] = ([], s)"
| "abs_run ok s (x # xs) =
     (case abs_step ok s x of (r, s) \<Rightarrow> case abs_run ok s xs of (rs, s) \<Rightarrow> (r # rs, s))"

lemma list_rep_malloc: "list_rep l m0 m es \<Longrightarrow> malloc_ok m = malloc_ok m0"
  by (auto simp: list_rep_def)

lemma list_step_refines:
  assumes "list_rep l m0 m es"
  shows "\<exists>r m' es'. list_step l m x = Some (r, m') \<and>
    abs_step (malloc_ok m0) (brk m, es) x = (r, brk m', es') \<and> list_rep l m0 m' es'"
proof (cases x)
  case (Append e)
  obtain c m' where "fly_list_append m l e = Some (c, m')"
    "list_rep l m0 m' (if FLY_SUCCEEDED c then es @ [e] else es)"
    using nodes_list.append_total [OF assms] by blast
  moreover from this(1) list_rep_malloc [OF assms]
  have "c = (if malloc_ok m0 (brk m) then 0 else 1)"
    using assms by (auto elim!: list_repE simp: node_mem_ok_def fly_list_append_def fly_malloc_def Option.bind_eq_Some_conv split: if_splits)
  ultimately show ?thesis
    using Append append_brk [of m l e c m'] by (auto split: if_splits)
next
  case (Remove e)
  with list_rep_remove [OF assms, of e] show ?thesis by auto
next
  case Pop
  show ?thesis
  proof (cases es rule: rev_cases)
    case Nil
    with assms Pop nodes_list.pop_empty [of l m0 m] show ?thesis by auto
  next
    case (snoc ys e)
    with assms Pop list_rep_pop [of l m0 m ys e] show ?thesis by auto
  qed
next
  case IsEmpty
  with assms nodes_list.is_empty [OF assms] show ?thesis by auto
qed

lemma list_run_simulation:
  assumes "list_rep l m0 m es"
  shows "\<exists>rs m' es'. list_run l m ops = Some (rs, m') \<and>
    abs_run (malloc_ok m0) (brk m, es) ops = (rs, brk m', es') \<and> list_rep l m0 m' es'"
  using assms
proof (induction ops arbitrary: m es)
  case (Cons x xs)
  obtain r m1 es1 where 1: "list_step l m x = Some (r, m1)"
    "abs_step (malloc_ok m0) (brk m, es) x = (r, brk m1, es1)" "list_rep l m0 m1 es1"
    using list_step_refines [OF Cons.prems] by blast
  with Cons.IH [OF 1(3)] show ?case by auto
qed simp

section \<open>Properties\<close>

text \<open>A heap with one empty list, at address 1, and an allocator that always succeeds.\<close>

definition one_list :: node_mem where
  "one_list = \<lparr>brk = 2, malloc_ok = \<lambda>_. True,
     nodes = [1 \<mapsto> \<lparr>l_next = NULL, l_prev = NULL, l_el = NULL\<rparr>]\<rparr>"

lemma one_list_rep: "list_rep 1 one_list one_list []"
proof -
  have "one_list = one_list\<lparr>brk := 2, nodes := nodes one_list\<rparr>" by (simp add: one_list_def)
  then have "\<exists>b h. one_list = one_list\<lparr>brk := b, nodes := h\<rparr>" by blast
  then show ?thesis
    by (simp add: list_rep_def) (simp add: one_list_def node_mem_ok_def dll_def)
qed

text \<open>
  C15. The pointer-level list implements a list of elements: whatever calls a client makes
  (append, remove, tail removal, emptiness test, in any order and with any allocator), every
  call returns without touching a null, dangling or foreign node, the values returned are those
  of the same calls on a HOL list, the heap holds that list afterwards, and every other node of
  the heap and every other field of the state is as before.
\<close>

theorem list_run_refines:
  assumes "list_rep l m0 m es"
  shows "\<exists>rs m' es'. list_run l m ops = Some (rs, m') \<and>
    abs_run (malloc_ok m0) (brk m, es) ops = (rs, brk m', es') \<and> list_rep l m0 m' es'"
  using assms by (rule list_run_simulation)

theorem list_run_refines_witness:
  "\<exists>rs m' es'. list_run 1 one_list [Append 7, Append 8, Remove 7, Pop, Pop, IsEmpty] = Some (rs, m') \<and>
    abs_run (\<lambda>_. True) (2, []) [Append 7, Append 8, Remove 7, Pop, Pop, IsEmpty] = (rs, brk m', es') \<and>
    list_rep 1 one_list m' es' \<and> rs = [0, 0, 0, 8, 0, 1]"
  using list_run_refines [OF one_list_rep, of "[Append 7, Append 8, Remove 7, Pop, Pop, IsEmpty]"]
  by (auto simp: one_list_def)

text \<open>
  Removing an element unlinks the first node that holds it, joins its neighbours, frees
  exactly that node and writes to no address outside the list; the node's address is gone from
  the heap (so nothing is leaked and a later use of it would be an error).
\<close>

theorem remove_frees_one_node:
  assumes "dll (nodes m) l (xs @ (n, e) # ys)" and "e \<notin> snd ` set xs"
  shows "\<exists>h'. fly_list_remove m l e = Some (m\<lparr>nodes := h'\<rparr>) \<and> dll h' l (xs @ ys) \<and>
    eq_off (footprint l (xs @ (n, e) # ys)) (nodes m) h' \<and> dom h' = dom (nodes m) - {n}"
  using assms by (rule remove_dll_present)

definition two_nodes :: node_mem where
  "two_nodes = \<lparr>brk = 4, malloc_ok = \<lambda>_. True,
     nodes = [1 \<mapsto> \<lparr>l_next = 2, l_prev = 3, l_el = NULL\<rparr>,
       2 \<mapsto> \<lparr>l_next = 3, l_prev = NULL, l_el = 70\<rparr>, 3 \<mapsto> \<lparr>l_next = NULL, l_prev = 2, l_el = 80\<rparr>]\<rparr>"

theorem remove_frees_one_node_witness:
  "\<exists>h'. fly_list_remove two_nodes 1 70 = Some (two_nodes\<lparr>nodes := h'\<rparr>) \<and> dll h' 1 [(3, 80)] \<and>
    dom h' = dom (nodes two_nodes) - {2}"
proof -
  have "dll (nodes two_nodes) 1 ([] @ (2, 70) # [(3, 80)])"
    by (simp add: two_nodes_def dll_def)
  from remove_frees_one_node [OF this] show ?thesis by auto
qed

text \<open>
  \<^verbatim>\<open>fly_list_prepend\<close> does not keep the list well formed: it sets neither the
  list's \<open>prev\<close> nor the old head's.  After prepending to an empty list, the next append takes
  the list to be empty and overwrites its head, so the prepended element is lost.
\<close>

theorem prepend_then_append_loses_element:
  assumes "node_mem_ok m" and "dll (nodes m) l []"
    and "malloc_ok m (brk m)" and "malloc_ok m (Suc (brk m))"
  shows "\<exists>m1 m2. fly_list_prepend m l a = Some (0, m1) \<and> fly_list_append m1 l b = Some (0, m2) \<and>
    dll (nodes m2) l [(Suc (brk m), b)] \<and> fly_list_get m2 l a = Some (if a = b then Suc (brk m) else NULL)"
proof -
  have "l < brk m" using assms(1,2) by (auto simp: node_mem_ok_def dll_def)
  with assms show ?thesis
    by (auto simp: fly_list_prepend_def fly_list_prepend_node_def fly_list_append_def
        fly_list_append_node_def fly_malloc_def fly_list_init_with_el_def heap_defs dll_def
        node_mem_ok_def fly_list_get_def find_here fly_list_find.simps)
qed

theorem prepend_then_append_loses_element_witness:
  "\<exists>m1 m2. fly_list_prepend one_list 1 70 = Some (0, m1) \<and> fly_list_append m1 1 80 = Some (0, m2) \<and>
    dll (nodes m2) 1 [(3, 80)] \<and> fly_list_get m2 1 70 = Some NULL"
  using prepend_then_append_loses_element [of one_list 1 70 80]
  by (simp add: one_list_def node_mem_ok_def dll_def numeral_3_eq_3)

end
