(* ===== verification/Fly_Lists.thy ===== *)
theory Fly_Lists
  imports Fly_List
begin

text \<open>
  Several lists on one heap.  The scheduler keeps three lists and every job one, all made of nodes
  of the same heap, so an operation on one list must be seen not to disturb the others.

  \<open>heap_lists m F\<close> describes the whole node heap: the list at each header \<open>l\<close> is
  \<open>F l\<close>, no two lists share a node, and there is no node besides.  \<open>lists_rep m E\<close> is the
  same for the elements only.  Every list operation is an update of \<open>E\<close> at its own header.
\<close>

section \<open>The whole node heap\<close>

definition heap_lists :: "'a node_mem_scheme \<Rightarrow> (ptr \<rightharpoonup> (ptr \<times> ptr) list) \<Rightarrow> bool" where
  "heap_lists m F \<longleftrightarrow> node_mem_ok m \<and> (\<forall>l xs. F l = Some xs \<longrightarrow> dll (nodes m) l xs) \<and>
     (\<forall>l k xs ys. F l = Some xs \<longrightarrow> F k = Some ys \<longrightarrow> l \<noteq> k \<longrightarrow> footprint l xs \<inter> footprint k ys = {}) \<and>
     dom (nodes m) = {p. \<exists>l xs. F l = Some xs \<and> p \<in> footprint l xs}"

lemma heap_listsD:
  assumes "heap_lists m F"
  shows "node_mem_ok m" and "F l = Some xs \<Longrightarrow> dll (nodes m) l xs"
    and "F l = Some xs \<Longrightarrow> F k = Some ys \<Longrightarrow> l \<noteq> k \<Longrightarrow> footprint l xs \<inter> footprint k ys = {}"
    and "dom (nodes m) = {p. \<exists>l xs. F l = Some xs \<and> p \<in> footprint l xs}"
  using assms unfolding heap_lists_def by blast+

text \<open>One list changes, using its own nodes and fresh ones only.\<close>

lemma heap_lists_update:
  assumes "heap_lists m F" and "F l = Some xs" and "dll h l ys"
    and "eq_off (footprint l xs \<union> N) (nodes m) h" and "N \<inter> dom (nodes m) = {}"
    and "footprint l ys \<subseteq> footprint l xs \<union> N"
    and "dom h = (dom (nodes m) - footprint l xs) \<union> footprint l ys"
    and "node_mem_ok (m\<lparr>brk := b, nodes := h\<rparr>)"
  shows "heap_lists (m\<lparr>brk := b, nodes := h\<rparr>) (F(l \<mapsto> ys))"
proof -
  note d = heap_listsD [OF assms(1)]
  have others: "dll h k zs \<and> footprint k zs \<inter> footprint l ys = {}" if k: "F k = Some zs" "k \<noteq> l" for k zs
  proof -
    have "footprint k zs \<subseteq> dom (nodes m)" using d(4) k(1) by blast
    then have "footprint k zs \<inter> (footprint l xs \<union> N) = {}"
      using d(3) [OF k(1) assms(2) k(2)] assms(5) by blast
    with dll_frame [OF d(2) [OF k(1)] assms(4)] assms(6) show ?thesis by blast
  qed
  have "dom h = {p. \<exists>k zs. (F(l \<mapsto> ys)) k = Some zs \<and> p \<in> footprint k zs}" (is "_ = ?D")
  proof
    show "dom h \<subseteq> ?D"
    proof
      fix p assume "p \<in> dom h"
      then consider "p \<in> footprint l ys" | "p \<in> dom (nodes m)" "p \<notin> footprint l xs"
        using assms(7) by blast
      then show "p \<in> ?D"
      proof cases
        case 2
        then obtain k zs where "F k = Some zs" "p \<in> footprint k zs" using d(4) by blast
        with 2 assms(2) show ?thesis by (cases "k = l") auto
      qed auto
    qed
    show "?D \<subseteq> dom h"
    proof
      fix p assume "p \<in> ?D"
      then obtain k zs where k: "(F(l \<mapsto> ys)) k = Some zs" "p \<in> footprint k zs" by blast
      show "p \<in> dom h"
      proof (cases "k = l")
        case True
        with k assms(7) show ?thesis by simp
      next
        case False
        with k have "F k = Some zs" by simp
        with False k(2) d(3) [OF this assms(2) False] d(4) assms(7) show ?thesis by blast
      qed
    qed
  qed
  moreover have "dll h k zs" if "(F(l \<mapsto> ys)) k = Some zs" for k zs
    using that others [of k zs] assms(3) by (cases "k = l") auto
  moreover have "footprint k zs \<inter> footprint k' zs' = {}"
    if "(F(l \<mapsto> ys)) k = Some zs" "(F(l \<mapsto> ys)) k' = Some zs'" "k \<noteq> k'" for k zs k' zs'
    using that others [of k zs] others [of k' zs'] d(3) [of k zs k' zs']
    by (cases "k = l"; cases "k' = l") (auto simp: Int_commute)
  ultimately show ?thesis
    using assms(8) unfolding heap_lists_def by simp
qed

lemma heap_lists_append:
  assumes "heap_lists m F" and "F l = Some xs" and "malloc_ok m (brk m)"
  shows "\<exists>h. fly_list_append m l e = Some (0, m\<lparr>brk := Suc (brk m), nodes := h\<rparr>) \<and>
    heap_lists (m\<lparr>brk := Suc (brk m), nodes := h\<rparr>) (F(l \<mapsto> xs @ [(brk m, e)]))"
proof -
  note d = heap_listsD [OF assms(1)]
  obtain h where h: "fly_list_append m l e = Some (0, m\<lparr>brk := Suc (brk m), nodes := h\<rparr>)"
    "dll h l (xs @ [(brk m, e)])" "eq_off (insert (brk m) (footprint l xs)) (nodes m) h"
    "dom h = insert (brk m) (dom (nodes m))"
    using append_dll [OF d(1) d(2) [OF assms(2)] assms(3), of e] by blast
  have fresh: "brk m \<notin> dom (nodes m)" using node_mem_ok_dom [OF d(1)] by blast
  have f: "footprint l (xs @ [(brk m, e)]) = insert (brk m) (footprint l xs)"
    by (auto simp: footprint_def)
  have "footprint l xs \<subseteq> dom (nodes m)" using dll_dom [OF d(2) [OF assms(2)]] .
  with h(4) have dom: "dom h = (dom (nodes m) - footprint l xs) \<union> footprint l (xs @ [(brk m, e)])"
    unfolding f by blast
  have "node_mem_ok (m\<lparr>brk := Suc (brk m), nodes := h\<rparr>)"
    using d(1) h(4) by (auto simp: node_mem_ok_def)
  with heap_lists_update [OF assms(1,2) h(2), of "{brk m}"] h(1,3) dom fresh f
  show ?thesis by auto
qed

lemma heap_lists_unlink:
  assumes "heap_lists m F" and "F l = Some (xs @ (n, e) # ys)" and "dll h l (xs @ ys)"
    and "eq_off (footprint l (xs @ (n, e) # ys)) (nodes m) h" and "dom h = dom (nodes m) - {n}"
  shows "heap_lists (m\<lparr>nodes := h\<rparr>) (F(l \<mapsto> xs @ ys))"
proof -
  note d = heap_listsD [OF assms(1)]
  have f: "footprint l (xs @ (n, e) # ys) = insert n (footprint l (xs @ ys))"
    by (auto simp: footprint_def)
  have "n \<notin> footprint l (xs @ ys)"
    using d(2) [OF assms(2)] by (auto simp: dll_def footprint_def)
  moreover have "footprint l (xs @ (n, e) # ys) \<subseteq> dom (nodes m)"
    using dll_dom [OF d(2) [OF assms(2)]] .
  ultimately have dom: "dom h = (dom (nodes m) - footprint l (xs @ (n, e) # ys)) \<union> footprint l (xs @ ys)"
    unfolding assms(5) f by blast
  have ok: "node_mem_ok (m\<lparr>brk := brk m, nodes := h\<rparr>)"
    using d(1) assms(5) by (auto simp: node_mem_ok_def)
  have "heap_lists (m\<lparr>brk := brk m, nodes := h\<rparr>) (F(l \<mapsto> xs @ ys))"
    by (rule heap_lists_update [OF assms(1,2,3), of "{}"]) (use assms(4) dom ok f in auto)
  then show ?thesis by simp
qed

lemma heap_lists_brk: "heap_lists m F \<Longrightarrow> heap_lists (m\<lparr>brk := Suc (brk m)\<rparr>) F"
proof -
  assume h: "heap_lists m F"
  from heap_listsD(1) [OF h] have "node_mem_ok (m\<lparr>brk := Suc (brk m)\<rparr>)"
    by (auto simp: node_mem_ok_def)
  with h show ?thesis by (simp add: heap_lists_def)
qed

text \<open>A new header, and the removal of a header whose list is empty.\<close>

lemma heap_lists_init:
  assumes "heap_lists m F" and "nodes m l = None" and "l \<noteq> NULL" and "l < brk m"
  shows "heap_lists (fly_list_init m l) (F(l \<mapsto> []))"
proof -
  note d = heap_listsD [OF assms(1)]
  let ?m = "fly_list_init m l"
  have fresh: "l \<notin> footprint k zs" if "F k = Some zs" for k zs
    using d(4) assms(2) that by blast
  have "dll (nodes ?m) k zs" if "(F(l \<mapsto> [])) k = Some zs" for k zs
  proof (cases "k = l")
    case True
    with that dll_init [OF assms(3)] show ?thesis by simp
  next
    case False
    with that have k: "F k = Some zs" by simp
    have "nodes ?m a = nodes m a" if "a \<in> footprint k zs" for a
      using that fresh [OF k] by (auto simp: fly_list_init_def put_node_def)
    with d(2) [OF k] show ?thesis by (rule dll_local)
  qed
  moreover have "dom (nodes ?m) = {p. \<exists>k zs. (F(l \<mapsto> [])) k = Some zs \<and> p \<in> footprint k zs}"
  proof -
    have "dom (nodes ?m) = insert l (dom (nodes m))" by (simp add: fly_list_init_def put_node_def)
    moreover have "F l = None"
      using fresh [of l] by (cases "F l") (auto simp: footprint_def)
    moreover have "p \<in> insert l (dom (nodes m)) \<longleftrightarrow> (\<exists>k zs. (F(l \<mapsto> [])) k = Some zs \<and> p \<in> footprint k zs)"
      (is "_ \<longleftrightarrow> ?R") for p
    proof
      assume "p \<in> insert l (dom (nodes m))"
      then consider "p = l" | k zs where "F k = Some zs" "p \<in> footprint k zs" using d(4) by blast
      then show ?R
      proof cases
        case 1
        then show ?thesis by (intro exI [of _ l] exI [of _ "[]"]) (simp add: footprint_def)
      next
        case 2
        with \<open>F l = None\<close> show ?thesis by (intro exI [of _ k] exI [of _ zs]) auto
      qed
    next
      assume ?R
      then obtain k zs where k: "(F(l \<mapsto> [])) k = Some zs" "p \<in> footprint k zs" by blast
      then show "p \<in> insert l (dom (nodes m))"
        using d(4) by (cases "k = l") (auto simp: footprint_def)
    qed
    ultimately show ?thesis by blast
  qed
  moreover have "footprint k zs \<inter> footprint k' zs' = {}"
    if "(F(l \<mapsto> [])) k = Some zs" "(F(l \<mapsto> [])) k' = Some zs'" "k \<noteq> k'" for k zs k' zs'
  proof -
    have "footprint l [] = {l}" by (simp add: footprint_def)
    with that fresh [of k zs] fresh [of k' zs'] d(3) [of k zs k' zs'] show ?thesis
      by (cases "k = l"; cases "k' = l") auto
  qed
  moreover have "node_mem_ok ?m"
    using d(1) assms(3,4) by (auto simp: node_mem_ok_def fly_list_init_def put_node_def)
  ultimately show ?thesis unfolding heap_lists_def by blast
qed

lemma heap_lists_free:
  assumes "heap_lists m F" and "F l = Some []"
  shows "heap_lists (m\<lparr>nodes := (nodes m)(l := None)\<rparr>) (F(l := None))"
proof -
  note d = heap_listsD [OF assms(1)]
  have l: "footprint l [] = {l}" by (simp add: footprint_def)
  have out: "l \<notin> footprint k zs" if "F k = Some zs" "k \<noteq> l" for k zs
    using d(3) [OF that(1) assms(2) that(2)] l by blast
  have "dll ((nodes m)(l := None)) k zs" if "(F(l := None)) k = Some zs" for k zs
    using that out [of k zs] d(2) [of k zs] by (auto intro: dll_free split: if_splits)
  moreover have "dom ((nodes m)(l := None)) = {p. \<exists>k zs. (F(l := None)) k = Some zs \<and> p \<in> footprint k zs}"
    (is "_ = ?D")
  proof (rule set_eqI)
    fix p
    show "p \<in> dom ((nodes m)(l := None)) \<longleftrightarrow> p \<in> ?D"
    proof (cases "p = l")
      case True
      with out show ?thesis by (auto split: if_splits)
    next
      case False
      then have "p \<in> dom ((nodes m)(l := None)) \<longleftrightarrow> p \<in> dom (nodes m)" by auto
      also have "\<dots> \<longleftrightarrow> p \<in> ?D"
      proof
        assume "p \<in> dom (nodes m)"
        then obtain k zs where k: "F k = Some zs" "p \<in> footprint k zs" using d(4) by blast
        have "k \<noteq> l" using k False assms(2) l by (cases "k = l") auto
        with k show "p \<in> ?D" by (intro CollectI exI [of _ k] exI [of _ zs]) simp
      next
        assume "p \<in> ?D"
        then obtain k zs where "F k = Some zs" "p \<in> footprint k zs" by (auto split: if_splits)
        then show "p \<in> dom (nodes m)" using d(4) by blast
      qed
      finally show ?thesis .
    qed
  qed
  moreover have "node_mem_ok (m\<lparr>nodes := (nodes m)(l := None)\<rparr>)"
    using d(1) by (auto simp: node_mem_ok_def)
  ultimately show ?thesis
    using d(3) unfolding heap_lists_def by (auto split: if_splits)
qed

section \<open>Elements\<close>

definition lists_rep :: "'a node_mem_scheme \<Rightarrow> (ptr \<rightharpoonup> ptr list) \<Rightarrow> bool" where
  "lists_rep m E \<longleftrightarrow> (\<exists>F. heap_lists m F \<and> E = (\<lambda>l. map_option (map snd) (F l)))"

lemma lists_repI: "heap_lists m F \<Longrightarrow> (\<And>l. E l = map_option (map snd) (F l)) \<Longrightarrow> lists_rep m E"
  unfolding lists_rep_def by blast

lemma lists_repE:
  assumes "lists_rep m E" and "E l = Some es"
  obtains F xs where "heap_lists m F" "E = (\<lambda>l. map_option (map snd) (F l))" "F l = Some xs"
    "map snd xs = es" "dll (nodes m) l xs"
proof -
  from assms obtain F xs where "heap_lists m F" "E = (\<lambda>l. map_option (map snd) (F l))" "F l = Some xs"
    "map snd xs = es" unfolding lists_rep_def by auto
  with heap_listsD(2) [of m F l xs] that show ?thesis by blast
qed

lemma heap_lists_cong:
  "heap_lists m F \<Longrightarrow> brk m' = brk m \<Longrightarrow> nodes m' = nodes m \<Longrightarrow> heap_lists m' F"
  unfolding heap_lists_def node_mem_ok_def by metis

lemma lists_rep_cong:
  "lists_rep m E \<Longrightarrow> brk m' = brk m \<Longrightarrow> nodes m' = nodes m \<Longrightarrow> lists_rep m' E"
  unfolding lists_rep_def using heap_lists_cong by blast

lemma lists_rep_ok: "lists_rep m E \<Longrightarrow> node_mem_ok m"
  unfolding lists_rep_def using heap_listsD(1) by blast

lemma lists_rep_dom: "lists_rep m E \<Longrightarrow> E l = Some es \<Longrightarrow> l \<noteq> NULL \<and> l < brk m \<and> nodes m l \<noteq> None"
  by (erule (1) lists_repE) (auto simp: dll_def dest: heap_listsD(1) node_mem_ok_dom)

lemma lists_append:
  assumes "lists_rep m E" and "E l = Some es"
  shows "\<exists>h. fly_list_append m l e =
      Some (if malloc_ok m (brk m) then 0 else 1, m\<lparr>brk := Suc (brk m), nodes := h\<rparr>) \<and>
    lists_rep (m\<lparr>brk := Suc (brk m), nodes := h\<rparr>) (if malloc_ok m (brk m) then E(l \<mapsto> es @ [e]) else E)"
proof -
  obtain F xs where F: "heap_lists m F" "E = (\<lambda>l. map_option (map snd) (F l))" "F l = Some xs"
    "map snd xs = es" using assms by (rule lists_repE)
  show ?thesis
  proof (cases "malloc_ok m (brk m)")
    case True
    from heap_lists_append [OF F(1,3) True, of e] obtain h where
      "fly_list_append m l e = Some (0, m\<lparr>brk := Suc (brk m), nodes := h\<rparr>)"
      "heap_lists (m\<lparr>brk := Suc (brk m), nodes := h\<rparr>) (F(l \<mapsto> xs @ [(brk m, e)]))" by blast
    with True F show ?thesis by (auto intro!: lists_repI)
  next
    case False
    have "lists_rep (m\<lparr>brk := Suc (brk m)\<rparr>) E"
      using heap_lists_brk [OF F(1)] F(2) by (auto intro!: lists_repI)
    with False show ?thesis by (intro exI [of _ "nodes m"]) (simp add: append_no_memory)
  qed
qed

lemma lists_append_upd:
  assumes "lists_rep m E" and "E l = Some es"
  shows "\<exists>h. fly_list_append m l e =
      Some (if malloc_ok m (brk m) then 0 else 1, m\<lparr>brk := Suc (brk m), nodes := h\<rparr>) \<and>
    lists_rep (m\<lparr>brk := Suc (brk m), nodes := h\<rparr>) (E(l \<mapsto> if malloc_ok m (brk m) then es @ [e] else es))"
proof -
  have "E(l \<mapsto> es) = E" using assms(2) by auto
  with lists_append [OF assms, of e] show ?thesis by (cases "malloc_ok m (brk m)") simp_all
qed

lemma lists_remove:
  assumes "lists_rep m E" and "E l = Some es"
  shows "\<exists>h. fly_list_remove m l e = Some (m\<lparr>nodes := h\<rparr>) \<and>
    lists_rep (m\<lparr>nodes := h\<rparr>) (E(l \<mapsto> remove1 e es))"
proof -
  obtain F xs where F: "heap_lists m F" "E = (\<lambda>l. map_option (map snd) (F l))" "F l = Some xs"
    "map snd xs = es" "dll (nodes m) l xs" using assms by (rule lists_repE)
  show ?thesis
  proof (cases "e \<in> snd ` set xs")
    case True
    from first_occurrence [OF True]
    obtain as n bs where s: "xs = as @ (n, e) # bs" "e \<notin> snd ` set as" by blast
    obtain h where h: "fly_list_remove m l e = Some (m\<lparr>nodes := h\<rparr>)" "dll h l (as @ bs)"
      "eq_off (footprint l (as @ (n, e) # bs)) (nodes m) h" "dom h = dom (nodes m) - {n}"
      using remove_dll_present [OF F(5) [unfolded s(1)] s(2)] by blast
    have "map snd (as @ bs) = remove1 e es"
      using map_snd_remove_el [of e xs] by (simp only: F(4) [symmetric] s(1) remove_el_split [OF s(2)])
    with heap_lists_unlink [OF F(1) F(3) [unfolded s(1)] h(2-4)] h(1) F(2) show ?thesis
      by (auto intro!: lists_repI)
  next
    case False
    then have "remove1 e es = es" using F(4) by (auto simp: remove1_idem)
    moreover have "E(l \<mapsto> es) = E" using assms(2) by auto
    ultimately show ?thesis
      using assms remove_dll_absent [OF F(5) False] by (intro exI [of _ "nodes m"]) simp
  qed
qed

lemma lists_pop:
  assumes "lists_rep m E" and "E l = Some (es @ [e])"
  shows "\<exists>h. fly_list_tail_remove m l = Some (e, m\<lparr>nodes := h\<rparr>) \<and>
    lists_rep (m\<lparr>nodes := h\<rparr>) (E(l \<mapsto> es))"
proof -
  obtain F xs where F: "heap_lists m F" "E = (\<lambda>l. map_option (map snd) (F l))" "F l = Some xs"
    "map snd xs = es @ [e]" "dll (nodes m) l xs" using assms by (rule lists_repE)
  then obtain as n where s: "xs = as @ (n, e) # []" "map snd as = es"
    by (cases xs rule: rev_cases) auto
  obtain h where h: "fly_list_tail_remove m l = Some (e, m\<lparr>nodes := h\<rparr>)" "dll h l as"
    "eq_off (footprint l (as @ [(n, e)])) (nodes m) h" "dom h = dom (nodes m) - {n}"
    using tail_remove_dll [OF F(5) [unfolded s(1)]] by blast
  have "heap_lists (m\<lparr>nodes := h\<rparr>) (F(l \<mapsto> as @ []))"
    using heap_lists_unlink [OF F(1) F(3) [unfolded s(1)]] h(2-4) by simp
  with h(1) F(2) s(2) show ?thesis by (auto intro!: lists_repI)
qed

lemma lists_pop_empty:
  assumes "lists_rep m E" and "E l = Some []"
  shows "fly_list_tail_remove m l = Some (NULL, m)"
  using assms by (rule lists_repE) (simp add: tail_remove_empty)

lemma lists_is_empty:
  assumes "lists_rep m E" and "E l = Some es"
  shows "fly_list_is_empty m l = Some (es = [])"
  using assms by (rule lists_repE) (auto simp: is_empty_dll)

lemma lists_tail:
  assumes "lists_rep m E" and "E l = Some (es @ [e])"
  shows "\<exists>n. fly_list_tail m l = Some n \<and> get_el m n = Some e"
proof -
  obtain F xs where F: "map snd xs = es @ [e]" "dll (nodes m) l xs"
    using assms by (rule lists_repE)
  then obtain ys n where "xs = ys @ [(n, e)]"
    by (cases xs rule: rev_cases) auto
  with F(2) dll_tail [OF F(2)] dll_get_el [OF F(2), of n e] show ?thesis
    by (simp add: fly_list_tail_def)
qed

text \<open>
  So each list of the heap meets the contract of a list of elements, next to all the others: the
  contract's representation is the whole heap \<open>E\<close> with \<open>es\<close> at the header \<open>l\<close>, every
  other field of the state being that of \<open>m0\<close>.
\<close>

definition heap_with ::
  "ptr \<Rightarrow> 'a node_mem_scheme \<Rightarrow> (ptr \<rightharpoonup> ptr list) \<Rightarrow> 'a node_mem_scheme \<Rightarrow> ptr list \<Rightarrow> bool" where
  "heap_with l m0 E m es \<longleftrightarrow> lists_rep m (E(l \<mapsto> es)) \<and> (\<exists>b h. m = m0\<lparr>brk := b, nodes := h\<rparr>)"

lemma heap_withE:
  assumes "heap_with l m0 E m es"
  obtains b h where "m = m0\<lparr>brk := b, nodes := h\<rparr>" "lists_rep m (E(l \<mapsto> es))"
  using assms unfolding heap_with_def by blast

lemma heap_withI: "lists_rep (m0\<lparr>brk := b, nodes := h\<rparr>) (E(l \<mapsto> es)) \<Longrightarrow>
    heap_with l m0 E (m0\<lparr>brk := b, nodes := h\<rparr>) es"
  unfolding heap_with_def by blast

interpretation heap_list: element_list "heap_with l m0 E" list_room
    "\<lambda>m e. fly_list_append m l e" "\<lambda>m e. fly_list_remove m l e"
    "\<lambda>m. fly_list_tail_remove m l" "\<lambda>m. fly_list_is_empty m l"
  for l :: ptr and m0 :: "'a node_mem_scheme" and E :: "ptr \<rightharpoonup> ptr list"
proof unfold_locales
  fix m :: "'a node_mem_scheme" and es :: "ptr list" and e :: ptr
  assume rep: "heap_with l m0 E m es"
  then obtain b h where m: "m = m0\<lparr>brk := b, nodes := h\<rparr>" and r: "lists_rep m (E(l \<mapsto> es))"
    by (rule heap_withE)
  note ops = lists_append [OF r, of l es e] lists_remove [OF r, of l es e]
  show "\<exists>m'. fly_list_append m l e = Some (fly_err FLYESUCCESS, m') \<and> heap_with l m0 E m' (es @ [e])"
    if "list_room m"
    using ops(1) that by (auto simp: m list_room_def intro: heap_withI)
  show "\<exists>m'. fly_list_append m l e = Some (fly_err FLYENORES, m') \<and> heap_with l m0 E m' es"
    if "\<not> list_room m"
    using ops(1) that by (auto simp: m list_room_def intro: heap_withI)
  show "\<exists>m'. fly_list_remove m l e = Some m' \<and> heap_with l m0 E m' (remove1 e es)"
    using ops(2) by (auto simp: m intro: heap_withI)
  show "fly_list_is_empty m l = Some (es = [])"
    using lists_is_empty [OF r] by simp
next
  fix m :: "'a node_mem_scheme" and es :: "ptr list" and e :: ptr
  assume rep: "heap_with l m0 E m (es @ [e])"
  then obtain b h where m: "m = m0\<lparr>brk := b, nodes := h\<rparr>" and r: "lists_rep m (E(l \<mapsto> es @ [e]))"
    by (rule heap_withE)
  show "\<exists>m'. fly_list_tail_remove m l = Some (e, m') \<and> heap_with l m0 E m' es"
    using lists_pop [OF r, of l es e] by (auto simp: m intro: heap_withI)
next
  fix m :: "'a node_mem_scheme"
  assume "heap_with l m0 E m []"
  then show "fly_list_tail_remove m l = Some (NULL, m)"
    by (rule heap_withE) (simp add: lists_pop_empty)
qed

section \<open>From one list to the heap and back\<close>

text \<open>An operation verified on one list alone keeps the others.\<close>

lemma lists_rep_one:
  assumes "lists_rep m0 E" and "E l = Some []" and "list_rep l m0 m es"
  shows "lists_rep m (E(l \<mapsto> es))"
proof -
  obtain F where F: "heap_lists m0 F" "E = (\<lambda>l. map_option (map snd) (F l))" "F l = Some []"
    using assms(1,2) by (rule lists_repE) auto
  obtain xs b h where r: "node_mem_ok m" "m = m0\<lparr>brk := b, nodes := h\<rparr>"
    "map snd xs = es" "dll (nodes m) l xs" "fst ` set xs \<inter> dom (nodes m0) = {}"
    "dom (nodes m) = dom (nodes m0) \<union> fst ` set xs" "eq_off (footprint l xs) (nodes m0) (nodes m)"
    using assms(3) by (rule list_repE)
  have l: "footprint l [] = {l}" "footprint l xs = insert l (fst ` set xs)" "l \<in> dom (nodes m0)"
    using heap_listsD(2) [OF F(1,3)] by (auto simp: footprint_def dll_def)
  have "heap_lists (m0\<lparr>brk := b, nodes := h\<rparr>) (F(l \<mapsto> xs))"
    by (rule heap_lists_update [OF F(1,3), of h xs "fst ` set xs"]) (use r l in auto)
  with r F(2) show ?thesis by (auto intro!: lists_repI)
qed

text \<open>Any list of the heap can be looked at alone, over the heap without its nodes.\<close>

lemma lists_rep_alone:
  assumes "lists_rep m E" and "E l = Some es"
  shows "\<exists>h. list_rep l (m\<lparr>nodes := h\<rparr>) m es \<and> dll h l [] \<and> lists_rep (m\<lparr>nodes := h\<rparr>) (E(l \<mapsto> []))"
proof -
  obtain F xs where F: "heap_lists m F" "E = (\<lambda>l. map_option (map snd) (F l))" "F l = Some xs"
    "map snd xs = es" "dll (nodes m) l xs" using assms by (rule lists_repE)
  let ?h = "(nodes m |` (- fst ` set xs))(l \<mapsto> \<lparr>l_next = NULL, l_prev = NULL, l_el = NULL\<rparr>)"
  have sub: "fst ` set xs \<subseteq> dom (nodes m)" "l \<notin> fst ` set xs" "l \<noteq> NULL" "l \<in> dom (nodes m)"
    using dll_dom [OF F(5)] F(5) by (auto simp: footprint_def dll_def)
  have h: "dll ?h l []" using sub by (simp add: dll_def)
  have ok: "node_mem_ok m" using F(1) heap_listsD(1) by blast
  have dom: "dom ?h = dom (nodes m) - fst ` set xs" using sub by auto
  have "m = m\<lparr>nodes := ?h, brk := brk m, nodes := nodes m\<rparr>" by simp
  then have ex: "\<exists>b h. m = m\<lparr>nodes := ?h, brk := b, nodes := h\<rparr>" by blast
  have "list_rep l (m\<lparr>nodes := ?h\<rparr>) m es"
    unfolding list_rep_def
  proof (intro conjI exI [of _ xs])
    show "dom (nodes m) = dom (nodes (m\<lparr>nodes := ?h\<rparr>)) \<union> fst ` set xs"
      using dom sub(1) by auto
    show "fst ` set xs \<inter> dom (nodes (m\<lparr>nodes := ?h\<rparr>)) = {}"
      using dom by auto
    show "eq_off (footprint l xs) (nodes (m\<lparr>nodes := ?h\<rparr>)) (nodes m)"
      by (auto simp: eq_off_def footprint_def restrict_map_def)
  qed (use ok ex F(4,5) in simp_all)
  moreover have "heap_lists (m\<lparr>brk := brk m, nodes := ?h\<rparr>) (F(l \<mapsto> []))"
  proof (rule heap_lists_update [OF F(1,3) h, of "{}"])
    show "eq_off (footprint l xs \<union> {}) (nodes m) ?h"
      by (auto simp: eq_off_def footprint_def restrict_map_def)
    show "dom ?h = (dom (nodes m) - footprint l xs) \<union> footprint l []"
      using dom sub by (auto simp: footprint_def)
    show "node_mem_ok (m\<lparr>brk := brk m, nodes := ?h\<rparr>)"
      using ok dom by (auto simp: node_mem_ok_def)
  qed (auto simp: footprint_def)
  ultimately show ?thesis
    using h F(2) by (intro exI [of _ ?h]) (auto intro!: lists_repI)
qed

end
