(* ===== verification/Fly_Thread.thy ===== *)
theory Fly_Thread
  imports Fly_Prelude "HOL-Library.Word" "HOL-Library.Char_ord"
begin

text \<open>
  \<^verbatim>\<open>src/fly_thread.h\<close>, \<^verbatim>\<open>src/fly_thread.c\<close>, \<^verbatim>\<open>src/fly_sem.h\<close> and
  \<^verbatim>\<open>src/fly_atomic.h\<close>: the thread object and its state bits, its life cycle over the
  operating system's calls, the recognition of a blocked thread from the text of
  \<^verbatim>\<open>/proc/self/task/<tid>/status\<close>, and the semaphore wrappers that track whether a
  thread sleeps inside the library.

  The operating system is an oracle: every call that can fail (\<^verbatim>\<open>malloc\<close>,
  \<^verbatim>\<open>pthread_attr_init\<close>, \<^verbatim>\<open>pthread_create\<close>, \<^verbatim>\<open>sem_init\<close>) takes the
  next answer of \<open>os_answer\<close>.  The state records what is allocated and which threads run.
\<close>

unbundle bit_operations_syntax

section \<open>State bits\<close>

type_synonym thread_state = "32 word"

definition FLY_THREAD_IDLE :: thread_state where "FLY_THREAD_IDLE = 0x01"
definition FLY_THREAD_RUNNING :: thread_state where "FLY_THREAD_RUNNING = 0x02"
definition FLY_THREAD_SLEEP :: thread_state where "FLY_THREAD_SLEEP = 0x04"
definition FLY_THREAD_CLIENT_RUNNING :: thread_state where "FLY_THREAD_CLIENT_RUNNING = 0x08"
definition FLY_THREAD_CLIENT_ISLEEP :: thread_state where "FLY_THREAD_CLIENT_ISLEEP = 0x10"
definition FLY_THREAD_CLIENT_USLEEP :: thread_state where "FLY_THREAD_CLIENT_USLEEP = 0x20"
definition FLY_THREAD_TRAPPED :: thread_state where "FLY_THREAD_TRAPPED = 0x40"

definition FLY_THREAD_CLEAR_OS_BITS_MASK :: thread_state where
  "FLY_THREAD_CLEAR_OS_BITS_MASK = 7"

lemmas state_bits = FLY_THREAD_IDLE_def FLY_THREAD_RUNNING_def FLY_THREAD_SLEEP_def
  FLY_THREAD_CLIENT_RUNNING_def FLY_THREAD_CLIENT_ISLEEP_def FLY_THREAD_CLIENT_USLEEP_def
  FLY_THREAD_TRAPPED_def FLY_THREAD_CLEAR_OS_BITS_MASK_def

section \<open>Atomic operations\<close>

text \<open>
  The \<^verbatim>\<open>__sync\<close> builtins on a memory word with value \<open>x\<close>: the result and the new
  value.
\<close>

definition fly_atomic_inc :: "int \<Rightarrow> int \<Rightarrow> int \<times> int" where
  "fly_atomic_inc x val = (c_wrap (x + val), c_wrap (x + val))"

definition fly_atomic_dec :: "int \<Rightarrow> int \<Rightarrow> int \<times> int" where
  "fly_atomic_dec x val = (c_wrap (x - val), c_wrap (x - val))"

definition fly_atomic_cas :: "int \<Rightarrow> int \<Rightarrow> int \<Rightarrow> bool \<times> int" where
  "fly_atomic_cas x desired val = (if x = desired then (True, val) else (False, x))"

definition fly_atomic_and :: "int \<Rightarrow> int \<Rightarrow> int \<times> int" where
  "fly_atomic_and x val = (x AND val, x AND val)"

section \<open>The thread object\<close>

definition FLY_INVALID_FD :: int where
  "FLY_INVALID_FD = - 1"

definition FLY_THREAD_DEFAULT_READ_LEN :: nat where
  "FLY_THREAD_DEFAULT_READ_LEN = 512"

text \<open>
  \<open>t_pthread\<close> is \<open>None\<close> until \<^verbatim>\<open>pthread_create\<close> has filled it in.  Function pointers and
  parameters are addresses.
\<close>

record fly_thread =
  t_pthread :: "nat option"
  t_attr :: ptr
  t_func :: ptr
  t_param :: ptr
  t_state :: thread_state
  t_tid :: int
  t_fd :: int

record os =
  os_calls :: nat
  os_answer :: "nat \<Rightarrow> bool"
  os_errno :: int
  os_blocks :: "nat set"
  os_threads :: "nat set"

text \<open>One call that may fail: its number, the answer, and the state after it.\<close>

definition os_ask :: "os \<Rightarrow> nat \<times> bool \<times> os" where
  "os_ask s = (os_calls s, os_answer s (os_calls s), s\<lparr>os_calls := Suc (os_calls s)\<rparr>)"

definition os_malloc :: "os \<Rightarrow> ptr \<times> os" where
  "os_malloc s = (case os_ask s of (n, ok, s) \<Rightarrow>
     if ok then (Suc n, s\<lparr>os_blocks := insert (Suc n) (os_blocks s)\<rparr>) else (NULL, s))"

definition os_free :: "os \<Rightarrow> ptr \<Rightarrow> os option" where
  "os_free s p =
     (if p = NULL then Some s
      else if p \<in> os_blocks s then Some (s\<lparr>os_blocks := os_blocks s - {p}\<rparr>) else None)"

definition fly_thread_init ::
  "os \<Rightarrow> fly_thread \<Rightarrow> ptr \<Rightarrow> ptr \<Rightarrow> (int \<times> fly_thread \<times> os) option" where
  "fly_thread_init s th func param =
     (case os_malloc s of (attr, s) \<Rightarrow>
      let th = th\<lparr>t_attr := attr\<rparr> in
      if attr \<noteq> NULL then
        (case os_ask s of (_, ok, s) \<Rightarrow>
          if ok then
            Some (fly_err FLYESUCCESS,
              th\<lparr>t_func := func, t_param := param, t_state := FLY_THREAD_IDLE,
                 t_fd := FLY_INVALID_FD\<rparr>, s)
          else do { s \<leftarrow> os_free s attr; Some (fly_err FLYEATTR, th, s) })
      else Some (fly_err FLYENORES, th, s))"

text \<open>Destroying the attributes reads the block \<open>t_attr\<close> points to.\<close>

definition fly_thread_uninit :: "os \<Rightarrow> fly_thread \<Rightarrow> (int \<times> os) option" where
  "fly_thread_uninit s th =
     (if t_attr th \<in> os_blocks s
      then do { s \<leftarrow> os_free s (t_attr th); Some (fly_err FLYESUCCESS, s) } else None)"

text \<open>
  \<^verbatim>\<open>pthread_create\<close> returns 0 or an error number; the new thread is known by the number of
  the call that created it.
\<close>

definition fly_thread_start :: "os \<Rightarrow> fly_thread \<Rightarrow> (int \<times> fly_thread \<times> os) option" where
  "fly_thread_start s th =
     (if t_attr th \<in> os_blocks s
      then (case os_ask s of (n, ok, s) \<Rightarrow>
        if ok then Some (0, th\<lparr>t_pthread := Some n\<rparr>, s\<lparr>os_threads := insert n (os_threads s)\<rparr>)
        else Some (os_errno s, th, s))
      else None)"

text \<open>Joining a thread that was never created, or a second time, is undefined.\<close>

definition fly_thread_wait :: "os \<Rightarrow> fly_thread \<Rightarrow> (int \<times> os) option" where
  "fly_thread_wait s th =
     (case t_pthread th of None \<Rightarrow> None
      | Some n \<Rightarrow> if n \<in> os_threads s
                  then Some (fly_err FLYESUCCESS, s\<lparr>os_threads := os_threads s - {n}\<rparr>) else None)"

text \<open>What a new thread does before it calls its function (\<open>tid\<close> and \<open>fd\<close> from the kernel).\<close>

definition fly_thread_wrap_func :: "fly_thread \<Rightarrow> int \<Rightarrow> int \<Rightarrow> fly_thread \<times> ptr \<times> ptr" where
  "fly_thread_wrap_func th tid fd =
     (let th = th\<lparr>t_tid := tid, t_state := FLY_THREAD_RUNNING, t_fd := fd\<rparr>
      in (th, t_func th, t_param th))"

definition fly_thread_is_me :: "nat \<Rightarrow> fly_thread \<Rightarrow> bool" where
  "fly_thread_is_me self th \<longleftrightarrow> t_pthread th = Some self"

text \<open>\<^verbatim>\<open>fly_thread_sleep\<close>: the \<open>timespec\<close> handed to \<^verbatim>\<open>nanosleep\<close>.\<close>

definition fly_thread_sleep :: "32 word \<Rightarrow> 32 word \<times> 32 word" where
  "fly_thread_sleep nanosec = (nanosec div 1000000000, nanosec mod 1000000000)"

section \<open>The thread's state in procfs\<close>

text \<open>
  The status file as the kernel serves it: its text and the position of the descriptor, which
  every read advances and nothing in the library moves back.
\<close>

record status_file =
  sf_text :: string
  sf_pos :: nat

definition os_read :: "status_file \<Rightarrow> string \<times> status_file" where
  "os_read f =
     (let bytes = take FLY_THREAD_DEFAULT_READ_LEN (drop (sf_pos f) (sf_text f))
      in (bytes, f\<lparr>sf_pos := sf_pos f + length bytes\<rparr>))"

text \<open>
  \<open>buff_at d i\<close>: reading \<^verbatim>\<open>buff[i]\<close> when \<^verbatim>\<open>read\<close> stored the bytes \<open>d\<close>.
  Beyond them the array is uninitialised, and beyond 512 it ends.
\<close>

definition buff_at :: "string \<Rightarrow> nat \<Rightarrow> char option" where
  "buff_at d i = (if i < length d then Some (d ! i) else None)"

function scan_newline :: "string \<Rightarrow> nat \<Rightarrow> nat option" where
  "scan_newline d i =
     (if i < length d then (if d ! i = CHR 0x0A then Some i else scan_newline d (Suc i)) else None)"
  by pat_completeness auto
termination
  by (relation "measure (\<lambda>(d, i). length d - i)") auto

function skip_blank :: "string \<Rightarrow> nat \<Rightarrow> nat option" where
  "skip_blank d i =
     (if i < length d then
        (if d ! i = CHR 0x09 \<or> d ! i = CHR '' '' then skip_blank d (Suc i) else Some i)
      else None)"
  by pat_completeness auto
termination
  by (relation "measure (\<lambda>(d, i). length d - i)") auto

declare scan_newline.simps [simp del] skip_blank.simps [simp del]

definition state_char :: "char \<Rightarrow> thread_state \<Rightarrow> thread_state" where
  "state_char c ret =
     (if c = CHR ''D'' then ret OR FLY_THREAD_CLIENT_USLEEP
      else if c = CHR ''R'' then ret OR FLY_THREAD_RUNNING
      else if c = CHR ''S'' then ret OR FLY_THREAD_CLIENT_ISLEEP
      else if c = CHR ''T'' then ret OR FLY_THREAD_TRAPPED
      else ret)"

text \<open>\<open>None\<close> as the file is a descriptor that could not be opened: \<^verbatim>\<open>read\<close> returns -1.\<close>

definition get_thread_state ::
  "status_file option \<Rightarrow> thread_state \<Rightarrow> (thread_state \<times> status_file option) option" where
  "get_thread_state fd expected_state =
     (case fd of
        None \<Rightarrow> Some (expected_state, fd)
      | Some f \<Rightarrow>
          (case os_read f of (buff, f) \<Rightarrow> do {
             i \<leftarrow> scan_newline buff 5;
             i \<leftarrow> skip_blank buff (i + 7);
             c \<leftarrow> buff_at buff i;
             Some (state_char c expected_state, Some f)
           }))"

definition fly_thread_get_state :: "fly_thread \<Rightarrow> status_file option \<Rightarrow>
    (thread_state \<times> fly_thread \<times> status_file option) option" where
  "fly_thread_get_state th fd = do {
     let th = th\<lparr>t_state := t_state th AND FLY_THREAD_CLEAR_OS_BITS_MASK\<rparr>;
     (st, fd) \<leftarrow> get_thread_state fd (t_state th);
     Some (st, th\<lparr>t_state := st\<rparr>, fd)
   }"

definition fly_thread_is_client_block :: "fly_thread \<Rightarrow> status_file option \<Rightarrow>
    (int \<times> fly_thread \<times> status_file option) option" where
  "fly_thread_is_client_block th fd = do {
     (state, th, fd) \<leftarrow> fly_thread_get_state th fd;
     let r = (if state AND FLY_THREAD_CLIENT_ISLEEP \<noteq> 0 \<or> state AND FLY_THREAD_CLIENT_USLEEP \<noteq> 0
              then (if state AND FLY_THREAD_SLEEP = 0 then 1 else 0) else 0);
     Some (r, th, fd)
   }"

section \<open>Semaphores\<close>

text \<open>
  A semaphore is its value; \<^verbatim>\<open>sem_wait\<close> on 0 does not return until another thread
  posts, which is \<open>None\<close> here.  The waits of the library's own threads mark the thread as
  sleeping inside the library while they block.
\<close>

type_synonym fly_sem = nat

definition fly_sem_init :: "os \<Rightarrow> int \<times> fly_sem \<times> os" where
  "fly_sem_init s = (case os_ask s of (_, ok, s) \<Rightarrow> (if ok then 0 else - 1, 0, s))"

definition fly_sem_notrack_wait :: "fly_sem \<Rightarrow> (int \<times> fly_sem) option" where
  "fly_sem_notrack_wait sem = (if sem = 0 then None else Some (0, sem - 1))"

definition fly_sem_post :: "fly_sem \<Rightarrow> int \<times> fly_sem" where
  "fly_sem_post sem = (0, Suc sem)"

text \<open>The two halves of \<^verbatim>\<open>fly_sem_wait\<close>, before and after the call that may block.\<close>

definition fly_sem_wait_enter :: "fly_thread \<Rightarrow> fly_thread" where
  "fly_sem_wait_enter th = th\<lparr>t_state := FLY_THREAD_SLEEP\<rparr>"

definition fly_sem_wait :: "fly_sem \<Rightarrow> fly_thread \<Rightarrow> (int \<times> fly_sem \<times> fly_thread) option" where
  "fly_sem_wait sem th = do {
     let th = fly_sem_wait_enter th;
     (err, sem) \<leftarrow> fly_sem_notrack_wait sem;
     Some (err, sem, th\<lparr>t_state := FLY_THREAD_RUNNING\<rparr>)
   }"

section \<open>Facts\<close>

lemma scan_newline_skip:
  "CHR 0x0A \<notin> set xs \<Longrightarrow> scan_newline (pre @ xs @ post) (length pre) =
     scan_newline (pre @ xs @ post) (length pre + length xs)"
proof (induction xs arbitrary: pre)
  case (Cons x xs)
  have "scan_newline (pre @ (x # xs) @ post) (length pre) =
      scan_newline ((pre @ [x]) @ xs @ post) (length (pre @ [x]))"
    using Cons.prems by (subst scan_newline.simps) (auto simp: nth_append)
  also have "\<dots> = scan_newline ((pre @ [x]) @ xs @ post) (length (pre @ [x]) + length xs)"
    using Cons.prems by (intro Cons.IH) simp
  finally show ?case by simp
qed simp

lemma scan_newline_found:
  "scan_newline (pre @ CHR 0x0A # post) (length pre) = Some (length pre)"
  by (subst scan_newline.simps) (simp add: nth_append)

lemma skip_blank_stop:
  "c \<noteq> CHR 0x09 \<Longrightarrow> c \<noteq> CHR '' '' \<Longrightarrow> skip_blank (pre @ c # post) (length pre) = Some (length pre)"
  by (subst skip_blank.simps) (simp add: nth_append)

lemma skip_blank_tab:
  "skip_blank (pre @ CHR 0x09 # post) (length pre) =
     skip_blank (pre @ CHR 0x09 # post) (Suc (length pre))"
  by (subst skip_blank.simps) (simp add: nth_append)

text \<open>The beginning of the status file, as kernels before 4.7 print it.\<close>

definition status_text :: "string \<Rightarrow> char \<Rightarrow> string \<Rightarrow> string" where
  "status_text name c rest =
     ''Name:'' @ [CHR 0x09] @ name @ [CHR 0x0A] @ ''State:'' @ [CHR 0x09] @ c # rest"

lemma status_scan:
  assumes "CHR 0x0A \<notin> set name" and "c \<noteq> CHR 0x09" and "c \<noteq> CHR '' ''"
    and d: "d = ''Name:'' @ [CHR 0x09] @ name @ [CHR 0x0A] @ ''State:'' @ [CHR 0x09] @ c # r"
  shows "scan_newline d 5 = Some (6 + length name)"
    and "skip_blank d (13 + length name) = Some (14 + length name)"
    and "buff_at d (14 + length name) = Some c"
proof -
  let ?p = "''Name:''"
  let ?q = "''Name:'' @ [CHR 0x09] @ name"
  let ?s = "?q @ [CHR 0x0A] @ ''State:''"
  have "scan_newline d 5 = scan_newline d (6 + length name)"
    using scan_newline_skip [of "CHR 0x09 # name" ?p "CHR 0x0A # ''State:'' @ CHR 0x09 # c # r"]
      assms(1) by (simp add: d eval_nat_numeral)
  also have "\<dots> = Some (6 + length name)"
    using scan_newline_found [of ?q "''State:'' @ CHR 0x09 # c # r"] by (simp add: d eval_nat_numeral)
  finally show "scan_newline d 5 = Some (6 + length name)" .
  have "skip_blank d (13 + length name) = skip_blank d (14 + length name)"
    using skip_blank_tab [of ?s "c # r"] by (simp add: d eval_nat_numeral)
  also have "\<dots> = Some (14 + length name)"
    using skip_blank_stop [OF assms(2,3), of "?s @ [CHR 0x09]" r] by (simp add: d eval_nat_numeral)
  finally show "skip_blank d (13 + length name) = Some (14 + length name)" .
  show "buff_at d (14 + length name) = Some c"
    by (simp add: buff_at_def d nth_append eval_nat_numeral)
qed

lemma get_thread_state_first:
  assumes "CHR 0x0A \<notin> set name" and "length name \<le> 497" and "c \<noteq> CHR 0x09" and "c \<noteq> CHR '' ''"
  shows "\<exists>f. get_thread_state (Some \<lparr>sf_text = status_text name c rest, sf_pos = 0\<rparr>) st =
    Some (state_char c st, Some f) \<and> sf_text f = status_text name c rest"
proof -
  let ?r = "take (497 - length name) rest"
  let ?d = "''Name:'' @ [CHR 0x09] @ name @ [CHR 0x0A] @ ''State:'' @ [CHR 0x09] @ c # ?r"
  have "take 512 (status_text name c rest) = ?d"
    using assms(2) by (simp add: status_text_def take_Cons' eval_nat_numeral)
  with status_scan [OF assms(1,3,4) refl, of ?r] show ?thesis
    by (simp add: get_thread_state_def os_read_def FLY_THREAD_DEFAULT_READ_LEN_def add.commute)
qed

lemma get_thread_state_eof: "length (sf_text f) \<le> sf_pos f \<Longrightarrow> get_thread_state (Some f) st = None"
  by (simp add: get_thread_state_def os_read_def scan_newline.simps)

lemma get_thread_state_advances:
  assumes "get_thread_state (Some f) st = Some (st', fd)"
  shows "\<exists>f'. fd = Some f' \<and> sf_text f' = sf_text f \<and> sf_pos f < sf_pos f' \<and> sf_pos f < length (sf_text f)"
proof -
  have "sf_pos f < length (sf_text f)"
    using assms get_thread_state_eof [of f st] by (force simp: not_le [symmetric])
  with assms show ?thesis
    by (auto simp: get_thread_state_def os_read_def FLY_THREAD_DEFAULT_READ_LEN_def Let_def
        Option.bind_eq_Some_conv)
qed

text \<open>The library's own bits and the bits read from procfs.\<close>

lemma state_char_sleep: "state_char c st AND FLY_THREAD_SLEEP = st AND FLY_THREAD_SLEEP"
  by (simp add: state_char_def state_bits bit.conj_disj_distrib2)

lemma mask_client: "(st AND FLY_THREAD_CLEAR_OS_BITS_MASK) AND FLY_THREAD_CLIENT_ISLEEP = 0"
    "(st AND FLY_THREAD_CLEAR_OS_BITS_MASK) AND FLY_THREAD_CLIENT_USLEEP = 0"
    "(st AND FLY_THREAD_CLEAR_OS_BITS_MASK) AND FLY_THREAD_SLEEP = st AND FLY_THREAD_SLEEP"
  by (simp_all add: state_bits and.assoc)

lemma state_char_client:
  "st AND FLY_THREAD_CLIENT_ISLEEP = 0 \<Longrightarrow> st AND FLY_THREAD_CLIENT_USLEEP = 0 \<Longrightarrow>
   state_char c st AND FLY_THREAD_CLIENT_ISLEEP \<noteq> 0 \<or> state_char c st AND FLY_THREAD_CLIENT_USLEEP \<noteq> 0
     \<longleftrightarrow> c = CHR ''S'' \<or> c = CHR ''D''"
  by (auto simp: state_char_def state_bits bit.conj_disj_distrib2)

lemma is_client_block_eq:
  assumes "get_thread_state fd (t_state th AND FLY_THREAD_CLEAR_OS_BITS_MASK) =
      Some (state_char c (t_state th AND FLY_THREAD_CLEAR_OS_BITS_MASK), fd')"
  shows "\<exists>th'. fly_thread_is_client_block th fd =
      Some (of_bool ((c = CHR ''S'' \<or> c = CHR ''D'') \<and> t_state th AND FLY_THREAD_SLEEP = 0), th', fd')"
  using assms state_char_client [OF mask_client(1,2), of c "t_state th"]
  by (simp add: fly_thread_is_client_block_def fly_thread_get_state_def state_char_sleep mask_client)

section \<open>Properties\<close>

text \<open>
  On a status file whose second line is the \<^verbatim>\<open>State:\<close> line, the first read
  classifies the thread as the code intends: it counts as blocked exactly when the kernel reports
  \<open>S\<close> or \<open>D\<close> and the thread is not asleep inside the library itself.
\<close>

theorem client_block_iff:
  assumes "CHR 0x0A \<notin> set name" and "length name \<le> 497" and "c \<noteq> CHR 0x09" and "c \<noteq> CHR '' ''"
  shows "\<exists>th' f. fly_thread_is_client_block th
      (Some \<lparr>sf_text = status_text name c rest, sf_pos = 0\<rparr>) =
      Some (of_bool ((c = CHR ''S'' \<or> c = CHR ''D'') \<and> t_state th AND FLY_THREAD_SLEEP = 0), th', Some f)"
proof -
  obtain f where "get_thread_state (Some \<lparr>sf_text = status_text name c rest, sf_pos = 0\<rparr>)
      (t_state th AND FLY_THREAD_CLEAR_OS_BITS_MASK) =
      Some (state_char c (t_state th AND FLY_THREAD_CLEAR_OS_BITS_MASK), Some f)"
    using get_thread_state_first [OF assms, of rest "t_state th AND FLY_THREAD_CLEAR_OS_BITS_MASK"]
    by blast
  then show ?thesis by (blast dest: is_client_block_eq)
qed

definition idle_thread :: fly_thread where
  "idle_thread = \<lparr>t_pthread = None, t_attr = NULL, t_func = 0, t_param = 0,
     t_state = FLY_THREAD_RUNNING, t_tid = 0, t_fd = 3\<rparr>"

theorem client_block_iff_witness:
  "\<exists>th' f. fly_thread_is_client_block idle_thread
      (Some \<lparr>sf_text = status_text ''fly'' (CHR ''S'') [CHR 0x0A], sf_pos = 0\<rparr>) =
      Some (1, th', Some f)"
  using client_block_iff [of "''fly''" "CHR ''S''" idle_thread "[CHR 0x0A]"]
  by (simp add: idle_thread_def state_bits)

text \<open>Repeated classification of the same thread, as the scheduler's update thread does it.\<close>

fun poll :: "nat \<Rightarrow> fly_thread \<Rightarrow> status_file option \<Rightarrow> (int \<times> fly_thread \<times> status_file option) option" where
  "poll 0 th fd = fly_thread_is_client_block th fd"
| "poll (Suc n) th fd = do {
     (_, th, fd) \<leftarrow> fly_thread_is_client_block th fd;
     poll n th fd
   }"

lemma client_block_reads:
  "fly_thread_is_client_block th (Some f) = Some (r, th', fd) \<Longrightarrow>
    \<exists>f'. fd = Some f' \<and> sf_text f' = sf_text f \<and> sf_pos f < sf_pos f' \<and> sf_pos f < length (sf_text f)"
  by (auto simp: fly_thread_is_client_block_def fly_thread_get_state_def Option.bind_eq_Some_conv
      Let_def dest!: get_thread_state_advances)

lemma poll_stops: "length (sf_text f) - sf_pos f \<le> n \<Longrightarrow> poll n th (Some f) = None"
proof (induction n arbitrary: f th)
  case 0
  then show ?case
    by (cases "fly_thread_is_client_block th (Some f)") (auto dest: client_block_reads)
next
  case (Suc n)
  show ?case
  proof (cases "fly_thread_is_client_block th (Some f)")
    case (Some y)
    obtain r th' fd where y: "y = (r, th', fd)" by (cases y)
    with Some obtain f' where "fd = Some f'" "sf_text f' = sf_text f" "sf_pos f < sf_pos f'"
      "sf_pos f < length (sf_text f)" by (blast dest: client_block_reads)
    with Suc Some y show ?thesis by simp
  qed simp
qed

text \<open>
  C40. The descriptor of the status file is opened once and never repositioned, and the result
  of \<^verbatim>\<open>read\<close> is not checked for end of file: after at most as many calls as the file has
  bytes left, the classification scans an uninitialised buffer.  So the update thread cannot poll
  a thread forever: the behaviour of the program is undefined from then on.
\<close>

theorem poll_reaches_uninitialised_buffer:
  "poll (length (sf_text f) - sf_pos f) th (Some f) = None"
  by (rule poll_stops) simp

text \<open>
  The heap blocks and the call counter of the oracle stay consistent: block numbers come from
  calls already made, so the next allocation is fresh.
\<close>

definition os_ok :: "os \<Rightarrow> bool" where
  "os_ok s \<longleftrightarrow> os_blocks s \<subseteq> {0<..os_calls s} \<and> os_threads s \<subseteq> {..<os_calls s}"

lemma thread_init_cases:
  assumes "os_ok s"
  obtains (ok) th' s' where "fly_thread_init s th f p = Some (0, th', s')" "os_ok s'"
      "t_attr th' \<notin> os_blocks s" "os_blocks s' = insert (t_attr th') (os_blocks s)"
      "os_threads s' = os_threads s" "t_pthread th' = t_pthread th" "os_errno s' = os_errno s"
      "t_func th' = f" "t_param th' = p" "t_state th' = FLY_THREAD_IDLE" "t_fd th' = FLY_INVALID_FD"
      "os_answer s' = os_answer s" "os_calls s' = os_calls s + 2"
  | (fail) e th' s' where "fly_thread_init s th f p = Some (e, th', s')" "os_ok s'"
      "e = fly_err FLYENORES \<or> e = fly_err FLYEATTR" "os_blocks s' = os_blocks s"
      "os_threads s' = os_threads s" "t_pthread th' = t_pthread th" "os_errno s' = os_errno s"
      "os_answer s' = os_answer s"
proof -
  let ?n = "os_calls s"
  let ?s = "s\<lparr>os_calls := Suc (Suc ?n)\<rparr>"
  have fresh: "Suc ?n \<notin> os_blocks s" using assms by (auto simp: os_ok_def)
  consider (a) "\<not> os_answer s ?n" | (b) "os_answer s ?n" "\<not> os_answer s (Suc ?n)"
    | (c) "os_answer s ?n" "os_answer s (Suc ?n)" by blast
  then show ?thesis
  proof cases
    case a
    with assms show ?thesis
      by (intro fail [of "fly_err FLYENORES" "th\<lparr>t_attr := NULL\<rparr>" "s\<lparr>os_calls := Suc ?n\<rparr>"])
        (auto simp: fly_thread_init_def os_malloc_def os_ask_def os_ok_def)
  next
    case b
    with assms fresh show ?thesis
      by (intro fail [of "fly_err FLYEATTR" "th\<lparr>t_attr := Suc ?n\<rparr>" ?s])
        (auto simp: fly_thread_init_def os_malloc_def os_ask_def os_ok_def os_free_def)
  next
    case c
    with assms fresh show ?thesis
      by (intro ok [of "th\<lparr>t_attr := Suc ?n, t_func := f, t_param := p,
            t_state := FLY_THREAD_IDLE, t_fd := FLY_INVALID_FD\<rparr>"
            "?s\<lparr>os_blocks := insert (Suc ?n) (os_blocks s)\<rparr>"])
        (auto simp: fly_thread_init_def os_malloc_def os_ask_def os_ok_def)
  qed
qed

text \<open>
  Initialising a thread object never leaks: it always returns, on failure it leaves no block
  allocated and reports an error, and on success uninitialising it gives back exactly the one
  block it took.
\<close>

theorem thread_init_uninit:
  assumes "os_ok s"
  shows "\<exists>e th' s'. fly_thread_init s th f p = Some (e, th', s') \<and>
    (if FLY_SUCCEEDED e
     then \<exists>s''. fly_thread_uninit s' th' = Some (0, s'') \<and> os_blocks s'' = os_blocks s
     else os_blocks s' = os_blocks s)"
  using assms
proof (cases rule: thread_init_cases [where th = th and f = f and p = p])
  case (ok th' s')
  then have "0 < t_attr th'" by (auto simp: os_ok_def)
  with ok show ?thesis by (auto simp: fly_thread_uninit_def os_free_def)
next
  case (fail e th' s')
  then show ?thesis by auto
qed

definition lucky_os :: os where
  "lucky_os = \<lparr>os_calls = 0, os_answer = \<lambda>_. True, os_errno = 11, os_blocks = {}, os_threads = {}\<rparr>"

theorem thread_init_uninit_witness:
  "os_ok lucky_os \<and> (\<exists>e th' s'. fly_thread_init lucky_os idle_thread 5 6 = Some (e, th', s') \<and>
    (if FLY_SUCCEEDED e
     then \<exists>s''. fly_thread_uninit s' th' = Some (0, s'') \<and> os_blocks s'' = os_blocks lucky_os
     else os_blocks s' = os_blocks lucky_os))"
proof -
  have "os_ok lucky_os" by (simp add: os_ok_def lucky_os_def)
  with thread_init_uninit [OF this, of idle_thread 5 6] show ?thesis by blast
qed

end
