(* ===== verification/Fly_Job.thy ===== *)
theory Fly_Job
  imports Fly_Lists Fly_Thread
begin

text \<open>
  \<^verbatim>\<open>src/fly_job.h\<close>, \<^verbatim>\<open>src/fly_job.c\<close> and \<^verbatim>\<open>src/fly_task.h\<close>: jobs, their
  batches, and the operations on them.

  Jobs, batches and tasks live on heaps of their own, all addressed by the same allocator as the
  list nodes.  The list of a job's batches is the first member of \<^verbatim>\<open>struct fly_job\<close>, so
  the list head has the job's address on the node heap.  Fields that a constructor leaves
  uninitialised are \<open>None\<close>, and reading them is undefined.
\<close>

section \<open>Jobs, batches, tasks\<close>

datatype fly_job_state =
  FLY_JOB_IDLE | FLY_JOB_PREPARING | FLY_JOB_READY | FLY_JOB_RUNNING | FLY_JOB_DONE

text \<open>The union of the two kinds of function pointer.\<close>

datatype job_func = PFor ptr | TFunc ptr

record fly_job =
  j_nbbatches :: int
  j_batches_done :: int
  j_func :: job_func
  j_data :: ptr
  j_elsize :: "nat option"
  j_start :: "int option"
  j_end :: "int option"
  j_jtype :: int
  j_recurse :: int
  j_state :: fly_job_state
  j_sem :: fly_sem

record fly_job_batch =
  b_job :: ptr
  b_start :: int
  b_end :: int
  b_execed :: int

record fly_task =
  tk_func :: ptr
  tk_param :: ptr
  tk_result :: "ptr option"
  tk_sched_data :: ptr

definition FLY_TASK_PARALLEL_FOR :: int where "FLY_TASK_PARALLEL_FOR = 1"
definition FLY_TASK_PARALLEL_FOR_ARR :: int where "FLY_TASK_PARALLEL_FOR_ARR = 2"
definition FLY_TASK_TASK :: int where "FLY_TASK_TASK = 3"

lemmas jtype_defs = FLY_TASK_PARALLEL_FOR_def FLY_TASK_PARALLEL_FOR_ARR_def FLY_TASK_TASK_def

text \<open>\<open>sem_ok p\<close>: whether \<^verbatim>\<open>sem_init\<close> succeeds for the job at \<open>p\<close>.\<close>

record job_mem = node_mem +
  jobs :: "ptr \<rightharpoonup> fly_job"
  batches :: "ptr \<rightharpoonup> fly_job_batch"
  tasks :: "ptr \<rightharpoonup> fly_task"
  sem_ok :: "ptr \<Rightarrow> bool"

definition get_job :: "'a job_mem_scheme \<Rightarrow> ptr \<Rightarrow> fly_job option" where
  "get_job m p = (if p = NULL then None else jobs m p)"

definition put_job :: "'a job_mem_scheme \<Rightarrow> ptr \<Rightarrow> fly_job \<Rightarrow> 'a job_mem_scheme" where
  "put_job m p j = m\<lparr>jobs := (jobs m)(p \<mapsto> j)\<rparr>"

definition get_batch :: "'a job_mem_scheme \<Rightarrow> ptr \<Rightarrow> fly_job_batch option" where
  "get_batch m p = (if p = NULL then None else batches m p)"

definition put_batch :: "'a job_mem_scheme \<Rightarrow> ptr \<Rightarrow> fly_job_batch \<Rightarrow> 'a job_mem_scheme" where
  "put_batch m p b = m\<lparr>batches := (batches m)(p \<mapsto> b)\<rparr>"

definition get_task :: "'a job_mem_scheme \<Rightarrow> ptr \<Rightarrow> fly_task option" where
  "get_task m p = (if p = NULL then None else tasks m p)"

definition put_task :: "'a job_mem_scheme \<Rightarrow> ptr \<Rightarrow> fly_task \<Rightarrow> 'a job_mem_scheme" where
  "put_task m p t = m\<lparr>tasks := (tasks m)(p \<mapsto> t)\<rparr>"

text \<open>Freeing a job frees its embedded list head with it.\<close>

definition fly_free_job :: "'a job_mem_scheme \<Rightarrow> ptr \<Rightarrow> 'a job_mem_scheme option" where
  "fly_free_job m p = do {
     _ \<leftarrow> get_job m p;
     Some (m\<lparr>jobs := (jobs m)(p := None), nodes := (nodes m)(p := None)\<rparr>)
   }"

definition fly_free_batch :: "'a job_mem_scheme \<Rightarrow> ptr \<Rightarrow> 'a job_mem_scheme option" where
  "fly_free_batch m p =
     (if p = NULL then Some m
      else do { _ \<leftarrow> get_batch m p; Some (m\<lparr>batches := (batches m)(p := None)\<rparr>) })"

section \<open>Creating jobs\<close>

definition fly_create_job_pfor ::
  "'a job_mem_scheme \<Rightarrow> int \<Rightarrow> ptr \<Rightarrow> ptr \<Rightarrow> ptr \<times> 'a job_mem_scheme" where
  "fly_create_job_pfor m count func p = (case fly_malloc m of (job, m) \<Rightarrow>
     if job \<noteq> NULL then
       (if sem_ok m job then
          (job, fly_list_init (put_job m job
            \<lparr>j_nbbatches = 0, j_batches_done = 0, j_func = PFor func, j_data = p, j_elsize = None,
             j_start = Some 0, j_end = Some count, j_jtype = FLY_TASK_PARALLEL_FOR, j_recurse = 0,
             j_state = FLY_JOB_IDLE, j_sem = 0\<rparr>) job)
        else (NULL, m))
     else (NULL, m))"

definition fly_create_job_pfarr :: "'a job_mem_scheme \<Rightarrow> int \<Rightarrow> int \<Rightarrow> ptr \<Rightarrow> ptr \<Rightarrow> nat \<Rightarrow>
    (ptr \<times> 'a job_mem_scheme) option" where
  "fly_create_job_pfarr m start end' func data elsize = do {
     d \<leftarrow> c_sub end' start;
     (if d > 0 then
        (case fly_malloc m of (job, m) \<Rightarrow>
          if job \<noteq> NULL then
            (if sem_ok m job then
               Some (job, fly_list_init (put_job m job
                 \<lparr>j_nbbatches = 0, j_batches_done = 0, j_func = PFor func, j_data = data,
                  j_elsize = Some elsize, j_start = Some start, j_end = Some end',
                  j_jtype = FLY_TASK_PARALLEL_FOR_ARR, j_recurse = 0,
                  j_state = FLY_JOB_IDLE, j_sem = 0\<rparr>) job)
             else Some (NULL, m))
          else Some (NULL, m))
      else Some (NULL, m))
   }"

definition fly_create_job_task ::
  "'a job_mem_scheme \<Rightarrow> ptr \<Rightarrow> (ptr \<times> 'a job_mem_scheme) option" where
  "fly_create_job_task m task = (case fly_malloc m of (job, m) \<Rightarrow>
     if job \<noteq> NULL then
       (if sem_ok m job then do {
          t \<leftarrow> get_task m task;
          Some (job, fly_list_init (put_job m job
            \<lparr>j_nbbatches = 1, j_batches_done = 0, j_func = TFunc (tk_func t), j_data = task,
             j_elsize = None, j_start = None, j_end = None, j_jtype = FLY_TASK_TASK,
             j_recurse = 0, j_state = FLY_JOB_IDLE, j_sem = 0\<rparr>) job)
        } else Some (NULL, m))
     else Some (NULL, m))"

section \<open>Batches\<close>

definition job_make_batch ::
  "'a job_mem_scheme \<Rightarrow> ptr \<Rightarrow> int \<Rightarrow> int \<Rightarrow> ptr \<times> 'a job_mem_scheme" where
  "job_make_batch m job start end' = (case fly_malloc m of (batch, m) \<Rightarrow>
     if batch \<noteq> NULL
     then (batch, put_batch m batch \<lparr>b_job = job, b_start = start, b_end = end', b_execed = 0\<rparr>)
     else (batch, m))"

definition job_add_batch ::
  "'a job_mem_scheme \<Rightarrow> ptr \<Rightarrow> ptr \<Rightarrow> (int \<times> 'a job_mem_scheme) option" where
  "job_add_batch m job batch = do { _ \<leftarrow> get_job m job; fly_list_append m job batch }"

definition job_remove_batch ::
  "'a job_mem_scheme \<Rightarrow> ptr \<Rightarrow> ptr \<Rightarrow> 'a job_mem_scheme option" where
  "job_remove_batch m job batch = do { _ \<leftarrow> get_job m job; fly_list_remove m job batch }"

definition job_destroy_batch :: "'a job_mem_scheme \<Rightarrow> ptr \<Rightarrow> 'a job_mem_scheme option" where
  "job_destroy_batch m batch = fly_free_batch m batch"

text \<open>
  The loop \<^verbatim>\<open>while (!fly_list_is_empty(&job->batches))\<close> of \<^verbatim>\<open>fly_destroy_job\<close>,
  \<^verbatim>\<open>fly_make_batches\<close> and \<^verbatim>\<open>fly_destroy_batches\<close>, and its body.
\<close>

definition job_drop_batch :: "'a job_mem_scheme \<Rightarrow> ptr \<Rightarrow> 'a job_mem_scheme option" where
  "job_drop_batch m job = do {
     node \<leftarrow> fly_list_tail m job;
     batch \<leftarrow> get_el m node;
     m \<leftarrow> job_remove_batch m job batch;
     job_destroy_batch m batch
   }"

partial_function (option) job_drop_batches ::
  "'a job_mem_scheme \<Rightarrow> ptr \<Rightarrow> 'a job_mem_scheme option" where
  "job_drop_batches m job =
     Option.bind (fly_list_is_empty m job) (\<lambda>e.
       if e then Some m
       else Option.bind (job_drop_batch m job) (\<lambda>m. job_drop_batches m job))"

definition fly_destroy_job :: "'a job_mem_scheme \<Rightarrow> ptr \<Rightarrow> 'a job_mem_scheme option" where
  "fly_destroy_job m job =
     (if job \<noteq> NULL then do { m \<leftarrow> job_drop_batches m job; fly_free_job m job } else Some m)"

definition fly_destroy_batches :: "'a job_mem_scheme \<Rightarrow> ptr \<Rightarrow> 'a job_mem_scheme option" where
  "fly_destroy_batches m job = (if job \<noteq> NULL then job_drop_batches m job else Some m)"

text \<open>The counting loop of \<^verbatim>\<open>fly_make_batches\<close>: the final \<open>i\<close> and the state.\<close>

partial_function (option) make_batches_loop ::
  "'a job_mem_scheme \<Rightarrow> ptr \<Rightarrow> int \<Rightarrow> int \<Rightarrow> int \<Rightarrow> (int \<times> 'a job_mem_scheme) option" where
  "make_batches_loop m job nbbatches batchsize i =
     (if i < nbbatches then do {
        j \<leftarrow> get_job m job;
        jstart \<leftarrow> j_start j;
        off \<leftarrow> c_mul i batchsize;
        start \<leftarrow> c_add jstart off;
        end' \<leftarrow> c_add start batchsize;
        (case job_make_batch m job start end' of (batch, m) \<Rightarrow>
          if batch \<noteq> NULL then
            Option.bind (job_add_batch m job batch) (\<lambda>(err, m).
              if FLY_SUCCEEDED err then make_batches_loop m job nbbatches batchsize (i + 1)
              else Option.bind (job_destroy_batch m batch) (\<lambda>m. Some (i, m)))
          else Some (i, m))
      } else Some (i, m))"

definition set_state :: "'a job_mem_scheme \<Rightarrow> ptr \<Rightarrow> fly_job_state \<Rightarrow> 'a job_mem_scheme option" where
  "set_state m job st = do { j \<leftarrow> get_job m job; Some (put_job m job (j\<lparr>j_state := st\<rparr>)) }"

definition fly_make_batches ::
  "'a job_mem_scheme \<Rightarrow> ptr \<Rightarrow> int \<Rightarrow> (int \<times> 'a job_mem_scheme) option" where
  "fly_make_batches m job nbbatches = do {
     j \<leftarrow> get_job m job;
     jend \<leftarrow> j_end j;
     jstart \<leftarrow> j_start j;
     funcscount \<leftarrow> c_sub jend jstart;
     q \<leftarrow> c_quot funcscount nbbatches;
     m \<leftarrow> set_state m job FLY_JOB_PREPARING;
     let batchsize = (if q = 0 then q + 1 else q);
     (i, m) \<leftarrow> make_batches_loop m job nbbatches batchsize 0;
     (if i \<noteq> nbbatches then do {
        m \<leftarrow> job_drop_batches m job;
        m \<leftarrow> set_state m job FLY_JOB_IDLE;
        Some (fly_err FLYENORES, m)
      } else do {
        m \<leftarrow> (if funcscount > nbbatches then do {
                r \<leftarrow> c_rem funcscount nbbatches;
                (if r \<noteq> 0 then do {
                   node \<leftarrow> fly_list_tail m job;
                   batch \<leftarrow> get_el m node;
                   b \<leftarrow> get_batch m batch;
                   e \<leftarrow> c_add (b_end b) r;
                   Some (put_batch m batch (b\<lparr>b_end := e\<rparr>))
                 } else Some m)
              } else Some m);
        j \<leftarrow> get_job m job;
        Some (fly_err FLYESUCCESS, put_job m job (j\<lparr>j_nbbatches := nbbatches, j_state := FLY_JOB_READY\<rparr>))
      })
   }"

section \<open>Taking a batch, testing for completion\<close>

text \<open>The loop of \<^verbatim>\<open>fly_get_exec_batch\<close>: \<^verbatim>\<open>while (curr && curr->el)\<close>.\<close>

partial_function (option) get_exec_loop ::
  "'a job_mem_scheme \<Rightarrow> ptr \<Rightarrow> (ptr \<times> 'a job_mem_scheme) option" where
  "get_exec_loop m cur =
     (if cur \<noteq> NULL then
        Option.bind (get_el m cur) (\<lambda>el.
          if el \<noteq> NULL then
            Option.bind (get_batch m el) (\<lambda>b.
              case fly_atomic_cas (b_execed b) 0 1 of (taken, v) \<Rightarrow>
                if taken then Some (el, put_batch m el (b\<lparr>b_execed := v\<rparr>))
                else Option.bind (get_next m cur) (\<lambda>n. get_exec_loop m n))
          else Some (NULL, m))
      else Some (NULL, m))"

definition fly_get_exec_batch ::
  "'a job_mem_scheme \<Rightarrow> ptr \<Rightarrow> (ptr \<times> 'a job_mem_scheme) option" where
  "fly_get_exec_batch m job = do { cur \<leftarrow> fly_list_head m job; get_exec_loop m cur }"

definition fly_job_is_done :: "'a job_mem_scheme \<Rightarrow> ptr \<Rightarrow> (bool \<times> 'a job_mem_scheme) option" where
  "fly_job_is_done m job = do {
     j \<leftarrow> get_job m job;
     (case fly_atomic_cas (j_batches_done j) (j_nbbatches j) (j_nbbatches j) of (done, v) \<Rightarrow>
       Some (done, put_job m job (j\<lparr>j_batches_done := v\<rparr>)))
   }"

section \<open>A job's batches as a list\<close>

lemmas job_heap_defs = get_job_def put_job_def get_batch_def put_batch_def get_task_def put_task_def

lemma get_job_iff: "get_job m p = Some j \<longleftrightarrow> p \<noteq> NULL \<and> jobs m p = Some j"
  by (simp add: get_job_def)

lemma get_batch_iff: "get_batch m p = Some b \<longleftrightarrow> p \<noteq> NULL \<and> batches m p = Some b"
  by (simp add: get_batch_def)

lemma get_task_iff: "get_task m p = Some t \<longleftrightarrow> p \<noteq> NULL \<and> tasks m p = Some t"
  by (simp add: get_task_def)

lemma list_rep_same:
  assumes "list_rep l m0 m es"
  shows "jobs m = jobs m0" and "batches m = batches m0" and "tasks m = tasks m0"
    and "malloc_ok m = malloc_ok m0" and "sem_ok m = sem_ok m0"
  using assms by (auto elim!: list_repE)

lemma list_rep_batches:
  assumes "list_rep l m0 m es"
  shows "list_rep l (m0\<lparr>batches := B\<rparr>) (m\<lparr>batches := B\<rparr>) es"
proof -
  obtain xs b h where r: "node_mem_ok m" "m = m0\<lparr>brk := b, nodes := h\<rparr>" "l \<in> dom (nodes m0)"
    "map snd xs = es" "dll (nodes m) l xs" "fst ` set xs \<inter> dom (nodes m0) = {}"
    "dom (nodes m) = dom (nodes m0) \<union> fst ` set xs" "eq_off (footprint l xs) (nodes m0) (nodes m)"
    using assms by (rule list_repE)
  have "m\<lparr>batches := B\<rparr> = (m0\<lparr>batches := B\<rparr>)\<lparr>brk := b, nodes := h\<rparr>"
    using r(2) by simp
  with r show ?thesis
    unfolding list_rep_def
    by (intro conjI exI [of _ xs] exI [of _ b] exI [of _ h]) (auto simp: node_mem_ok_def)
qed

text \<open>
  \<open>batch_rep job m0 m es bs\<close>: in \<open>m\<close> the job's list holds the batches at \<open>es\<close>, whose
  contents are \<open>bs\<close>; everything else (all other nodes and batches, and the jobs) is as in
  \<open>m0\<close>, where the list is empty.
\<close>

definition batch_rep :: "ptr \<Rightarrow> 'a job_mem_scheme \<Rightarrow> 'a job_mem_scheme \<Rightarrow>
    ptr list \<Rightarrow> fly_job_batch list \<Rightarrow> bool" where
  "batch_rep job m0 m es bs \<longleftrightarrow>
     list_rep job (m0\<lparr>batches := batches m\<rparr>) m es \<and> get_job m0 job \<noteq> None \<and>
     distinct es \<and> NULL \<notin> set es \<and> set es \<inter> dom (batches m0) = {} \<and>
     dom (batches m) = dom (batches m0) \<union> set es \<and> (\<forall>p. brk m \<le> p \<longrightarrow> batches m p = None) \<and>
     (\<forall>p. p \<in> dom (batches m0) \<longrightarrow> batches m p = batches m0 p) \<and> map (batches m) es = map Some bs"

lemma batch_repD:
  assumes "batch_rep job m0 m es bs"
  shows "list_rep job (m0\<lparr>batches := batches m\<rparr>) m es" and "get_job m0 job \<noteq> None"
    and "distinct es" and "NULL \<notin> set es" and "set es \<inter> dom (batches m0) = {}"
    and "dom (batches m) = dom (batches m0) \<union> set es"
    and "\<And>p. brk m \<le> p \<Longrightarrow> batches m p = None"
    and "\<And>p. p \<in> dom (batches m0) \<Longrightarrow> batches m p = batches m0 p"
    and "map (batches m) es = map Some bs"
  using assms unfolding batch_rep_def by simp_all

lemma batch_repI:
  assumes "list_rep job (m0\<lparr>batches := batches m\<rparr>) m es" and "get_job m0 job \<noteq> None"
    and "distinct es" and "NULL \<notin> set es" and "set es \<inter> dom (batches m0) = {}"
    and "dom (batches m) = dom (batches m0) \<union> set es"
    and "\<And>p. brk m \<le> p \<Longrightarrow> batches m p = None"
    and "\<And>p. p \<in> dom (batches m0) \<Longrightarrow> batches m p = batches m0 p"
    and "map (batches m) es = map Some bs"
  shows "batch_rep job m0 m es bs"
  using assms unfolding batch_rep_def by simp

lemma batch_rep_job:
  assumes "batch_rep job m0 m es bs"
  shows "get_job m job = get_job m0 job"
  using list_rep_same(1) [OF batch_repD(1) [OF assms]] by (simp add: get_job_def)

lemma batch_rep_length: "batch_rep job m0 m es bs \<Longrightarrow> length es = length bs"
  using batch_repD(9) by (metis length_map)

text \<open>A batch is allocated and its list append succeeds or not.\<close>

lemma batch_rep_skip:
  assumes "batch_rep job m0 m es bs"
  shows "batch_rep job m0 (m\<lparr>brk := Suc (brk m)\<rparr>) es bs"
  using batch_repD [OF assms] list_rep_skip [OF batch_repD(1) [OF assms]]
  by (intro batch_repI) auto

lemma make_batch_no_memory:
  "\<not> malloc_ok m (brk m) \<Longrightarrow> job_make_batch m job s e = (NULL, m\<lparr>brk := Suc (brk m)\<rparr>)"
  by (simp add: job_make_batch_def fly_malloc_def)

lemma make_batch_room:
  "malloc_ok m (brk m) \<Longrightarrow> 0 < brk m \<Longrightarrow> job_make_batch m job s e =
     (brk m, put_batch (m\<lparr>brk := Suc (brk m)\<rparr>) (brk m) \<lparr>b_job = job, b_start = s, b_end = e, b_execed = 0\<rparr>)"
  by (simp add: job_make_batch_def fly_malloc_def)

lemma map_upd_notin: "p \<notin> set es \<Longrightarrow> map (f(p := v)) es = map f es"
  by (induction es) auto

lemma batch_rep_add:
  assumes "batch_rep job m0 m es bs"
    and "m1 = put_batch (m\<lparr>brk := Suc (brk m)\<rparr>) (brk m) b"
  shows "\<exists>err m2. job_add_batch m1 job (brk m) = Some (err, m2) \<and>
    (if FLY_SUCCEEDED err then batch_rep job m0 m2 (es @ [brk m]) (bs @ [b])
     else \<exists>m3. job_destroy_batch m2 (brk m) = Some m3 \<and> batch_rep job m0 m3 es bs)"
proof -
  let ?p = "brk m"
  let ?B = "(batches m)(?p \<mapsto> b)"
  note r = batch_repD [OF assms(1)]
  have p: "?p \<notin> dom (batches m)" "0 < ?p"
    using r(1) r(7) [of ?p] by (auto elim!: list_repE simp: node_mem_ok_def domIff)
  have m1: "m1 = m\<lparr>brk := Suc ?p, batches := ?B\<rparr>"
    by (simp add: assms(2) put_batch_def)
  then have "list_rep job (m0\<lparr>batches := ?B\<rparr>) m1 es"
    using list_rep_batches [OF list_rep_skip [OF r(1)], of ?B] by simp
  from nodes_list.append_total [OF this, of ?p] obtain err m2 where
    a: "fly_list_append m1 job ?p = Some (err, m2)" and
    rep2: "list_rep job (m0\<lparr>batches := ?B\<rparr>) m2 (if FLY_SUCCEEDED err then es @ [?p] else es)"
    by blast
  have job: "get_job m1 job \<noteq> None"
    using r(2) batch_rep_job [OF assms(1)] by (auto simp: m1 get_job_def split: if_splits)
  have m2: "batches m2 = ?B" "brk m2 = Suc (Suc ?p)"
    using list_rep_same(2) [OF rep2] append_brk [OF a] by (simp_all add: m1)
  have maps: "map ?B es = map Some bs"
    using r(9) map_upd_notin [of ?p es "batches m" "Some b"] p r(6) by auto
  show ?thesis
  proof (cases "FLY_SUCCEEDED err")
    case True
    with rep2 r p m2 maps have "batch_rep job m0 m2 (es @ [?p]) (bs @ [b])"
      by (intro batch_repI) auto
    with True a job show ?thesis
      by (auto simp: job_add_batch_def)
  next
    case False
    let ?m3 = "m2\<lparr>batches := batches m\<rparr>"
    have B: "?B(?p := None) = batches m"
      using p(1) by (auto simp: fun_eq_iff domIff)
    then have d: "job_destroy_batch m2 ?p = Some ?m3"
      using p m2(1) by (simp add: job_destroy_batch_def fly_free_batch_def get_batch_def)
    have "list_rep job (m0\<lparr>batches := batches m\<rparr>) ?m3 es"
      using list_rep_batches [OF rep2, of "batches m"] False by simp
    with r m2 have "batch_rep job m0 ?m3 es bs"
      by (intro batch_repI) auto
    with False a job d show ?thesis
      by (auto simp: job_add_batch_def)
  qed
qed

text \<open>The heaps a job is created on, with an empty batch list.\<close>

definition job_mem_ok :: "'a job_mem_scheme \<Rightarrow> bool" where
  "job_mem_ok m \<longleftrightarrow> node_mem_ok m \<and>
     (\<forall>p. brk m \<le> p \<longrightarrow> batches m p = None) \<and> (\<forall>p. brk m \<le> p \<longrightarrow> jobs m p = None)"

lemma batch_rep_start:
  assumes "job_mem_ok m" and "dll (nodes m) job []" and "get_job m job \<noteq> None"
  shows "batch_rep job m m [] []"
proof (rule batch_repI)
  have "m = m\<lparr>batches := batches m, brk := brk m, nodes := nodes m\<rparr>" by simp
  then have "\<exists>b h. m = m\<lparr>batches := batches m, brk := b, nodes := h\<rparr>" by blast
  with assms show "list_rep job (m\<lparr>batches := batches m\<rparr>) m []"
    by (simp add: list_rep_def job_mem_ok_def) (simp add: dll_def domIff)
qed (use assms in \<open>simp_all add: job_mem_ok_def\<close>)

lemma batch_rep_empty:
  assumes "batch_rep job m0 m [] bs" and "dll (nodes m0) job []"
  shows "m = m0\<lparr>brk := brk m\<rparr>"
proof -
  note d = batch_repD [OF assms(1)]
  have B: "batches m = batches m0"
  proof
    fix p
    show "batches m p = batches m0 p"
      using d(6) d(8) [of p] by (cases "p \<in> dom (batches m0)") (auto simp: domIff)
  qed
  have l: "list_rep job m0 m []"
    using d(1) by (simp add: B)
  then obtain b h where r: "m = m0\<lparr>brk := b, nodes := h\<rparr>" "dll (nodes m) job []"
    "eq_off (footprint job []) (nodes m0) (nodes m)"
    by (auto elim: list_repE)
  have "nodes m p = nodes m0 p" for p
    using r(2,3) assms(2) by (cases "p = job") (auto simp: eq_off_def footprint_def dll_def)
  then have "nodes m = nodes m0" by blast
  with r(1) show ?thesis by simp
qed

text \<open>The \<open>i\<close>-th batch that \<^verbatim>\<open>fly_make_batches\<close> makes.\<close>

definition plan_batch :: "ptr \<Rightarrow> int \<Rightarrow> int \<Rightarrow> int \<Rightarrow> fly_job_batch" where
  "plan_batch job js bsz i =
     \<lparr>b_job = job, b_start = js + i * bsz, b_end = js + i * bsz + bsz, b_execed = 0\<rparr>"

lemma make_batches_loop_rep:
  assumes "batch_rep job m0 m es (map (plan_batch job js bsz) [0..i - 1])"
    and "get_job m0 job = Some j" and "j_start j = Some js" and "0 \<le> i" and "i \<le> nb"
    and "\<And>k. 0 \<le> k \<Longrightarrow> k < nb \<Longrightarrow> c_ok (k * bsz) \<and> c_ok (js + k * bsz) \<and> c_ok (js + k * bsz + bsz)"
  shows "\<exists>k m' es'. make_batches_loop m job nb bsz i = Some (k, m') \<and> i \<le> k \<and> k \<le> nb \<and>
    batch_rep job m0 m' es' (map (plan_batch job js bsz) [0..k - 1]) \<and>
    brk m \<le> brk m' \<and> ((\<forall>p. malloc_ok m0 p) \<longrightarrow> k = nb)"
  using assms
proof (induction "nat (nb - i)" arbitrary: m es i)
  case 0
  then have "i = nb" by simp
  with 0 show ?case by (subst make_batches_loop.simps) auto
next
  case (Suc n)
  let ?B = "\<lambda>i. map (plan_batch job js bsz) [0..i - 1]"
  have i: "i < nb" "c_ok (i * bsz)" "c_ok (js + i * bsz)" "c_ok (js + i * bsz + bsz)"
    using Suc.hyps(2) Suc.prems(4,6) by auto
  have j: "get_job m job = Some j"
    using batch_rep_job [OF Suc.prems(1)] Suc.prems(2) by simp
  have malloc: "malloc_ok m = malloc_ok m0"
    using list_rep_same(4) [OF batch_repD(1) [OF Suc.prems(1)]] by simp
  have Bi: "?B (i + 1) = ?B i @ [plan_batch job js bsz i]"
    using Suc.prems(4) by (simp add: upto_rec2)
  have "0 < brk m"
    using batch_repD(1) [OF Suc.prems(1)] by (auto elim: list_repE simp: node_mem_ok_def)
  show ?case
  proof (cases "malloc_ok m (brk m)")
    case False
    with i j Suc.prems(3) have "make_batches_loop m job nb bsz i = Some (i, m\<lparr>brk := Suc (brk m)\<rparr>)"
      by (subst make_batches_loop.simps) (simp add: c_arith_defs make_batch_no_memory)
    with False malloc i(1) batch_rep_skip [OF Suc.prems(1)] show ?thesis by auto
  next
    case True
    let ?m1 = "put_batch (m\<lparr>brk := Suc (brk m)\<rparr>) (brk m) (plan_batch job js bsz i)"
    obtain err m2 where add: "job_add_batch ?m1 job (brk m) = Some (err, m2)" and
      res: "if FLY_SUCCEEDED err then batch_rep job m0 m2 (es @ [brk m]) (?B (i + 1))
        else \<exists>m3. job_destroy_batch m2 (brk m) = Some m3 \<and> batch_rep job m0 m3 es (?B i)"
      using batch_rep_add [OF Suc.prems(1) refl, of "plan_batch job js bsz i"] unfolding Bi by blast
    have mk: "job_make_batch m job (js + i * bsz) (js + i * bsz + bsz) = (brk m, ?m1)"
      using make_batch_room [OF True \<open>0 < brk m\<close>] by (simp add: plan_batch_def)
    note step = make_batches_loop.simps [of m job nb bsz i]
    show ?thesis
    proof (cases "err = 0")
      case ok: True
      have "make_batches_loop m job nb bsz i = make_batches_loop m2 job nb bsz (i + 1)"
        using i j Suc.prems(3) mk add ok \<open>0 < brk m\<close> by (simp add: step c_arith_defs)
      moreover have "\<exists>k m' es'. make_batches_loop m2 job nb bsz (i + 1) = Some (k, m') \<and>
          i + 1 \<le> k \<and> k \<le> nb \<and> batch_rep job m0 m' es' (?B k) \<and> brk m2 \<le> brk m' \<and> ((\<forall>p. malloc_ok m0 p) \<longrightarrow> k = nb)"
        using Suc.hyps(2) Suc.prems(2-6) res ok i(1) by (intro Suc.hyps(1) [of "i + 1" m2]) auto
      moreover have "brk m \<le> brk m2"
        using add by (auto simp: job_add_batch_def put_batch_def Option.bind_eq_Some_conv dest!: append_brk)
      ultimately show ?thesis by force
    next
      case bad: False
      with res obtain m3 where m3: "job_destroy_batch m2 (brk m) = Some m3" "batch_rep job m0 m3 es (?B i)"
        by auto
      then have "make_batches_loop m job nb bsz i = Some (i, m3)"
        using i j Suc.prems(3) mk add bad \<open>0 < brk m\<close> by (simp add: step c_arith_defs)
      moreover have "\<not> malloc_ok m0 (Suc (brk m))"
        using add bad malloc by (auto simp: job_add_batch_def fly_list_append_def fly_malloc_def
            put_batch_def Option.bind_eq_Some_conv split: if_splits)
      moreover have "brk m \<le> brk m3"
        using add m3(1) by (auto simp: job_add_batch_def put_batch_def job_destroy_batch_def
            fly_free_batch_def Option.bind_eq_Some_conv dest!: append_brk split: if_splits)
      ultimately show ?thesis using m3(2) i(1) by auto
    qed
  qed
qed

text \<open>Dropping the last batch, and all of them.\<close>

lemma batch_rep_drop:
  assumes "batch_rep job m0 m (es @ [e]) bs"
  shows "\<exists>m'. job_drop_batch m job = Some m' \<and> batch_rep job m0 m' es (butlast bs) \<and> brk m' = brk m"
proof -
  note d = batch_repD [OF assms]
  obtain n where n: "fly_list_tail m job = Some n" "get_el m n = Some e"
    using list_rep_last [OF d(1)] by blast
  obtain m1 where m1: "fly_list_remove m job e = Some m1"
    "list_rep job (m0\<lparr>batches := batches m\<rparr>) m1 (remove1 e (es @ [e]))" "brk m1 = brk m"
    using list_rep_remove [OF d(1)] by blast
  let ?B = "(batches m)(e := None)"
  have same: "batches m1 = batches m"
    using list_rep_same(2) [OF m1(2)] by simp
  have e: "e \<noteq> NULL" "e \<in> dom (batches m)" "remove1 e (es @ [e]) = es"
    using d(3,4,6) by (auto simp: remove1_append)
  have run: "job_drop_batch m job = Some (m1\<lparr>batches := ?B\<rparr>)"
    using n m1(1) e(1,2) same d(2) batch_rep_job [OF assms]
    by (auto simp: job_drop_batch_def job_remove_batch_def job_destroy_batch_def fly_free_batch_def
        get_batch_def)
  have "list_rep job (m0\<lparr>batches := ?B\<rparr>) (m1\<lparr>batches := ?B\<rparr>) es"
    using list_rep_batches [OF m1(2), of ?B] e(3) by simp
  moreover obtain b bs' where "bs = bs' @ [b]" "map (batches m) es = map Some bs'"
    using d(9) by (cases bs rule: rev_cases) auto
  ultimately have "batch_rep job m0 (m1\<lparr>batches := ?B\<rparr>) es (butlast bs)"
    using d e m1(3) by (intro batch_repI) (auto simp: map_upd_notin)
  with run m1(3) show ?thesis by auto
qed

text \<open>The heaps are those of \<open>m0\<close> but for a list of batches of the job, whatever it holds.\<close>

definition batches_on :: "ptr \<Rightarrow> 'a job_mem_scheme \<Rightarrow> ptr \<Rightarrow> 'a job_mem_scheme \<Rightarrow> ptr list \<Rightarrow> bool" where
  "batches_on job m0 b m es \<longleftrightarrow> (\<exists>bs. batch_rep job m0 m es bs) \<and> brk m = b"

interpretation batch_drain: drain_loop "batches_on job m0 b" "\<lambda>m. job_drop_batch m job"
    "\<lambda>m. job_drop_batches m job"
  for job :: ptr and m0 :: "'a job_mem_scheme" and b :: ptr
proof unfold_locales
  fix m :: "'a job_mem_scheme" and es :: "ptr list"
  assume rep: "batches_on job m0 b m es"
  then obtain bs where bs: "batch_rep job m0 m es bs" "brk m = b"
    by (auto simp: batches_on_def)
  show "\<exists>m' es'. job_drop_batch m job = Some m' \<and> batches_on job m0 b m' es' \<and>
      length es' < length es" if "es \<noteq> []"
  proof -
    from that have "es = butlast es @ [last es]" by simp
    with batch_rep_drop [of job m0 m "butlast es" "last es" bs] bs that show ?thesis
      by (auto simp: batches_on_def intro!: exI [of _ "butlast es"])
  qed
  show "job_drop_batches m job =
      (if es = [] then Some m else Option.bind (job_drop_batch m job) (\<lambda>m. job_drop_batches m job))"
    using nodes_list.is_empty [OF batch_repD(1) [OF bs(1)]]
    by (subst job_drop_batches.simps) simp
qed

lemma drop_batches_rep:
  assumes "batch_rep job m0 m es bs" and "dll (nodes m0) job []"
  shows "job_drop_batches m job = Some (m0\<lparr>brk := brk m\<rparr>)"
  using batch_drain.drains [of job m0 "brk m" m es] batch_rep_empty [OF _ assms(2)] assms(1)
  by (fastforce simp: batches_on_def)

text \<open>Updates of the job's own record and of the last batch.\<close>

lemma list_rep_put_job:
  assumes "list_rep l m0 m es"
  shows "list_rep l (put_job m0 q j) (put_job m q j) es"
proof -
  obtain xs b h where r: "node_mem_ok m" "m = m0\<lparr>brk := b, nodes := h\<rparr>" "l \<in> dom (nodes m0)"
    "map snd xs = es" "dll (nodes m) l xs" "fst ` set xs \<inter> dom (nodes m0) = {}"
    "dom (nodes m) = dom (nodes m0) \<union> fst ` set xs" "eq_off (footprint l xs) (nodes m0) (nodes m)"
    using assms by (rule list_repE)
  have "put_job m q j = (put_job m0 q j)\<lparr>brk := b, nodes := h\<rparr>"
    using r(2) by (simp add: put_job_def)
  with r show ?thesis
    unfolding list_rep_def
    by (intro conjI exI [of _ xs] exI [of _ b] exI [of _ h]) (auto simp: node_mem_ok_def put_job_def)
qed

lemma put_job_simps [simp]:
  "batches (put_job m q j) = batches m" "nodes (put_job m q j) = nodes m"
  "brk (put_job m q j) = brk m" "malloc_ok (put_job m q j) = malloc_ok m"
  "put_job (put_job m q j) q j' = put_job m q j'"
  "put_job (m\<lparr>brk := b\<rparr>) q j = (put_job m q j)\<lparr>brk := b\<rparr>"
  "q \<noteq> NULL \<Longrightarrow> get_job (put_job m q j) q = Some j"
  "put_job (m\<lparr>batches := B\<rparr>) q j = (put_job m q j)\<lparr>batches := B\<rparr>"
  "get_job (m\<lparr>brk := b\<rparr>) q = get_job m q"
  by (simp_all add: put_job_def get_job_def)

lemma put_batch_simps [simp]:
  "brk (put_batch m p b) = brk m" "nodes (put_batch m p b) = nodes m" "jobs (put_batch m p b) = jobs m"
  "malloc_ok (put_batch m p b) = malloc_ok m" "tasks (put_batch m p b) = tasks m"
  by (simp_all add: put_batch_def)

lemma batch_rep_put_job:
  assumes "batch_rep job m0 m es bs"
  shows "batch_rep job (put_job m0 job j) (put_job m job j) es bs"
proof -
  note d = batch_repD [OF assms]
  have "list_rep job ((put_job m0 job j)\<lparr>batches := batches m\<rparr>) (put_job m job j) es"
    using list_rep_put_job [OF d(1), of job j] by simp
  moreover have "get_job (put_job m0 job j) job \<noteq> None"
    using d(2) by (simp add: get_job_def put_job_def split: if_splits)
  ultimately show ?thesis
    using d(3-) by (intro batch_repI) auto
qed

lemma batch_rep_put_last:
  assumes "batch_rep job m0 m (es @ [e]) bs"
  shows "batch_rep job m0 (put_batch m e b) (es @ [e]) (butlast bs @ [b])"
proof -
  note d = batch_repD [OF assms]
  let ?B = "(batches m)(e \<mapsto> b)"
  have "list_rep job (m0\<lparr>batches := ?B\<rparr>) (m\<lparr>batches := ?B\<rparr>) (es @ [e])"
    using list_rep_batches [OF d(1), of ?B] by simp
  moreover obtain b' bs' where "bs = bs' @ [b']" "map (batches m) es = map Some bs'"
    using d(9) by (cases bs rule: rev_cases) auto
  moreover have "e < brk m"
    using d(6) d(7) [of e] by (metis domIff not_less Un_iff in_set_conv_decomp)
  ultimately show ?thesis
    using d by (intro batch_repI) (auto simp: put_batch_def map_upd_notin)
qed

text \<open>The batches \<^verbatim>\<open>fly_make_batches\<close> leaves: the last one takes the remainder.\<close>

definition batch_size :: "int \<Rightarrow> int \<Rightarrow> int" where
  "batch_size count nb = (if count div nb = 0 then 1 else count div nb)"

definition batch_plan :: "ptr \<Rightarrow> int \<Rightarrow> int \<Rightarrow> int \<Rightarrow> fly_job_batch list" where
  "batch_plan job js count nb =
     (let bs = map (plan_batch job js (batch_size count nb)) [0..nb - 1]
      in if nb < count \<and> count mod nb \<noteq> 0
         then butlast bs @ [(last bs)\<lparr>b_end := b_end (last bs) + count mod nb\<rparr>] else bs)"

text \<open>When none of the bounds computed overflows.\<close>

definition batch_range_ok :: "int \<Rightarrow> int \<Rightarrow> int \<Rightarrow> bool" where
  "batch_range_ok js je nb \<longleftrightarrow> c_ok js \<and> js \<le> je \<and> c_ok (je - js) \<and> 0 < nb \<and> c_ok nb \<and>
     c_ok (js + max (je - js) nb)"

lemma batch_size_bounds:
  assumes "0 \<le> count" and "0 < nb"
  shows "0 < batch_size count nb" and "nb * batch_size count nb \<le> max count nb"
    and "nb < count \<Longrightarrow> nb * batch_size count nb + count mod nb = count"
proof -
  have d: "nb * (count div nb) + count mod nb = count" "0 \<le> count div nb" "0 \<le> count mod nb"
    using assms by (simp_all add: pos_imp_zdiv_nonneg_iff)
  have le: "nb * (count div nb) \<le> count" using d(1,3) by linarith
  show "0 < batch_size count nb" using d(2) by (auto simp: batch_size_def)
  show "nb * batch_size count nb \<le> max count nb"
    using le by (simp add: batch_size_def le_max_iff_disj)
  assume "nb < count"
  then have "count div nb \<noteq> 0"
    using assms by (simp add: zdiv_eq_0_iff)
  with d(1) show "nb * batch_size count nb + count mod nb = count" by (simp add: batch_size_def)
qed

lemma batch_bounds_ok:
  assumes "batch_range_ok js je nb" and "bsz = batch_size (je - js) nb" and "0 \<le> k" and "k < nb"
  shows "c_ok (k * bsz) \<and> c_ok (js + k * bsz) \<and> c_ok (js + k * bsz + bsz)"
proof -
  have b: "0 < bsz" "nb * bsz \<le> max (je - js) nb"
    using assms(1,2) batch_size_bounds [of "je - js" nb] by (auto simp: batch_range_ok_def)
  have "k * bsz + bsz = (k + 1) * bsz" by (simp add: distrib_right)
  also have "\<dots> \<le> nb * bsz"
    using assms(4) b(1) by (intro mult_right_mono) auto
  finally have "k * bsz + bsz \<le> max (je - js) nb" using b(2) by simp
  moreover have "0 \<le> k * bsz" using assms(3) b(1) by simp
  ultimately show ?thesis
    using assms(1) b(1) unfolding batch_range_ok_def c_ok_iff by (auto simp: max_def split: if_splits)
qed

lemma plan_length: "0 < nb \<Longrightarrow> length (batch_plan job js count nb) = nat nb"
  by (simp add: batch_plan_def Let_def)

lemma map_upto_last:
  assumes "0 < nb"
  shows "map f [0..nb - 1] = map f [0..nb - 2] @ [f (nb - 1)]"
  using assms by (simp add: upto_rec2 [of 0 "nb - 1"])

text \<open>The extension of the last batch by the remainder.\<close>

lemma last_batch_runs:
  assumes "batch_rep job m0 m es (map (plan_batch job js bsz) [0..nb - 1])" and "0 < nb"
    and "c_ok (js + nb * bsz + r)"
  shows "\<exists>n e b. fly_list_tail m job = Some n \<and> get_el m n = Some e \<and> get_batch m e = Some b \<and>
    c_add (b_end b) r = Some (b_end b + r) \<and>
    batch_rep job m0 (put_batch m e (b\<lparr>b_end := b_end b + r\<rparr>)) es
      (let bs = map (plan_batch job js bsz) [0..nb - 1] in butlast bs @ [(last bs)\<lparr>b_end := b_end (last bs) + r\<rparr>])"
proof -
  let ?bs = "map (plan_batch job js bsz) [0..nb - 1]" and ?b = "plan_batch job js bsz (nb - 1)"
  note d = batch_repD [OF assms(1)]
  have bs: "?bs = map (plan_batch job js bsz) [0..nb - 2] @ [?b]"
    by (rule map_upto_last [OF assms(2)])
  then obtain es' e where es: "es = es' @ [e]"
    using batch_rep_length [OF assms(1)] by (cases es rule: rev_cases) auto
  obtain n where n: "fly_list_tail m job = Some n" "get_el m n = Some e"
    using list_rep_last d(1) unfolding es by blast
  have "get_batch m e = Some ?b"
    using d(4,9) unfolding es bs by (auto simp: get_batch_def)
  moreover have "b_end ?b = js + nb * bsz"
    by (simp add: plan_batch_def algebra_simps)
  ultimately show ?thesis
    using n batch_rep_put_last [OF assms(1) [unfolded es], of "?b\<lparr>b_end := b_end ?b + r\<rparr>"] assms(3)
    unfolding Let_def bs es last_snoc by (auto simp: c_add_def)
qed

text \<open>
  What \<^verbatim>\<open>fly_make_batches\<close> promises: the planned batches, or an error, the state set
  back, and nothing left of the attempt on the heaps.
\<close>

definition batches_made :: "ptr \<Rightarrow> int \<Rightarrow> 'a job_mem_scheme \<Rightarrow> int \<times> 'a job_mem_scheme \<Rightarrow> bool" where
  "batches_made job nb m r \<longleftrightarrow> (\<exists>j js je. get_job m job = Some j \<and> j_start j = Some js \<and> j_end j = Some je \<and>
     (case r of (err, m') \<Rightarrow> brk m \<le> brk m' \<and> (
       let j' = j\<lparr>j_nbbatches := nb, j_state := FLY_JOB_READY\<rparr> in
       if FLY_SUCCEEDED err
       then \<exists>es. batch_rep job (put_job m job j') m' es (batch_plan job js (je - js) nb)
       else err = fly_err FLYENORES \<and>
         m' = (put_job m job (j\<lparr>j_state := FLY_JOB_IDLE\<rparr>))\<lparr>brk := brk m'\<rparr>)))"

lemma make_batches_runs:
  assumes ok: "job_mem_ok m" and empty: "dll (nodes m) job []"
    and j: "get_job m job = Some j" "j_start j = Some js" "j_end j = Some je"
    and range: "batch_range_ok js je nb"
  shows "\<exists>err m'. fly_make_batches m job nb = Some (err, m') \<and> batches_made job nb m (err, m') \<and>
    ((\<forall>p. malloc_ok m p) \<longrightarrow> err = fly_err FLYESUCCESS)"
proof -
  let ?count = "je - js" and ?jp = "j\<lparr>j_state := FLY_JOB_PREPARING\<rparr>"
  let ?bsz = "batch_size ?count nb" and ?m0 = "put_job m job ?jp"
  let ?bs = "\<lambda>k. map (plan_batch job js ?bsz) [0..k - 1]"
  have job: "job \<noteq> NULL" using j(1) by (auto simp: get_job_def split: if_splits)
  have r: "c_ok ?count" "0 < nb" "0 \<le> ?count" using range by (auto simp: batch_range_ok_def)
  have rep0: "batch_rep job ?m0 ?m0 [] (?bs 0)"
    using batch_rep_put_job [OF batch_rep_start [OF ok empty]] j(1) by simp
  obtain k m1 es where loop: "make_batches_loop ?m0 job nb ?bsz 0 = Some (k, m1)" "k \<le> nb"
    "batch_rep job ?m0 m1 es (?bs k)" "(\<forall>p. malloc_ok m p) \<longrightarrow> k = nb" "brk m \<le> brk m1"
    using make_batches_loop_rep [OF rep0, of ?jp nb] r(2) job j batch_bounds_ok [OF range refl]
    by auto
  have bsz: "(if ?count div nb = 0 then ?count div nb + 1 else ?count div nb) = ?bsz"
    by (simp add: batch_size_def)
  have start: "fly_make_batches m job nb = (do {
     (i, m) \<leftarrow> Some (k, m1);
     (if i \<noteq> nb then do {
        m \<leftarrow> job_drop_batches m job;
        m \<leftarrow> set_state m job FLY_JOB_IDLE;
        Some (fly_err FLYENORES, m)
      } else do {
        m \<leftarrow> (if ?count > nb then do {
                r \<leftarrow> c_rem ?count nb;
                (if r \<noteq> 0 then do {
                   node \<leftarrow> fly_list_tail m job;
                   batch \<leftarrow> get_el m node;
                   b \<leftarrow> get_batch m batch;
                   e \<leftarrow> c_add (b_end b) r;
                   Some (put_batch m batch (b\<lparr>b_end := e\<rparr>))
                 } else Some m)
              } else Some m);
        j \<leftarrow> get_job m job;
        Some (fly_err FLYESUCCESS, put_job m job (j\<lparr>j_nbbatches := nb, j_state := FLY_JOB_READY\<rparr>))
      })
   })"
    using j r loop(1) c_quot_nonneg [of ?count nb] bsz
    by (simp add: fly_make_batches_def c_sub_def set_state_def)
  show ?thesis
  proof (cases "k = nb")
    case False
    have "job_drop_batches m1 job = Some (?m0\<lparr>brk := brk m1\<rparr>)"
      using drop_batches_rep [OF loop(3)] empty by simp
    with False job start have "fly_make_batches m job nb =
        Some (fly_err FLYENORES, (put_job m job (j\<lparr>j_state := FLY_JOB_IDLE\<rparr>))\<lparr>brk := brk m1\<rparr>)"
      by (simp add: set_state_def)
    with False loop(4,5) j show ?thesis by (auto simp: batches_made_def)
  next
    case True
    obtain m2 where m2: "fly_make_batches m job nb = (do { j \<leftarrow> get_job m2 job;
        Some (fly_err FLYESUCCESS, put_job m2 job (j\<lparr>j_nbbatches := nb, j_state := FLY_JOB_READY\<rparr>)) })"
      "batch_rep job ?m0 m2 es (batch_plan job js ?count nb)" "brk m \<le> brk m2"
    proof (cases "nb < ?count \<and> ?count mod nb \<noteq> 0")
      case rem: True
      have "js + nb * ?bsz + ?count mod nb = je"
        using batch_size_bounds(3) [OF r(3,2)] rem by simp
      then have c: "c_ok (js + nb * ?bsz + ?count mod nb)"
        using range rem by (simp add: batch_range_ok_def)
      from last_batch_runs [OF loop(3) [unfolded True] r(2) c] rem
      show ?thesis
        using that start True c_rem_nonneg [OF r(3,2,1)] loop(5) by (auto simp: batch_plan_def)
    next
      case norem: False
      with loop(3) show ?thesis
        using that start True c_rem_nonneg [OF r(3,2,1)] loop(5) by (auto simp: batch_plan_def)
    qed
    have "get_job m2 job = Some ?jp"
      using batch_rep_job [OF m2(2)] job by simp
    with m2(1,3) batch_rep_put_job [OF m2(2)] j show ?thesis
      by (auto simp: batches_made_def)
  qed
qed

section \<open>Taking batches\<close>

text \<open>The batches that no thread has taken yet, in the order of the list.\<close>

definition unclaimed :: "ptr list \<Rightarrow> fly_job_batch list \<Rightarrow> ptr list" where
  "unclaimed es bs = map fst (filter (\<lambda>(e, b). b_execed b = 0) (zip es bs))"

lemma unclaimed_simps [simp]:
  "unclaimed [] bs = []"
  "unclaimed (e # es) (b # bs) = (if b_execed b = 0 then e # unclaimed es bs else unclaimed es bs)"
  by (simp_all add: unclaimed_def)

lemma unclaimed_append [simp]:
  "length es = length bs \<Longrightarrow> unclaimed (es @ es') (bs @ bs') = unclaimed es bs @ unclaimed es' bs'"
  by (simp add: unclaimed_def)

lemma unclaimed_split:
  assumes "length es = length bs" and "unclaimed es bs = e # rest"
  shows "\<exists>as cs ab b cb. es = as @ e # cs \<and> bs = ab @ b # cb \<and> length as = length ab \<and>
    unclaimed as ab = [] \<and> b_execed b = 0 \<and> unclaimed cs cb = rest"
  using assms
proof (induction es bs rule: list_induct2)
  case (Cons x xs y ys)
  show ?case
  proof (cases "b_execed y = 0")
    case True
    with Cons.prems have "x # xs = [] @ e # xs \<and> y # ys = [] @ y # ys \<and> length [] = length [] \<and>
        unclaimed [] [] = [] \<and> b_execed y = 0 \<and> unclaimed xs ys = rest"
      by auto
    then show ?thesis by blast
  next
    case False
    with Cons obtain as cs ab b cb where "xs = as @ e # cs" "ys = ab @ b # cb" "length as = length ab"
      "unclaimed as ab = []" "b_execed b = 0" "unclaimed cs cb = rest"
      by auto
    with False have "x # xs = (x # as) @ e # cs \<and> y # ys = (y # ab) @ b # cb \<and>
        length (x # as) = length (y # ab) \<and> unclaimed (x # as) (y # ab) = [] \<and> b_execed b = 0 \<and>
        unclaimed cs cb = rest"
      by auto
    then show ?thesis by blast
  qed
qed simp

text \<open>The loop passes over taken batches and stops at the first free one.\<close>

lemma exec_loop_skip:
  assumes "seg (nodes m) p xs q" and "NULL \<notin> fst ` set xs" and "NULL \<notin> snd ` set xs"
    and "map (batches m) (map snd xs) = map Some bs" and "unclaimed (map snd xs) bs = []"
  shows "get_exec_loop m (first_node xs q) = get_exec_loop m q"
  using assms
proof (induction xs arbitrary: p bs)
  case (Cons x xs)
  obtain n e where x: "x = (n, e)" by (cases x)
  obtain b cs where bs: "bs = b # cs"
    using Cons.prems(4) by (cases bs) auto
  have b: "b_execed b \<noteq> 0" "batches m e = Some b" "n \<noteq> NULL" "e \<noteq> NULL"
    using Cons.prems x bs by (auto split: if_splits)
  with Cons.prems(1) x have "get_exec_loop m n = get_exec_loop m (first_node xs q)"
    by (subst get_exec_loop.simps) (auto simp: heap_defs get_batch_def fly_atomic_cas_def)
  also have "\<dots> = get_exec_loop m q"
    using Cons.prems x bs b by (intro Cons.IH [of n cs]) auto
  finally show ?case by (simp add: x)
qed simp

lemma exec_loop_end [simp]: "get_exec_loop m NULL = Some (NULL, m)"
  by (subst get_exec_loop.simps) simp

lemma exec_loop_take:
  assumes "get_el m n = Some e" and "n \<noteq> NULL" and "get_batch m e = Some b" and "b_execed b = 0"
  shows "get_exec_loop m n = Some (e, put_batch m e (b\<lparr>b_execed := 1\<rparr>))"
  using assms by (subst get_exec_loop.simps) (auto simp: fly_atomic_cas_def get_batch_def split: if_splits)

lemma get_exec_none:
  assumes "batch_rep job m0 m es bs" and "unclaimed es bs = []"
  shows "fly_get_exec_batch m job = Some (NULL, m)"
proof -
  note d = batch_repD [OF assms(1)]
  obtain xs where xs: "map snd xs = es" "dll (nodes m) job xs"
    using d(1) by (rule list_repE)
  with exec_loop_skip [of m NULL xs NULL bs] d(4,9) assms(2)
  have "get_exec_loop m (first_node xs NULL) = Some (NULL, m)"
    by (auto simp: dll_def)
  with dll_head [OF xs(2)] show ?thesis
    by (simp add: fly_get_exec_batch_def fly_list_head_def)
qed

lemma batch_rep_put:
  assumes "batch_rep job m0 m (as @ e # cs) (ab @ b # cb)" and "length as = length ab"
  shows "batch_rep job m0 (put_batch m e b') (as @ e # cs) (ab @ b' # cb)"
proof -
  note d = batch_repD [OF assms(1)]
  let ?B = "(batches m)(e \<mapsto> b')"
  have "list_rep job (m0\<lparr>batches := ?B\<rparr>) (m\<lparr>batches := ?B\<rparr>) (as @ e # cs)"
    using list_rep_batches [OF d(1), of ?B] by simp
  moreover have "map (batches m) as = map Some ab" "map (batches m) cs = map Some cb"
    using d(9) assms(2) by auto
  moreover have "e < brk m"
    using d(6) d(7) [of e] by (metis domIff not_less Un_iff in_set_conv_decomp)
  ultimately show ?thesis
    using d by (intro batch_repI) (auto simp: put_batch_def map_upd_notin)
qed

lemma get_exec_some:
  assumes "batch_rep job m0 m es bs" and "unclaimed es bs = e # rest"
  shows "\<exists>as cs ab b cb m'. es = as @ e # cs \<and> bs = ab @ b # cb \<and> length as = length ab \<and>
    m' = put_batch m e (b\<lparr>b_execed := 1\<rparr>) \<and> unclaimed as ab = [] \<and>
    fly_get_exec_batch m job = Some (e, m') \<and>
    batch_rep job m0 m' es (ab @ b\<lparr>b_execed := 1\<rparr> # cb) \<and>
    unclaimed es (ab @ b\<lparr>b_execed := 1\<rparr> # cb) = rest"
proof -
  note d = batch_repD [OF assms(1)]
  obtain as cs ab b cb where s: "es = as @ e # cs" "bs = ab @ b # cb" "length as = length ab"
    "unclaimed as ab = []" "b_execed b = 0" "unclaimed cs cb = rest"
    using unclaimed_split [OF batch_rep_length [OF assms(1)] assms(2)] by blast
  obtain xs where xs: "map snd xs = es" "dll (nodes m) job xs"
    using d(1) by (rule list_repE)
  obtain ys n zs where x: "xs = ys @ (n, e) # zs" "map snd ys = as"
    using xs(1) unfolding s(1) by (auto simp: map_eq_append_conv)
  have n: "get_el m n = Some e" "n \<noteq> NULL" "NULL \<notin> fst ` set ys" "seg (nodes m) NULL ys n"
    using dll_get_el [OF xs(2), of n e] xs(2) by (auto simp: x dll_def)
  have b: "map (batches m) as = map Some ab" "get_batch m e = Some b" "NULL \<notin> set as"
    using d(4,9) s(1-3) by (auto simp: get_batch_def)
  have "get_exec_loop m (first_node ys n) = get_exec_loop m n"
    using exec_loop_skip [OF n(4,3), of ab] b(1,3) s(4) x(2) by auto
  with exec_loop_take [OF n(1,2) b(2) s(5)] dll_head [OF xs(2)] x(1)
  have "fly_get_exec_batch m job = Some (e, put_batch m e (b\<lparr>b_execed := 1\<rparr>))"
    by (simp add: fly_get_exec_batch_def fly_list_head_def)
  with batch_rep_put [OF assms(1) [unfolded s(1,2)] s(3)] s show ?thesis
    by (intro exI [of _ as] exI [of _ cs] exI [of _ ab] exI [of _ b] exI [of _ cb] exI) auto
qed

text \<open>A thread, or several in turn, asking for a batch \<open>n\<close> times.\<close>

fun claim_run :: "'a job_mem_scheme \<Rightarrow> ptr \<Rightarrow> nat \<Rightarrow> (ptr list \<times> 'a job_mem_scheme) option" where
  "claim_run m job 0 = Some ([], m)"
| "claim_run m job (Suc n) = do {
     (b, m) \<leftarrow> fly_get_exec_batch m job;
     (bs, m) \<leftarrow> claim_run m job n;
     Some (b # bs, m)
   }"

lemma claim_run_unclaimed:
  assumes "batch_rep job m0 m es bs"
  shows "\<exists>m' bs'. claim_run m job n = Some
      (take n (unclaimed es bs) @ replicate (n - length (unclaimed es bs)) NULL, m') \<and>
    batch_rep job m0 m' es bs' \<and> unclaimed es bs' = drop n (unclaimed es bs)"
  using assms
proof (induction n arbitrary: m bs)
  case (Suc n)
  show ?case
  proof (cases "unclaimed es bs")
    case Nil
    with get_exec_none [OF Suc.prems Nil] Suc.IH [OF Suc.prems] show ?thesis by auto
  next
    case (Cons e rest)
    from get_exec_some [OF Suc.prems Cons] obtain m' bs1 where
      "fly_get_exec_batch m job = Some (e, m')" "batch_rep job m0 m' es bs1" "unclaimed es bs1 = rest"
      by blast
    with Suc.IH [of m' bs1] Cons show ?thesis by auto
  qed
qed auto

section \<open>The indices a job runs\<close>

definition batch_indices :: "fly_job_batch \<Rightarrow> int list" where
  "batch_indices b = [b_start b .. b_end b - 1]"

definition plan_indices :: "fly_job_batch list \<Rightarrow> int list" where
  "plan_indices bs = concat (map batch_indices bs)"

lemma plan_indices_simps [simp]:
  "plan_indices [] = []" "plan_indices (b # bs) = batch_indices b @ plan_indices bs"
  "plan_indices (bs @ cs) = plan_indices bs @ plan_indices cs"
  by (simp_all add: plan_indices_def)

lemma upto_join: "i \<le> j \<Longrightarrow> j \<le> k \<Longrightarrow> [i..j - 1] @ [j..k - 1] = [i..k - (1::int)]"
proof -
  assume a: "i \<le> j" "j \<le> k"
  show ?thesis
  proof (cases "j = k")
    case False
    with a have "[i..k - 1] = [i..j - 1] @ [j..k - 1]"
      by (intro upto_split1) auto
    then show ?thesis by simp
  qed simp
qed

lemma plan_indices_uniform:
  assumes "0 \<le> n" and "0 \<le> bsz"
  shows "plan_indices (map (plan_batch job js bsz) [0..n - 1]) = [js..js + n * bsz - 1]"
  using assms(1)
proof (induction n rule: int_ge_induct)
  case (step n)
  have "[0..n + 1 - 1] = [0..n - 1] @ [n]"
    using step(1) by (simp add: upto_rec2)
  then show ?case
    using step upto_join [of js "js + n * bsz" "js + n * bsz + bsz"] assms(2)
    by (simp add: batch_indices_def plan_batch_def distrib_right add.assoc)
qed simp

lemma unclaimed_all:
  assumes "length es = length bs" and "\<forall>b \<in> set bs. b_execed b = 0"
  shows "unclaimed es bs = es"
  using assms by (induction es bs rule: list_induct2) auto

lemma plan_unclaimed:
  assumes "0 < nb" and "length es = length (batch_plan job js count nb)"
  shows "unclaimed es (batch_plan job js count nb) = es"
proof (rule unclaimed_all [OF assms(2)])
  show "\<forall>b \<in> set (batch_plan job js count nb). b_execed b = 0"
    using map_upto_last [OF assms(1), of "plan_batch job js (batch_size count nb)"]
    by (auto simp: batch_plan_def Let_def plan_batch_def)
qed

lemma plan_job:
  assumes "0 < nb"
  shows "\<forall>b \<in> set (batch_plan job js count nb). b_job b = job"
  using map_upto_last [OF assms, of "plan_batch job js (batch_size count nb)"]
  by (auto simp: batch_plan_def Let_def plan_batch_def)

text \<open>Every index exactly once when there is work for every batch; past the end otherwise.\<close>

lemma plan_covers:
  assumes "0 < nb" and "0 \<le> count"
  shows "plan_indices (batch_plan job js count nb) = [js..js + max count nb - 1]"
proof -
  let ?bsz = "batch_size count nb"
  note b = batch_size_bounds [OF assms(2,1)]
  have all: "plan_indices (map (plan_batch job js ?bsz) [0..n - 1]) = [js..js + n * ?bsz - 1]" if "0 \<le> n" for n
    using plan_indices_uniform [OF that] b(1) by simp
  consider (extend) "nb < count" "count mod nb \<noteq> 0" | (even) "nb < count" "count mod nb = 0"
    | (few) "count \<le> nb" by linarith
  then show ?thesis
  proof cases
    case extend
    let ?r = "count mod nb" and ?l = "plan_batch job js ?bsz (nb - 1)"
    have plan: "batch_plan job js count nb =
        map (plan_batch job js ?bsz) [0..nb - 1 - 1] @ [?l\<lparr>b_end := b_end ?l + ?r\<rparr>]"
      using extend map_upto_last [OF assms(1), of "plan_batch job js ?bsz"]
      by (simp add: batch_plan_def Let_def)
    have e: "b_end ?l + ?r = js + count" "b_start ?l = js + (nb - 1) * ?bsz"
      using b(3) [OF extend(1)] by (simp_all add: plan_batch_def algebra_simps)
    have "0 \<le> ?r" "0 \<le> (nb - 1) * ?bsz" using assms(1) b(1) by auto
    moreover have "js + (nb - 1) * ?bsz \<le> js + count"
      using b(1,3) extend(1) \<open>0 \<le> ?r\<close> by (simp add: algebra_simps)
    ultimately show ?thesis
      using extend(1) all [of "nb - 1"] assms(1) upto_join [of js "js + (nb - 1) * ?bsz" "js + count"]
      unfolding plan by (simp add: batch_indices_def e max_def)
  next
    case even
    with b(3) all [of nb] assms(1) show ?thesis
      by (simp add: batch_plan_def max_def)
  next
    case few
    have "?bsz = 1"
    proof (cases "count = nb")
      case False
      with few assms have "count div nb = 0" by simp
      then show ?thesis by (simp add: batch_size_def)
    qed (use assms(1) in \<open>simp add: batch_size_def\<close>)
    with few all [of nb] assms(1) show ?thesis
      by (simp add: batch_plan_def max_def)
  qed
qed

section \<open>Creating and destroying a job\<close>

definition pfor_job :: "int \<Rightarrow> ptr \<Rightarrow> ptr \<Rightarrow> fly_job" where
  "pfor_job count func p = \<lparr>j_nbbatches = 0, j_batches_done = 0, j_func = PFor func, j_data = p,
     j_elsize = None, j_start = Some 0, j_end = Some count, j_jtype = FLY_TASK_PARALLEL_FOR,
     j_recurse = 0, j_state = FLY_JOB_IDLE, j_sem = 0\<rparr>"

lemma create_pfor_cases:
  assumes "job_mem_ok m"
  obtains (fail) "fly_create_job_pfor m count func p = (NULL, m\<lparr>brk := Suc (brk m)\<rparr>)"
      "\<not> (malloc_ok m (brk m) \<and> sem_ok m (brk m))"
    | (ok) m1 where "fly_create_job_pfor m count func p = (brk m, m1)" "job_mem_ok m1"
      "dll (nodes m1) (brk m) []" "get_job m1 (brk m) = Some (pfor_job count func p)"
      "m = m1\<lparr>brk := brk m, jobs := (jobs m1)(brk m := None), nodes := (nodes m1)(brk m := None)\<rparr>"
      "malloc_ok m1 = malloc_ok m"
proof (cases "malloc_ok m (brk m) \<and> sem_ok m (brk m)")
  case False
  with assms show ?thesis
    by (intro fail) (auto simp: fly_create_job_pfor_def fly_malloc_def)
next
  case True
  let ?m1 = "fly_list_init (put_job (m\<lparr>brk := Suc (brk m)\<rparr>) (brk m) (pfor_job count func p)) (brk m)"
  have k: "0 < brk m" "nodes m (brk m) = None" "jobs m (brk m) = None"
    using assms by (auto simp: job_mem_ok_def node_mem_ok_def domIff)
  show ?thesis
  proof (rule ok)
    show "fly_create_job_pfor m count func p = (brk m, ?m1)"
      using True k(1) by (simp add: fly_create_job_pfor_def fly_malloc_def pfor_job_def)
    show "job_mem_ok ?m1"
      using assms by (auto simp: job_mem_ok_def node_mem_ok_def fly_list_init_def put_node_def put_job_def)
    show "m = ?m1\<lparr>brk := brk m, jobs := (jobs ?m1)(brk m := None), nodes := (nodes ?m1)(brk m := None)\<rparr>"
      using k by (simp add: fly_list_init_def put_node_def put_job_def fun_upd_idem)
  qed (use k(1) dll_init in \<open>auto simp: fly_list_init_def put_node_def put_job_def get_job_def dll_def\<close>)
qed

lemma destroy_job_rep:
  assumes "batch_rep job m0 m es bs" and "dll (nodes m0) job []"
  shows "fly_destroy_job m job = Some (m0\<lparr>brk := brk m, jobs := (jobs m0)(job := None),
    nodes := (nodes m0)(job := None)\<rparr>)"
proof -
  have "get_job m0 job \<noteq> None" "job \<noteq> NULL"
    using batch_repD(2) [OF assms(1)] by (auto simp: get_job_def split: if_splits)
  with drop_batches_rep [OF assms] show ?thesis
    by (auto simp: fly_destroy_job_def fly_free_job_def)
qed

text \<open>
  A job from its creation to its destruction: created for \<open>count\<close> indices, split for
  \<open>nb\<close> workers, asked for a batch \<open>n\<close> times, destroyed.
\<close>

definition job_life :: "'a job_mem_scheme \<Rightarrow> int \<Rightarrow> ptr \<Rightarrow> ptr \<Rightarrow> int \<Rightarrow> nat \<Rightarrow> 'a job_mem_scheme option" where
  "job_life m count func p nb n = (case fly_create_job_pfor m count func p of (job, m) \<Rightarrow>
     if job = NULL then Some m
     else do {
       (err, m) \<leftarrow> fly_make_batches m job nb;
       (taken, m) \<leftarrow> claim_run m job n;
       fly_destroy_job m job
     })"

lemma job_life_restores:
  assumes "job_mem_ok m" and "batch_range_ok 0 count nb"
  shows "\<exists>b. job_life m count func p nb n = Some (m\<lparr>brk := b\<rparr>)"
proof (cases rule: create_pfor_cases [OF assms(1), of count func p])
  case 1
  then show ?thesis by (auto simp: job_life_def)
next
  case ok: (2 m1)
  let ?job = "brk m"
  have job: "?job \<noteq> NULL" using ok(4) by (auto simp: get_job_def split: if_splits)
  obtain err m2 where m2: "fly_make_batches m1 ?job nb = Some (err, m2)"
      "batches_made ?job nb m1 (err, m2)"
    using make_batches_runs [OF ok(2-4), of 0 count nb] assms(2) by (auto simp: pfor_job_def)
  have "\<exists>j b es bs. batch_rep ?job ((put_job m1 ?job j)\<lparr>brk := b\<rparr>) m2 es bs"
  proof (cases "err = 0")
    case True
    with m2(2) obtain j es bs where "batch_rep ?job (put_job m1 ?job j) m2 es bs"
      by (auto simp: batches_made_def Let_def)
    moreover have "(put_job m1 ?job j)\<lparr>brk := brk m1\<rparr> = put_job m1 ?job j" by (simp add: put_job_def)
    ultimately show ?thesis by metis
  next
    case False
    with m2(2) obtain j where m2': "m2 = (put_job m1 ?job j)\<lparr>brk := brk m2\<rparr>" "brk m1 \<le> brk m2"
      by (auto simp: batches_made_def Let_def)
    let ?m2 = "(put_job m1 ?job j)\<lparr>brk := brk m2\<rparr>"
    have "?job < brk m1"
      using ok(2) ok(3) by (auto simp: job_mem_ok_def node_mem_ok_def dll_def)
    then have "job_mem_ok ?m2" "dll (nodes ?m2) ?job []" "get_job ?m2 ?job \<noteq> None"
      using ok(2,3) m2'(2) job by (auto simp: job_mem_ok_def node_mem_ok_def put_job_def get_job_def)
    from batch_rep_start [OF this] m2'(1) have "batch_rep ?job ?m2 m2 [] []" by metis
    then show ?thesis by blast
  qed
  then obtain j b es bs where rep: "batch_rep ?job ((put_job m1 ?job j)\<lparr>brk := b\<rparr>) m2 es bs"
    by blast
  obtain taken m3 bs' where m3: "claim_run m2 ?job n = Some (taken, m3)"
      "batch_rep ?job ((put_job m1 ?job j)\<lparr>brk := b\<rparr>) m3 es bs'"
    using claim_run_unclaimed [OF rep, of n] by blast
  have "fly_destroy_job m3 ?job = Some (m\<lparr>brk := brk m3\<rparr>)"
    using destroy_job_rep [OF m3(2)] ok(3) by (subst ok(5)) (simp add: put_job_def)
  with ok(1) job m2(1) m3(1) show ?thesis
    by (auto simp: job_life_def)
qed

section \<open>A job among the other lists of the heap\<close>

lemma batch_rep_alone:
  assumes "lists_rep m E" and "E job = Some es" and "job_mem_ok m" and "get_job m job \<noteq> None"
    and "distinct es" and "NULL \<notin> set es" and "map (batches m) es = map Some bs"
  shows "\<exists>h. batch_rep job (m\<lparr>nodes := h, batches := batches m |` (- set es)\<rparr>) m es bs \<and>
    dll h job [] \<and> lists_rep (m\<lparr>nodes := h\<rparr>) (E(job \<mapsto> []))"
proof -
  obtain h where h: "list_rep job (m\<lparr>nodes := h\<rparr>) m es" "dll h job []" "lists_rep (m\<lparr>nodes := h\<rparr>) (E(job \<mapsto> []))"
    using lists_rep_alone [OF assms(1,2)] by blast
  have sub: "set es \<subseteq> dom (batches m)"
  proof
    fix e assume "e \<in> set es"
    then have "batches m e \<in> set (map Some bs)" using assms(7) by (metis image_eqI set_map)
    then show "e \<in> dom (batches m)" by auto
  qed
  have "batch_rep job (m\<lparr>nodes := h, batches := batches m |` (- set es)\<rparr>) m es bs"
  proof (rule batch_repI)
    have "(m\<lparr>nodes := h, batches := batches m |` (- set es)\<rparr>)\<lparr>batches := batches m\<rparr> = m\<lparr>nodes := h\<rparr>" by simp
    with h(1) show "list_rep job ((m\<lparr>nodes := h, batches := batches m |` (- set es)\<rparr>)\<lparr>batches := batches m\<rparr>) m es"
      by simp
  qed (use assms(3-7) sub in \<open>auto simp: get_job_def job_mem_ok_def restrict_map_def split: if_splits\<close>)
  with h show ?thesis by blast
qed

lemma drop_batches_alone:
  assumes "lists_rep m E" and "E job = Some es" and "job_mem_ok m" and "get_job m job \<noteq> None"
    and "distinct es" and "NULL \<notin> set es" and "map (batches m) es = map Some bs"
  shows "\<exists>h. job_drop_batches m job = Some (m\<lparr>nodes := h, batches := batches m |` (- set es)\<rparr>) \<and>
    lists_rep (m\<lparr>nodes := h\<rparr>) (E(job \<mapsto> []))"
proof -
  obtain h where h: "batch_rep job (m\<lparr>nodes := h, batches := batches m |` (- set es)\<rparr>) m es bs"
    "dll h job []" "lists_rep (m\<lparr>nodes := h\<rparr>) (E(job \<mapsto> []))"
    using batch_rep_alone [OF assms] by blast
  with drop_batches_rep [OF h(1)] show ?thesis by (intro exI [of _ h]) simp
qed

section \<open>Properties\<close>

text \<open>Heaps with one job, at address 1, and an allocator that always succeeds.\<close>

definition one_job :: "int \<Rightarrow> int \<Rightarrow> job_mem" where
  "one_job js je = \<lparr>brk = 2, malloc_ok = \<lambda>_. True,
     nodes = [1 \<mapsto> \<lparr>l_next = NULL, l_prev = NULL, l_el = NULL\<rparr>],
     jobs = [1 \<mapsto> (pfor_job je 50 60)\<lparr>j_start := Some js\<rparr>],
     batches = Map.empty, tasks = Map.empty, sem_ok = \<lambda>_. True\<rparr>"

lemma one_job_ok: "job_mem_ok (one_job js je)" "dll (nodes (one_job js je)) 1 []"
  "get_job (one_job js je) 1 = Some ((pfor_job je 50 60)\<lparr>j_start := Some js\<rparr>)"
  by (simp_all add: one_job_def job_mem_ok_def node_mem_ok_def dll_def get_job_def)

text \<open>
  C17. \<^verbatim>\<open>fly_make_batches\<close>, for a range and a worker count that overflow no \<open>int\<close>: it
  always returns.  Either every allocation was granted, and the job is ready with exactly the
  planned batches in its list, each with its bounds, none taken; or it answers
  \<^verbatim>\<open>FLYENORES\<close> with the job idle again and every batch and list node it made given back.
\<close>

theorem make_batches_plan:
  assumes "job_mem_ok m" and "dll (nodes m) job []" and "get_job m job = Some j"
    and "j_start j = Some js" and "j_end j = Some je" and "batch_range_ok js je nb"
  shows "\<exists>err m'. fly_make_batches m job nb = Some (err, m') \<and> batches_made job nb m (err, m') \<and>
    ((\<forall>p. malloc_ok m p) \<longrightarrow> err = fly_err FLYESUCCESS)"
  using assms by (rule make_batches_runs)

theorem make_batches_plan_witness:
  "\<exists>m'. fly_make_batches (one_job 0 10) 1 3 = Some (0, m') \<and>
    batches_made 1 3 (one_job 0 10) (0, m')"
proof -
  have "batch_range_ok 0 10 3" "\<forall>p. malloc_ok (one_job 0 10) p"
    by (simp_all add: batch_range_ok_def c_ok_iff one_job_def)
  with make_batches_plan [OF one_job_ok, of 0 10 0 10 3] show ?thesis
    by (auto simp: pfor_job_def)
qed

text \<open>
  C18. The batches split the job's range when there is at least one index for every worker: read
  in list order their indices are exactly \<open>start, ..., end - 1\<close>, so each index belongs to one
  batch and to no other.
\<close>

theorem make_batches_partitions_range:
  assumes "job_mem_ok m" and "dll (nodes m) job []" and "get_job m job = Some j"
    and "j_start j = Some js" and "j_end j = Some je" and "batch_range_ok js je nb"
    and "nb \<le> je - js" and "fly_make_batches m job nb = Some (fly_err FLYESUCCESS, m')"
  shows "\<exists>m0 es bs. batch_rep job m0 m' es bs \<and> length bs = nat nb \<and>
    plan_indices bs = [js..je - 1] \<and> unclaimed es bs = es"
proof -
  obtain m0 es where rep: "batch_rep job m0 m' es (batch_plan job js (je - js) nb)"
    using make_batches_runs [OF assms(1-6)] assms(3-5,8) by (fastforce simp: batches_made_def)
  have "0 < nb" "0 \<le> je - js" using assms(6) by (auto simp: batch_range_ok_def)
  with plan_covers [OF this, of job js] assms(7) rep plan_length [of nb job js "je - js"]
    plan_unclaimed [OF _ batch_rep_length [OF rep]]
  show ?thesis by (intro exI [of _ m0] exI [of _ es] exI [of _ "batch_plan job js (je - js) nb"]) auto
qed

theorem make_batches_partitions_range_witness:
  "\<exists>m' m0 es bs. fly_make_batches (one_job 0 10) 1 3 = Some (0, m') \<and> batch_rep 1 m0 m' es bs \<and>
    length bs = 3 \<and> plan_indices bs = [0..9]"
proof -
  have r: "batch_range_ok 0 10 3" "\<forall>p. malloc_ok (one_job 0 10) p"
    by (simp_all add: batch_range_ok_def c_ok_iff one_job_def)
  with make_batches_runs [OF one_job_ok, of 0 10 0 10 3] obtain m' where
    "fly_make_batches (one_job 0 10) 1 3 = Some (0, m')" by (auto simp: pfor_job_def)
  with make_batches_partitions_range [OF one_job_ok, of 0 10 0 10 3 m'] r(1) show ?thesis
    by (fastforce simp: pfor_job_def)
qed

text \<open>
  C39. With fewer indices than workers \<^verbatim>\<open>fly_make_batches\<close> still makes one batch of size
  one per worker, so the job runs \<open>nb\<close> indices, past its own \<open>end\<close>: the caller's function
  is called for indices it never asked for (and, for an array job, past the array).
\<close>

theorem make_batches_overruns_range:
  assumes "job_mem_ok m" and "dll (nodes m) job []" and "get_job m job = Some j"
    and "j_start j = Some js" and "j_end j = Some je" and "batch_range_ok js je nb"
    and "je - js < nb" and "fly_make_batches m job nb = Some (fly_err FLYESUCCESS, m')"
  shows "\<exists>m0 es bs. batch_rep job m0 m' es bs \<and> plan_indices bs = [js..js + nb - 1] \<and>
    js + nb - 1 \<in> set (plan_indices bs) \<and> je \<le> js + nb - 1"
proof -
  obtain m0 es where rep: "batch_rep job m0 m' es (batch_plan job js (je - js) nb)"
    using make_batches_runs [OF assms(1-6)] assms(3-5,8) by (fastforce simp: batches_made_def)
  have "0 < nb" "0 \<le> je - js" using assms(6) by (auto simp: batch_range_ok_def)
  with plan_covers [OF this, of job js] assms(7) rep show ?thesis
    by (intro exI [of _ m0] exI [of _ es] exI [of _ "batch_plan job js (je - js) nb"]) auto
qed

theorem make_batches_overruns_range_witness:
  "\<exists>m' m0 es bs. fly_make_batches (one_job 0 2) 1 4 = Some (0, m') \<and> batch_rep 1 m0 m' es bs \<and>
    plan_indices bs = [0, 1, 2, 3]"
proof -
  have r: "batch_range_ok 0 2 4" "\<forall>p. malloc_ok (one_job 0 2) p"
    by (simp_all add: batch_range_ok_def c_ok_iff one_job_def)
  with make_batches_runs [OF one_job_ok, of 0 2 0 2 4] obtain m' where
    "fly_make_batches (one_job 0 2) 1 4 = Some (0, m')" by (auto simp: pfor_job_def)
  moreover have "[0..3] = [0, 1, 2, 3::int]" by (simp add: upto.simps)
  ultimately show ?thesis
    using make_batches_overruns_range [OF one_job_ok, of 0 2 0 2 4 m'] r(1)
    by (fastforce simp: pfor_job_def)
qed

text \<open>
  With no workers the split divides by zero: \<^verbatim>\<open>fly_make_batches\<close> has no defined
  result for any job that has a range.
\<close>

theorem make_batches_no_workers: "fly_make_batches m job 0 = None"
  by (simp add: fly_make_batches_def c_quot_def)

text \<open>
  C21. Batches are taken in list order and each one once: however often threads ask a job for a
  batch, the answers are the batches that were free, in order and without repetition, then null
  for ever; the batches given out are those no longer free.
\<close>

theorem batches_claimed_once:
  assumes "batch_rep job m0 m es bs"
  shows "\<exists>m' bs'. claim_run m job n = Some
      (take n (unclaimed es bs) @ replicate (n - length (unclaimed es bs)) NULL, m') \<and>
    batch_rep job m0 m' es bs' \<and> unclaimed es bs' = drop n (unclaimed es bs)"
  using assms by (rule claim_run_unclaimed)

definition two_batches :: job_mem where
  "two_batches = (one_job 0 10)\<lparr>brk := 6, nodes := [1 \<mapsto> \<lparr>l_next = 3, l_prev = 5, l_el = NULL\<rparr>,
       3 \<mapsto> \<lparr>l_next = 5, l_prev = NULL, l_el = 2\<rparr>, 5 \<mapsto> \<lparr>l_next = NULL, l_prev = 3, l_el = 4\<rparr>],
     batches := [2 \<mapsto> plan_batch 1 0 5 0, 4 \<mapsto> plan_batch 1 0 5 1]\<rparr>"

lemma two_batches_rep: "batch_rep 1 (one_job 0 10) two_batches [2, 4] [plan_batch 1 0 5 0, plan_batch 1 0 5 1]"
proof (rule batch_repI)
  let ?m0 = "(one_job 0 10)\<lparr>batches := batches two_batches\<rparr>"
  have "two_batches = ?m0\<lparr>brk := brk two_batches, nodes := nodes two_batches\<rparr>"
    by (simp add: two_batches_def one_job_def)
  then have 1: "\<exists>b h. two_batches = ?m0\<lparr>brk := b, nodes := h\<rparr>" by blast
  have 2: "dll (nodes two_batches) 1 [(3, 2), (5, 4)]"
    by (simp add: two_batches_def dll_def)
  have 3: "node_mem_ok two_batches" "1 \<in> dom (nodes ?m0)"
    by (simp_all add: two_batches_def one_job_def node_mem_ok_def)
  have 4: "map snd [(3, 2), (5, 4)] = [2, 4::nat]"
    "fst ` set [(3, 2::nat), (5, 4)] \<inter> dom (nodes ?m0) = {}"
    "dom (nodes two_batches) = dom (nodes ?m0) \<union> fst ` set [(3, 2::nat), (5, 4)]"
    by (simp_all add: two_batches_def one_job_def insert_commute)
  have 5: "eq_off (footprint 1 [(3, 2), (5, 4)]) (nodes ?m0) (nodes two_batches)"
    by (simp add: two_batches_def one_job_def eq_off_def footprint_def)
  show "list_rep 1 ?m0 two_batches [2, 4]"
    unfolding list_rep_def
    by (intro conjI exI [of _ "[(3, 2), (5, 4)]"]) (rule 1 2 3 4 5)+
qed (simp_all add: two_batches_def one_job_def get_job_def insert_commute)

theorem batches_claimed_once_witness:
  "\<exists>m'. claim_run two_batches 1 4 = Some ([2, 4, NULL, NULL], m')"
  using batches_claimed_once [OF two_batches_rep, of 4]
  by (auto simp: plan_batch_def numeral_nat)

text \<open>
  C22. A job leaks nothing: created, split (with success or without), asked for batches any number
  of times and destroyed, it leaves every heap exactly as it found it, whatever the allocator and
  the semaphore initialisation answered on the way.
\<close>

theorem job_life_leaks_nothing:
  assumes "job_mem_ok m" and "batch_range_ok 0 count nb"
  shows "\<exists>b. job_life m count func p nb n = Some (m\<lparr>brk := b\<rparr>)"
  using assms by (rule job_life_restores)

theorem job_life_leaks_nothing_witness:
  "\<exists>b. job_life (one_job 0 10) 7 50 60 2 3 = Some ((one_job 0 10)\<lparr>brk := b\<rparr>)"
  by (rule job_life_leaks_nothing) (simp_all add: one_job_ok batch_range_ok_def c_ok_iff)

end
