(* ===== verification/Fly_Mrswlock.thy ===== *)
theory Fly_Mrswlock
  imports Fly_Thread
begin

text \<open>
  \<^verbatim>\<open>src/fly_mrswlock.h\<close>: the multiple-readers single-writer lock that guards the
  scheduler's job lists.

  The counters are only accessed between \<^verbatim>\<open>pthread_mutex_lock(&lock->plock)\<close> and its
  unlock, so each such critical section is one function on the lock (\<open>rlock_cs\<close>, \<open>wlock_cs\<close>,
  \<open>runlock_cs\<close>, \<open>wunlock_cs\<close>) and one atomic step.  Posting and waiting on the two semaphores
  happens outside the mutex and is a step of its own.  \<open>lock_step\<close> is the interleaving of any
  number of threads that call the four operations over and over; the \<open>notrack\<close> functions are the
  calls of one thread that no other thread interferes with.  The calls always return 1; their result is
  left out.
\<close>

section \<open>The lock\<close>

record fly_mrswlock =
  rsem :: nat
  wsem :: nat
  nbin :: int
  nbrwaiting :: int
  nbwwaiting :: int
  maxin :: int

definition fly_mrswlock_init :: "int \<Rightarrow> int \<times> fly_mrswlock" where
  "fly_mrswlock_init m =
     (0, \<lparr>rsem = 0, wsem = 0, nbin = 0, nbrwaiting = 0, nbwwaiting = 0, maxin = m\<rparr>)"

text \<open>
  What the locals of \<^verbatim>\<open>fly_mrswlock_notrack_rlock\<close> are after the critical section:
  the lock was taken; the loop goes round again with \<open>wakewriters\<close> set; or the thread has
  registered as waiting and now posts \<open>wsem\<close> (\<open>Wake\<close>) or waits on \<open>rsem\<close> (\<open>Sleep\<close>).
\<close>

datatype rstep = Got | Again | Wake | Sleep

definition rlock_cs :: "bool \<Rightarrow> bool \<Rightarrow> fly_mrswlock \<Rightarrow> rstep \<times> fly_mrswlock" where
  "rlock_cs waiting wakewriters l =
     (if nbin l < maxin l \<and> \<not> wakewriters then
        (if nbwwaiting l = 0 then
           (Got, l\<lparr>nbin := nbin l + 1,
                   nbrwaiting := (if waiting then nbrwaiting l - 1 else nbrwaiting l)\<rparr>)
         else (Again, l))
      else
        (if wakewriters then Wake else Sleep,
         l\<lparr>nbrwaiting := (if waiting then nbrwaiting l else nbrwaiting l + 1)\<rparr>))"

definition wlock_cs :: "bool \<Rightarrow> fly_mrswlock \<Rightarrow> bool \<times> fly_mrswlock" where
  "wlock_cs waiting l =
     (if nbin l = 0 then
        (True, l\<lparr>nbin := maxin l,
                 nbwwaiting := (if waiting then nbwwaiting l - 1 else nbwwaiting l)\<rparr>)
      else (False, l\<lparr>nbwwaiting := (if waiting then nbwwaiting l else nbwwaiting l + 1)\<rparr>))"

text \<open>The unlocks return the two counters they read; \<open>unlock_post\<close> is what follows the mutex.\<close>

definition runlock_cs :: "fly_mrswlock \<Rightarrow> (int \<times> int) \<times> fly_mrswlock" where
  "runlock_cs l = ((nbwwaiting l, nbrwaiting l), l\<lparr>nbin := nbin l - 1\<rparr>)"

definition wunlock_cs :: "fly_mrswlock \<Rightarrow> (int \<times> int) \<times> fly_mrswlock" where
  "wunlock_cs l = ((nbwwaiting l, nbrwaiting l), l\<lparr>nbin := 0\<rparr>)"

definition unlock_post :: "int \<times> int \<Rightarrow> fly_mrswlock \<Rightarrow> fly_mrswlock" where
  "unlock_post c l = (case c of (nw, nr) \<Rightarrow>
     if nw > 0 then l\<lparr>wsem := Suc (wsem l)\<rparr>
     else if nr > 0 then l\<lparr>rsem := Suc (rsem l)\<rparr> else l)"

section \<open>Calls without interference\<close>

text \<open>
  The whole calls as one thread runs them alone.  A wait on a semaphore at 0, or a loop that
  never ends, is \<open>None\<close>: the call does not return until another thread acts.
\<close>

partial_function (option) rlock_loop :: "bool \<Rightarrow> bool \<Rightarrow> fly_mrswlock \<Rightarrow> fly_mrswlock option" where
  "rlock_loop waiting wakewriters l =
     (case rlock_cs waiting wakewriters l of
        (Got, l) \<Rightarrow> Some l
      | (Again, l) \<Rightarrow> rlock_loop waiting True l
      | (Wake, l) \<Rightarrow> rlock_loop True False (l\<lparr>wsem := Suc (wsem l)\<rparr>)
      | (Sleep, l) \<Rightarrow>
          (if rsem l = 0 then None else rlock_loop True False (l\<lparr>rsem := rsem l - 1\<rparr>)))"

partial_function (option) wlock_loop :: "bool \<Rightarrow> fly_mrswlock \<Rightarrow> fly_mrswlock option" where
  "wlock_loop waiting l =
     (case wlock_cs waiting l of (hasit, l) \<Rightarrow>
        if hasit then Some l
        else if wsem l = 0 then None else wlock_loop True (l\<lparr>wsem := wsem l - 1\<rparr>))"

definition fly_mrswlock_notrack_rlock :: "fly_mrswlock \<Rightarrow> fly_mrswlock option" where
  "fly_mrswlock_notrack_rlock l = rlock_loop False False l"

definition fly_mrswlock_notrack_wlock :: "fly_mrswlock \<Rightarrow> fly_mrswlock option" where
  "fly_mrswlock_notrack_wlock l = wlock_loop False l"

definition fly_mrswlock_rlock :: "fly_mrswlock \<Rightarrow> fly_thread \<Rightarrow> (fly_mrswlock \<times> fly_thread) option" where
  "fly_mrswlock_rlock l th = do {
     let th = th\<lparr>t_state := FLY_THREAD_SLEEP\<rparr>;
     l \<leftarrow> fly_mrswlock_notrack_rlock l;
     Some (l, th\<lparr>t_state := FLY_THREAD_RUNNING\<rparr>)
   }"

definition fly_mrswlock_wlock :: "fly_mrswlock \<Rightarrow> fly_thread \<Rightarrow> (fly_mrswlock \<times> fly_thread) option" where
  "fly_mrswlock_wlock l th = do {
     let th = th\<lparr>t_state := FLY_THREAD_SLEEP\<rparr>;
     l \<leftarrow> fly_mrswlock_notrack_wlock l;
     Some (l, th\<lparr>t_state := FLY_THREAD_RUNNING\<rparr>)
   }"

definition fly_mrswlock_runlock :: "fly_mrswlock \<Rightarrow> fly_mrswlock" where
  "fly_mrswlock_runlock l = (case runlock_cs l of (c, l) \<Rightarrow> unlock_post c l)"

definition fly_mrswlock_wunlock :: "fly_mrswlock \<Rightarrow> fly_mrswlock" where
  "fly_mrswlock_wunlock l = (case wunlock_cs l of (c, l) \<Rightarrow> unlock_post c l)"

section \<open>Any number of threads\<close>

text \<open>
  Where a thread stands: outside; before a critical section of the read lock, with its locals
  \<open>waiting\<close> and \<open>wakewriters\<close>; about to post \<open>wsem\<close>; waiting on \<open>rsem\<close>; reading; and the same
  for writing.  \<open>Posting\<close> is the end of an unlock, with the counters it read.
\<close>

datatype lpc = Out | RTry bool bool | RWake | RSleep | RIn
  | WTry bool | WSleep | WIn | Posting int int

record lsys =
  lk :: fly_mrswlock
  pcs :: "nat \<Rightarrow> lpc"

definition rnext :: "bool \<Rightarrow> bool \<Rightarrow> rstep \<Rightarrow> lpc" where
  "rnext waiting wakewriters r =
     (case r of Got \<Rightarrow> RIn | Again \<Rightarrow> RTry waiting True | Wake \<Rightarrow> RWake | Sleep \<Rightarrow> RSleep)"

inductive lock_step :: "lsys \<Rightarrow> lsys \<Rightarrow> bool" where
  call_rlock: "pcs s t = Out \<Longrightarrow> lock_step s (s\<lparr>pcs := (pcs s)(t := RTry False False)\<rparr>)"
| call_wlock: "pcs s t = Out \<Longrightarrow> lock_step s (s\<lparr>pcs := (pcs s)(t := WTry False)\<rparr>)"
| rlock: "pcs s t = RTry w k \<Longrightarrow> rlock_cs w k (lk s) = (r, l) \<Longrightarrow>
    lock_step s \<lparr>lk = l, pcs = (pcs s)(t := rnext w k r)\<rparr>"
| rwake: "pcs s t = RWake \<Longrightarrow>
    lock_step s \<lparr>lk = (lk s)\<lparr>wsem := Suc (wsem (lk s))\<rparr>, pcs = (pcs s)(t := RTry True False)\<rparr>"
| rsleep: "pcs s t = RSleep \<Longrightarrow> rsem (lk s) = Suc n \<Longrightarrow>
    lock_step s \<lparr>lk = (lk s)\<lparr>rsem := n\<rparr>, pcs = (pcs s)(t := RTry True False)\<rparr>"
| wlock: "pcs s t = WTry w \<Longrightarrow> wlock_cs w (lk s) = (g, l) \<Longrightarrow>
    lock_step s \<lparr>lk = l, pcs = (pcs s)(t := if g then WIn else WSleep)\<rparr>"
| wsleep: "pcs s t = WSleep \<Longrightarrow> wsem (lk s) = Suc n \<Longrightarrow>
    lock_step s \<lparr>lk = (lk s)\<lparr>wsem := n\<rparr>, pcs = (pcs s)(t := WTry True)\<rparr>"
| runlock: "pcs s t = RIn \<Longrightarrow> runlock_cs (lk s) = ((nw, nr), l) \<Longrightarrow>
    lock_step s \<lparr>lk = l, pcs = (pcs s)(t := Posting nw nr)\<rparr>"
| wunlock: "pcs s t = WIn \<Longrightarrow> wunlock_cs (lk s) = ((nw, nr), l) \<Longrightarrow>
    lock_step s \<lparr>lk = l, pcs = (pcs s)(t := Posting nw nr)\<rparr>"
| posting: "pcs s t = Posting nw nr \<Longrightarrow>
    lock_step s \<lparr>lk = unlock_post (nw, nr) (lk s), pcs = (pcs s)(t := Out)\<rparr>"

definition lock_init :: "int \<Rightarrow> lsys \<Rightarrow> bool" where
  "lock_init m s \<longleftrightarrow> s = \<lparr>lk = snd (fly_mrswlock_init m), pcs = \<lambda>_. Out\<rparr>"

section \<open>The invariant\<close>

fun is_rwait :: "lpc \<Rightarrow> bool" where
  "is_rwait (RTry w _) = w"
| "is_rwait RWake = True"
| "is_rwait RSleep = True"
| "is_rwait _ = False"

fun is_wwait :: "lpc \<Rightarrow> bool" where
  "is_wwait (WTry w) = w"
| "is_wwait WSleep = True"
| "is_wwait _ = False"

text \<open>Threads that will post \<open>wsem\<close>, or take the lock, without being woken.\<close>

fun serves_writers :: "lpc \<Rightarrow> bool" where
  "serves_writers (WTry _) = True"
| "serves_writers (RTry _ _) = True"
| "serves_writers RWake = True"
| "serves_writers (Posting nw nr) = (nw > 0)"
| "serves_writers _ = False"

fun serves_readers :: "lpc \<Rightarrow> bool" where
  "serves_readers (RTry _ _) = True"
| "serves_readers RWake = True"
| "serves_readers (Posting nw nr) = (nw \<le> 0 \<and> nr > 0)"
| "serves_readers _ = False"

definition finite_support :: "(nat \<Rightarrow> lpc) \<Rightarrow> bool" where
  "finite_support f \<longleftrightarrow> finite {t. f t \<noteq> Out}"

text \<open>Who is in, and that the counters count.\<close>

definition excl_inv :: "int \<Rightarrow> lsys \<Rightarrow> bool" where
  "excl_inv m s \<longleftrightarrow>
     0 < m \<and> maxin (lk s) = m \<and> finite_support (pcs s) \<and>
     nbrwaiting (lk s) = pc_count is_rwait (pcs s) \<and>
     nbwwaiting (lk s) = pc_count is_wwait (pcs s) \<and>
     (pc_count ((=) WIn) (pcs s) = 0 \<and> nbin (lk s) = pc_count ((=) RIn) (pcs s) \<and> nbin (lk s) \<le> m \<or>
      pc_count ((=) WIn) (pcs s) = 1 \<and> nbin (lk s) = m \<and> pc_count ((=) RIn) (pcs s) = 0)"

text \<open>While the lock is free, a sleeping writer (reader) has a post under way.\<close>

definition wlive_inv :: "lsys \<Rightarrow> bool" where
  "wlive_inv s \<longleftrightarrow>
     (nbin (lk s) = 0 \<and> 0 < pc_count ((=) WSleep) (pcs s) \<longrightarrow>
        0 < wsem (lk s) \<or> 0 < pc_count serves_writers (pcs s))"

definition rlive_inv :: "lsys \<Rightarrow> bool" where
  "rlive_inv s \<longleftrightarrow>
     (nbin (lk s) = 0 \<and> 0 < pc_count ((=) RSleep) (pcs s) \<longrightarrow>
        0 < rsem (lk s) \<or> 0 < pc_count is_wwait (pcs s) \<or> 0 < pc_count serves_readers (pcs s))"

definition lock_inv :: "int \<Rightarrow> lsys \<Rightarrow> bool" where
  "lock_inv m s \<longleftrightarrow> excl_inv m s \<and> wlive_inv s \<and> rlive_inv s"

lemmas inv_defs = lock_inv_def excl_inv_def wlive_inv_def rlive_inv_def

lemma count_finite: "finite_support f \<Longrightarrow> \<not> P Out \<Longrightarrow> finite {t. P (f t)}"
  unfolding finite_support_def by (erule rev_finite_subset) auto

lemmas count_nonneg = pc_count_nonneg

lemma count_none [simp]: "\<not> P Out \<Longrightarrow> pc_count P (\<lambda>_. Out) = 0"
  by (simp add: pc_count_def)

lemma finite_support_upd [simp]: "finite_support (f(t := x)) = finite_support f"
proof
  show "finite_support (f(t := x))" if "finite_support f"
    using finite_moved [of f Out t x] that unfolding finite_support_def .
  show "finite_support f" if "finite_support (f(t := x))"
    using finite_moved [of "f(t := x)" Out t "f t"] that
    unfolding finite_support_def fun_upd_upd fun_upd_triv .
qed

lemma count_upd:
  "finite_support f \<Longrightarrow> \<not> P Out \<Longrightarrow>
    pc_count P (f(t := x)) = pc_count P f - of_bool (P (f t)) + of_bool (P x)"
  by (rule pc_count_upd) (rule count_finite)

lemma count_pos: "finite_support f \<Longrightarrow> \<not> P Out \<Longrightarrow> P (f t) \<Longrightarrow> 0 < pc_count P f"
  unfolding pc_count_def by (auto simp: card_gt_0_iff count_finite)

lemma count_mono: "finite_support f \<Longrightarrow> \<not> Q Out \<Longrightarrow> (\<And>p. P p \<Longrightarrow> Q p) \<Longrightarrow> pc_count P f \<le> pc_count Q f"
  unfolding pc_count_def by (auto intro!: card_mono count_finite)

lemma count_ex: "0 < pc_count P f \<longleftrightarrow> finite {t. P (f t)} \<and> (\<exists>t. P (f t))"
  by (auto simp: pc_count_def card_gt_0_iff)

lemma lock_inv_init: "0 < m \<Longrightarrow> lock_init m s \<Longrightarrow> lock_inv m s"
  by (simp add: inv_defs lock_init_def fly_mrswlock_init_def finite_support_def)

text \<open>One lemma per kind of step: the thread \<open>t\<close> moves from its place \<open>p\<close> to \<open>q\<close>.\<close>

lemma lock_inv_counts:
  assumes "lock_inv m s" and "pcs s t = p"
  shows "is_rwait p \<Longrightarrow> 0 < pc_count is_rwait (pcs s)"
    and "is_wwait p \<Longrightarrow> 0 < pc_count is_wwait (pcs s)"
    and "p = RIn \<Longrightarrow> 0 < pc_count ((=) RIn) (pcs s)"
    and "p = WIn \<Longrightarrow> 0 < pc_count ((=) WIn) (pcs s)"
    and "pc_count ((=) WSleep) (pcs s) \<le> pc_count is_wwait (pcs s)"
    and "pc_count ((=) RSleep) (pcs s) \<le> pc_count is_rwait (pcs s)"
    and "0 \<le> pc_count ((=) RIn) (pcs s)" and "0 \<le> pc_count is_wwait (pcs s)"
    and "0 \<le> pc_count serves_writers (pcs s)" and "0 \<le> pc_count serves_readers (pcs s)"
proof -
  have f: "finite_support (pcs s)" using assms(1) by (simp add: inv_defs)
  show "is_rwait p \<Longrightarrow> 0 < pc_count is_rwait (pcs s)"
    and "is_wwait p \<Longrightarrow> 0 < pc_count is_wwait (pcs s)"
    and "p = RIn \<Longrightarrow> 0 < pc_count ((=) RIn) (pcs s)"
    and "p = WIn \<Longrightarrow> 0 < pc_count ((=) WIn) (pcs s)"
    using assms(2) by (auto intro!: count_pos [OF f, where t = t])
  show "pc_count ((=) WSleep) (pcs s) \<le> pc_count is_wwait (pcs s)"
    and "pc_count ((=) RSleep) (pcs s) \<le> pc_count is_rwait (pcs s)"
    by (auto intro!: count_mono [OF f])
qed (rule count_nonneg)+

lemma live_invI: "nbin (lk s) \<noteq> 0 \<Longrightarrow> wlive_inv s \<and> rlive_inv s"
  by (simp add: wlive_inv_def rlive_inv_def)

lemma inv_rlock:
  assumes "lock_inv m s" and "pcs s t = RTry w k" and "rlock_cs w k (lk s) = (r, l)"
  shows "lock_inv m \<lparr>lk = l, pcs = (pcs s)(t := rnext w k r)\<rparr>"
proof -
  note c = lock_inv_counts [OF assms(1,2)]
  have e: "excl_inv m s" and wl: "wlive_inv s" and rl: "rlive_inv s"
    using assms(1) by (simp_all add: lock_inv_def)
  show ?thesis
  proof (cases r)
    case Got
    with assms(2,3) e c(1,7) have "excl_inv m \<lparr>lk = l, pcs = (pcs s)(t := rnext w k r)\<rparr>"
      by (cases w) (auto simp: excl_inv_def count_upd rnext_def rlock_cs_def split: if_splits)
    moreover from Got assms(3) e c(7) have "nbin l \<noteq> 0"
      by (auto simp: excl_inv_def rlock_cs_def split: if_splits)
    ultimately show ?thesis by (simp add: lock_inv_def live_invI)
  next
    case Again
    with assms(3) have l: "l = lk s" "k = False" "nbwwaiting l \<noteq> 0"
      by (auto simp: rlock_cs_def split: if_splits)
    from Again assms(2) e wl rl l c(10) show ?thesis
      by (simp add: inv_defs count_upd rnext_def)
  next
    case Wake
    with assms(3) have l: "k" "nbin l = nbin (lk s)" "wsem l = wsem (lk s)" "rsem l = rsem (lk s)"
      "nbwwaiting l = nbwwaiting (lk s)" "maxin l = maxin (lk s)"
      "nbrwaiting l = nbrwaiting (lk s) + of_bool (\<not> w)"
      by (auto simp: rlock_cs_def split: if_splits)
    from Wake assms(2) e wl rl l c(1,9,10) show ?thesis
      by (cases w) (simp_all add: inv_defs count_upd rnext_def)
  next
    case Sleep
    with assms(3) have l: "maxin l \<le> nbin l" "nbin l = nbin (lk s)" "maxin l = maxin (lk s)"
      "nbwwaiting l = nbwwaiting (lk s)" "nbrwaiting l = nbrwaiting (lk s) + of_bool (\<not> w)"
      by (auto simp: rlock_cs_def split: if_splits)
    with Sleep assms(2) e c(1) have "excl_inv m \<lparr>lk = l, pcs = (pcs s)(t := rnext w k r)\<rparr>"
      by (cases w) (simp_all add: excl_inv_def count_upd rnext_def)
    moreover from l e have "nbin l \<noteq> 0" by (auto simp: excl_inv_def)
    ultimately show ?thesis by (simp add: lock_inv_def live_invI)
  qed
qed

lemma inv_wlock:
  assumes "lock_inv m s" and "pcs s t = WTry w" and "wlock_cs w (lk s) = (g, l)"
  shows "lock_inv m \<lparr>lk = l, pcs = (pcs s)(t := if g then WIn else WSleep)\<rparr>"
proof -
  note c = lock_inv_counts [OF assms(1,2)]
  have e: "excl_inv m s" using assms(1) by (simp add: lock_inv_def)
  have "excl_inv m \<lparr>lk = l, pcs = (pcs s)(t := if g then WIn else WSleep)\<rparr>"
  proof (cases g)
    case True
    with assms(2,3) e c(2,7) show ?thesis
      by (cases w) (auto simp: excl_inv_def count_upd wlock_cs_def split: if_splits)
  next
    case False
    with assms(2,3) e c(2) show ?thesis
      by (cases w) (auto simp: excl_inv_def count_upd wlock_cs_def split: if_splits)
  qed
  moreover have "nbin l \<noteq> 0"
    using assms(3) e by (auto simp: wlock_cs_def excl_inv_def split: if_splits)
  ultimately show ?thesis by (simp add: lock_inv_def live_invI)
qed

lemma inv_runlock:
  assumes "lock_inv m s" and "pcs s t = RIn" and "runlock_cs (lk s) = ((nw, nr), l)"
  shows "lock_inv m \<lparr>lk = l, pcs = (pcs s)(t := Posting nw nr)\<rparr>"
proof -
  let ?s = "\<lparr>lk = l, pcs = (pcs s)(t := Posting nw nr)\<rparr>"
  note c = lock_inv_counts [OF assms(1,2)]
  have e: "excl_inv m s" and f: "finite_support (pcs s)"
    using assms(1) by (simp_all add: inv_defs)
  have l: "nw = pc_count is_wwait (pcs s)" "nr = pc_count is_rwait (pcs s)"
    "l = (lk s)\<lparr>nbin := nbin (lk s) - 1\<rparr>"
    using assms(3) e by (auto simp: runlock_cs_def excl_inv_def)
  have "excl_inv m ?s"
    using assms(2) e l c(3) by (auto simp: excl_inv_def count_upd)
  moreover have "wlive_inv ?s"
    using assms(2) f l(1) c(5,9) by (simp add: wlive_inv_def count_upd)
  moreover have "rlive_inv ?s"
    using assms(2) e f l c(6,8,10) by (simp add: rlive_inv_def count_upd excl_inv_def)
  ultimately show ?thesis by (simp add: lock_inv_def)
qed

lemma inv_wunlock:
  assumes "lock_inv m s" and "pcs s t = WIn" and "wunlock_cs (lk s) = ((nw, nr), l)"
  shows "lock_inv m \<lparr>lk = l, pcs = (pcs s)(t := Posting nw nr)\<rparr>"
proof -
  let ?s = "\<lparr>lk = l, pcs = (pcs s)(t := Posting nw nr)\<rparr>"
  note c = lock_inv_counts [OF assms(1,2)]
  have e: "excl_inv m s" and f: "finite_support (pcs s)"
    using assms(1) by (simp_all add: inv_defs)
  have l: "nw = pc_count is_wwait (pcs s)" "nr = pc_count is_rwait (pcs s)" "l = (lk s)\<lparr>nbin := 0\<rparr>"
    using assms(3) e by (auto simp: wunlock_cs_def excl_inv_def)
  have "excl_inv m ?s"
    using assms(2) e l c(4) by (auto simp: excl_inv_def count_upd)
  moreover have "wlive_inv ?s"
    using assms(2) f l(1) c(5,9) by (simp add: wlive_inv_def count_upd)
  moreover have "rlive_inv ?s"
    using assms(2) e f l c(6,8,10) by (simp add: rlive_inv_def count_upd excl_inv_def)
  ultimately show ?thesis by (simp add: lock_inv_def)
qed

lemma inv_posting:
  assumes "lock_inv m s" and "pcs s t = Posting nw nr"
  shows "lock_inv m \<lparr>lk = unlock_post (nw, nr) (lk s), pcs = (pcs s)(t := Out)\<rparr>"
proof -
  note c = lock_inv_counts [OF assms]
  have e: "excl_inv m s" and wl: "wlive_inv s" and rl: "rlive_inv s" and f: "finite_support (pcs s)"
    using assms(1) by (simp_all add: inv_defs)
  consider "0 < nw" | "nw \<le> 0" "0 < nr" | "nw \<le> 0" "nr \<le> 0" by linarith
  then show ?thesis
  proof cases
    case 1
    with assms(2) e rl f show ?thesis
      by (simp add: inv_defs count_upd unlock_post_def)
  next
    case 2
    with assms(2) e wl f show ?thesis
      by (simp add: inv_defs count_upd unlock_post_def)
  next
    case 3
    with assms(2) e wl rl f show ?thesis
      by (simp add: inv_defs count_upd unlock_post_def)
  qed
qed

lemma inv_rwake:
  assumes "lock_inv m s" and "pcs s t = RWake"
  shows "lock_inv m \<lparr>lk = (lk s)\<lparr>wsem := Suc (wsem (lk s))\<rparr>, pcs = (pcs s)(t := RTry True False)\<rparr>"
  using assms by (simp add: inv_defs count_upd)

lemma inv_rsleep:
  assumes "lock_inv m s" and "pcs s t = RSleep"
  shows "lock_inv m \<lparr>lk = (lk s)\<lparr>rsem := n\<rparr>, pcs = (pcs s)(t := RTry True False)\<rparr>"
  using assms lock_inv_counts(9,10) [OF assms] by (simp add: inv_defs count_upd)

lemma inv_wsleep:
  assumes "lock_inv m s" and "pcs s t = WSleep"
  shows "lock_inv m \<lparr>lk = (lk s)\<lparr>wsem := n\<rparr>, pcs = (pcs s)(t := WTry True)\<rparr>"
  using assms lock_inv_counts(9,10) [OF assms] by (simp add: inv_defs count_upd)

lemma inv_call:
  assumes "lock_inv m s" and "pcs s t = Out" and "q = RTry False False \<or> q = WTry False"
  shows "lock_inv m (s\<lparr>pcs := (pcs s)(t := q)\<rparr>)"
  using assms(1,2,3) lock_inv_counts(9,10) [OF assms(1,2)] by (elim disjE) (simp_all add: inv_defs count_upd)

lemma lock_inv_step: "lock_step s s' \<Longrightarrow> lock_inv m s \<Longrightarrow> lock_inv m s'"
  by (induction rule: lock_step.induct)
    (blast intro: inv_rlock inv_wlock inv_runlock inv_wunlock inv_posting inv_rwake inv_rsleep
      inv_wsleep inv_call)+

interpretation mrsw: invariant_system "\<lambda>s. 0 < m \<and> lock_init m s" lock_step "lock_inv m" for m :: int
  by unfold_locales (auto intro: lock_inv_init lock_inv_step)

lemma no_pc_count: "lock_inv m s \<Longrightarrow> \<not> P Out \<Longrightarrow> pc_count P (pcs s) \<le> 0 \<longleftrightarrow> (\<forall>u. \<not> P (pcs s u))"
  using count_ex [of P "pcs s"] count_finite [of "pcs s" P] by (auto simp: inv_defs not_less)

lemma lock_inv_excl:
  assumes "lock_inv m s" and "pcs s t = WIn"
  shows "pcs s u \<noteq> RIn" and "pcs s u = WIn \<Longrightarrow> u = t"
proof -
  have one: "pc_count ((=) WIn) (pcs s) = 1" "pc_count ((=) RIn) (pcs s) = 0"
    using lock_inv_counts(4) [OF assms] assms(1) by (auto simp: inv_defs)
  then show "pcs s u \<noteq> RIn"
    using no_pc_count [OF assms(1), of "(=) RIn"] by (metis lpc.distinct(7) order_refl)
  from one(1) obtain v where "{t. WIn = pcs s t} = {v}"
    by (auto simp: pc_count_def card_1_singleton_iff)
  then have v: "WIn = pcs s x \<longleftrightarrow> x = v" for x by (simp add: set_eq_iff)
  show "pcs s u = WIn \<Longrightarrow> u = t"
    using v [of u] v [of t] assms(2) by metis
qed

text \<open>A thread whose next step is possible whatever the others do.\<close>

lemma active_step:
  assumes "serves_writers (pcs s u) \<or> serves_readers (pcs s u)"
  shows "pcs s u \<notin> {Out, RIn, WIn} \<and> (\<exists>s'. lock_step s s' \<and> pcs s' u \<noteq> pcs s u)"
proof (cases "pcs s u")
  case (RTry w k)
  obtain r l where "rlock_cs w k (lk s) = (r, l)" by fastforce
  moreover from this have "rnext w k r \<noteq> RTry w k"
    by (auto simp: rnext_def rlock_cs_def split: if_splits)
  ultimately show ?thesis using RTry lock_step.rlock [OF RTry] by fastforce
next
  case RWake
  then show ?thesis using lock_step.rwake [OF RWake] by fastforce
next
  case (WTry w)
  obtain g l where "wlock_cs w (lk s) = (g, l)" by fastforce
  from lock_step.wlock [OF WTry this] WTry show ?thesis
    by (intro conjI exI [of _ "\<lparr>lk = l, pcs = (pcs s)(u := if g then WIn else WSleep)\<rparr>"]) simp_all
next
  case (Posting nw nr)
  then show ?thesis using lock_step.posting [OF Posting] by fastforce
qed (use assms in auto)

lemma sem_step:
  assumes "pcs s u = WSleep \<and> 0 < wsem (lk s) \<or> pcs s u = RSleep \<and> 0 < rsem (lk s)"
  shows "pcs s u \<notin> {Out, RIn, WIn} \<and> (\<exists>s'. lock_step s s' \<and> pcs s' u \<noteq> pcs s u)"
  using assms
proof
  assume a: "pcs s u = WSleep \<and> 0 < wsem (lk s)"
  then obtain n where "wsem (lk s) = Suc n" by (cases "wsem (lk s)") auto
  with a lock_step.wsleep [of s u n] show ?thesis by fastforce
next
  assume a: "pcs s u = RSleep \<and> 0 < rsem (lk s)"
  then obtain n where "rsem (lk s) = Suc n" by (cases "rsem (lk s)") auto
  with a lock_step.rsleep [of s u n] show ?thesis by fastforce
qed

lemma writer_progress:
  assumes "lock_inv m s" and "nbin (lk s) = 0" and "is_wwait (pcs s t)"
  shows "\<exists>u s'. pcs s u \<notin> {Out, RIn, WIn} \<and> lock_step s s' \<and> pcs s' u \<noteq> pcs s u"
proof (cases "pcs s t")
  case (WTry w)
  then have "serves_writers (pcs s t)" by simp
  with active_step [of s t] show ?thesis by blast
next
  case WSleep
  then have "0 < pc_count ((=) WSleep) (pcs s)"
    using assms(1) by (intro count_pos [where t = t]) (simp_all add: inv_defs)
  with assms(1,2) consider "0 < wsem (lk s)" | "0 < pc_count serves_writers (pcs s)"
    by (auto simp: inv_defs)
  then show ?thesis
  proof cases
    case 1
    with WSleep sem_step [of s t] show ?thesis by blast
  next
    case 2
    then obtain u where "serves_writers (pcs s u)" by (auto simp: count_ex)
    with active_step [of s u] show ?thesis by blast
  qed
qed (use assms in auto)

lemma reader_progress:
  assumes "lock_inv m s" and "nbin (lk s) = 0" and "pcs s t = RSleep"
  shows "\<exists>u s'. pcs s u \<notin> {Out, RIn, WIn} \<and> lock_step s s' \<and> pcs s' u \<noteq> pcs s u"
proof -
  have "0 < pc_count ((=) RSleep) (pcs s)"
    using assms by (intro count_pos [where t = t]) (simp_all add: inv_defs)
  with assms(1,2) consider "0 < rsem (lk s)" | "0 < pc_count is_wwait (pcs s)"
    | "0 < pc_count serves_readers (pcs s)" by (auto simp: inv_defs)
  then show ?thesis
  proof cases
    case 1
    with assms(3) sem_step [of s t] show ?thesis by blast
  next
    case 2
    then obtain u where "is_wwait (pcs s u)" by (auto simp: count_ex)
    with writer_progress [OF assms(1,2)] show ?thesis by blast
  next
    case 3
    then obtain u where "serves_readers (pcs s u)" by (auto simp: count_ex)
    with active_step [of s u] show ?thesis by blast
  qed
qed

lemma no_holder_free:
  assumes "lock_inv m s" and "\<And>u. pcs s u \<noteq> RIn \<and> pcs s u \<noteq> WIn"
  shows "nbin (lk s) = 0"
proof -
  have "pc_count P (pcs s) = 0" if "P = (=) RIn \<or> P = (=) WIn" for P
  proof -
    have "pc_count P (pcs s) \<le> 0"
      using that assms(2) no_pc_count [OF assms(1), of P] by (metis lpc.distinct(7,13))
    with count_nonneg [of P "pcs s"] show ?thesis by simp
  qed
  then have "pc_count ((=) RIn) (pcs s) = 0" "pc_count ((=) WIn) (pcs s) = 0" by blast+
  with assms(1) show ?thesis by (simp add: inv_defs)
qed

text \<open>The calls of a thread that nothing interferes with, on a free lock.\<close>

definition lock_free :: "fly_mrswlock \<Rightarrow> bool" where
  "lock_free l \<longleftrightarrow> nbin l = 0 \<and> nbrwaiting l = 0 \<and> nbwwaiting l = 0 \<and> 0 < maxin l"

lemma wlock_free: "nbin l = 0 \<Longrightarrow> fly_mrswlock_notrack_wlock l = Some (l\<lparr>nbin := maxin l\<rparr>)"
  by (simp add: fly_mrswlock_notrack_wlock_def wlock_loop.simps wlock_cs_def)

lemma rlock_free:
  "nbin l < maxin l \<Longrightarrow> nbwwaiting l = 0 \<Longrightarrow>
    fly_mrswlock_notrack_rlock l = Some (l\<lparr>nbin := nbin l + 1\<rparr>)"
  by (simp add: fly_mrswlock_notrack_rlock_def rlock_loop.simps rlock_cs_def)

section \<open>The contract of a section under a lock\<close>

text \<open>
  What the scheduler relies on when it runs a piece of code between taking and releasing a lock
  that is free: taking it succeeds, and releasing it gives the free lock back.
\<close>

locale lock_section =
  fixes free :: "'l \<Rightarrow> bool"
    and acquire :: "'l \<Rightarrow> 'l option"
    and release :: "'l \<Rightarrow> 'l"
  assumes acquire_release: "free l \<Longrightarrow> \<exists>l'. acquire l = Some l' \<and> release l' = l"
begin

lemma acquire_Some: "free l \<Longrightarrow> \<exists>l'. acquire l = Some l'"
  by (auto dest: acquire_release)

lemma run_section: "free l \<Longrightarrow> Option.bind (acquire l) (\<lambda>l. f (release l)) = f l"
  by (auto dest: acquire_release)

end

interpretation wsection: lock_section lock_free fly_mrswlock_notrack_wlock fly_mrswlock_wunlock
  by unfold_locales
    (simp add: lock_free_def wlock_free fly_mrswlock_wunlock_def wunlock_cs_def unlock_post_def)

interpretation rsection: lock_section lock_free fly_mrswlock_notrack_rlock fly_mrswlock_runlock
  by unfold_locales
    (simp add: lock_free_def rlock_free fly_mrswlock_runlock_def runlock_cs_def unlock_post_def)

section \<open>Properties\<close>

text \<open>
  C19. Mutual exclusion. With any number of threads taking and releasing the lock in any
  interleaving, a writer is inside alone (no other writer and no reader), there are never more
  than \<open>maxin\<close> readers inside, and \<open>nbin\<close> says exactly who is in.
\<close>

theorem mrswlock_exclusion:
  assumes "reach (\<lambda>s. 0 < m \<and> lock_init m s) lock_step s"
  shows "(\<forall>t u. pcs s t = WIn \<longrightarrow> pcs s u \<noteq> RIn \<and> (pcs s u = WIn \<longrightarrow> u = t)) \<and>
    int (card {t. pcs s t = RIn}) \<le> m \<and>
    nbin (lk s) = (if \<exists>t. pcs s t = WIn then m else int (card {t. pcs s t = RIn}))"
proof -
  have inv: "lock_inv m s" using assms by (rule mrsw.reach_inv)
  have card: "pc_count ((=) RIn) (pcs s) = int (card {t. pcs s t = RIn})"
    by (simp add: pc_count_def eq_commute)
  have "(\<exists>t. pcs s t = WIn) \<longleftrightarrow> 0 < pc_count ((=) WIn) (pcs s)"
    using no_pc_count [OF inv, of "(=) WIn"] by (metis lpc.distinct(13) not_le)
  with inv lock_inv_excl [OF inv] card show ?thesis
    by (auto simp: inv_defs)
qed

definition writing :: lsys where
  "writing = \<lparr>lk = \<lparr>rsem = 0, wsem = 0, nbin = 256, nbrwaiting = 0, nbwwaiting = 0, maxin = 256\<rparr>,
     pcs = (\<lambda>_. Out)(7 := WIn)\<rparr>"

lemma reach_writing: "reach (\<lambda>s. 0 < (256::int) \<and> lock_init 256 s) lock_step writing"
proof -
  let ?s = "\<lparr>lk = snd (fly_mrswlock_init 256), pcs = \<lambda>_. Out\<rparr>"
  have "reach (\<lambda>s. 0 < (256::int) \<and> lock_init 256 s) lock_step ?s"
    by (rule reach_init) (simp add: lock_init_def)
  then have "reach (\<lambda>s. 0 < (256::int) \<and> lock_init 256 s) lock_step
      (?s\<lparr>pcs := (pcs ?s)(7 := WTry False)\<rparr>)" (is "reach _ _ ?t")
    by (rule reach_step) (rule call_wlock, simp)
  then show ?thesis
  proof (rule reach_step)
    show "lock_step ?t writing"
      using lock_step.wlock [of ?t 7 False True "lk writing"]
      by (simp add: writing_def wlock_cs_def fly_mrswlock_init_def)
  qed
qed

theorem mrswlock_exclusion_witness:
  "pcs writing 7 = WIn \<and> pcs writing 8 \<noteq> RIn \<and> int (card {t. pcs writing t = RIn}) \<le> 256 \<and>
    nbin (lk writing) = 256"
proof -
  have "pcs writing 7 = WIn" by (simp add: writing_def)
  with mrswlock_exclusion [OF reach_writing] show ?thesis by auto
qed

text \<open>
  C20. No wakeup is lost. In every reachable state in which a thread waits on one of the two
  semaphores while no thread is inside the lock, some thread that is in the middle of a lock or
  unlock call can take its next step; so the waiting threads are never all stuck.
\<close>

theorem mrswlock_no_lost_wakeup:
  assumes "reach (\<lambda>s. 0 < m \<and> lock_init m s) lock_step s"
    and "pcs s t = RSleep \<or> pcs s t = WSleep"
    and "\<And>u. pcs s u \<noteq> RIn \<and> pcs s u \<noteq> WIn"
  shows "\<exists>u s'. pcs s u \<notin> {Out, RIn, WIn} \<and> lock_step s s' \<and> pcs s' u \<noteq> pcs s u"
proof -
  have inv: "lock_inv m s" using assms(1) by (rule mrsw.reach_inv)
  note free = no_holder_free [OF inv assms(3)]
  from assms(2) show ?thesis
  proof
    assume "pcs s t = RSleep"
    then show ?thesis by (rule reader_progress [OF inv free])
  next
    assume "pcs s t = WSleep"
    then show ?thesis by (intro writer_progress [OF inv free, of t]) simp
  qed
qed

text \<open>A second writer has gone to sleep and the first one is between its mutex and its post.\<close>

definition handing_over :: lsys where
  "handing_over =
     \<lparr>lk = \<lparr>rsem = 0, wsem = 0, nbin = 0, nbrwaiting = 0, nbwwaiting = 1, maxin = 256\<rparr>,
      pcs = (\<lambda>_. Out)(7 := Posting 1 0, 8 := WSleep)\<rparr>"

lemma reach_handing_over: "reach (\<lambda>s. 0 < (256::int) \<and> lock_init 256 s) lock_step handing_over"
proof -
  let ?a = "writing\<lparr>pcs := (pcs writing)(8 := WTry False)\<rparr>"
  let ?b = "\<lparr>lk = (lk writing)\<lparr>nbwwaiting := 1\<rparr>, pcs = (pcs ?a)(8 := WSleep)\<rparr>"
  have "lock_step writing ?a"
    by (rule call_wlock) (simp add: writing_def)
  moreover have "lock_step ?a ?b"
    using lock_step.wlock [of ?a 8 False False "lk ?b"] by (simp add: writing_def wlock_cs_def)
  moreover have "lock_step ?b handing_over"
    using lock_step.wunlock [of ?b 7 1 0 "lk handing_over"]
    by (simp add: writing_def handing_over_def wunlock_cs_def fun_upd_twist)
  ultimately show ?thesis
    by (blast intro: reach_step reach_writing)
qed

theorem mrswlock_no_lost_wakeup_witness:
  "pcs handing_over 8 = WSleep \<and> (\<exists>u s'. pcs handing_over u \<notin> {Out, RIn, WIn} \<and>
    lock_step handing_over s' \<and> pcs s' u \<noteq> pcs handing_over u)"
proof -
  have "pcs handing_over 8 = WSleep" "\<And>u. pcs handing_over u \<noteq> RIn \<and> pcs handing_over u \<noteq> WIn"
    by (simp_all add: handing_over_def)
  with mrswlock_no_lost_wakeup [OF reach_handing_over, of 8] show ?thesis by blast
qed

text \<open>
  Writers go first. In every reachable state, a step that lets a reader in is taken only
  when no writer is waiting (registered in \<open>nbwwaiting\<close>), no writer is inside, and fewer than
  \<open>maxin\<close> readers are.
\<close>

theorem mrswlock_writer_preference:
  assumes "reach (\<lambda>s. 0 < m \<and> lock_init m s) lock_step s" and "lock_step s s'"
    and "pcs s t \<noteq> RIn" and "pcs s' t = RIn"
  shows "(\<forall>u. \<not> is_wwait (pcs s u) \<and> pcs s u \<noteq> WIn) \<and> int (card {u. pcs s u = RIn}) < m"
proof -
  have inv: "lock_inv m s" using assms(1) by (rule mrsw.reach_inv)
  from assms(2-4) obtain w k l where "pcs s t = RTry w k" "rlock_cs w k (lk s) = (Got, l)"
    by cases (auto simp: rnext_def split: if_splits rstep.splits)
  then have "nbin (lk s) < maxin (lk s)" "nbwwaiting (lk s) = 0"
    by (auto simp: rlock_cs_def split: if_splits)
  with inv have none: "pc_count is_wwait (pcs s) \<le> 0" "pc_count ((=) WIn) (pcs s) \<le> 0"
    and "pc_count ((=) RIn) (pcs s) < m" by (auto simp: inv_defs)
  moreover from this(3) have "int (card {u. pcs s u = RIn}) < m"
    by (simp add: pc_count_def eq_commute)
  moreover have "\<forall>u. \<not> is_wwait (pcs s u)"
    using no_pc_count [OF inv, of is_wwait] none(1) by simp
  moreover have "\<forall>u. WIn \<noteq> pcs s u"
    using no_pc_count [OF inv, of "(=) WIn"] none(2) by simp
  ultimately show ?thesis by metis
qed

definition asking :: lsys where
  "asking = \<lparr>lk = snd (fly_mrswlock_init 256), pcs = (\<lambda>_. Out)(3 := RTry False False)\<rparr>"

definition reading :: lsys where
  "reading = \<lparr>lk = (lk asking)\<lparr>nbin := 1\<rparr>, pcs = (\<lambda>_. Out)(3 := RIn)\<rparr>"

lemma reach_asking: "reach (\<lambda>s. 0 < (256::int) \<and> lock_init 256 s) lock_step asking"
proof (rule reach_step)
  show "reach (\<lambda>s. 0 < (256::int) \<and> lock_init 256 s) lock_step
      \<lparr>lk = snd (fly_mrswlock_init 256), pcs = \<lambda>_. Out\<rparr>"
    by (rule reach_init) (simp add: lock_init_def)
  show "lock_step \<lparr>lk = snd (fly_mrswlock_init 256), pcs = \<lambda>_. Out\<rparr> asking"
    using call_rlock [of "\<lparr>lk = snd (fly_mrswlock_init 256), pcs = \<lambda>_. Out\<rparr>" 3]
    by (simp add: asking_def)
qed

theorem mrswlock_writer_preference_witness:
  "lock_step asking reading \<and> pcs asking 3 \<noteq> RIn \<and> pcs reading 3 = RIn \<and>
    (\<forall>u. \<not> is_wwait (pcs asking u) \<and> pcs asking u \<noteq> WIn) \<and>
    int (card {u. pcs asking u = RIn}) < 256"
proof -
  have st: "lock_step asking reading"
    using lock_step.rlock [of asking 3 False False Got "lk reading"]
    by (simp add: asking_def reading_def rlock_cs_def rnext_def fly_mrswlock_init_def)
  have p: "pcs asking 3 \<noteq> RIn" "pcs reading 3 = RIn"
    by (simp_all add: asking_def reading_def)
  from mrswlock_writer_preference [OF reach_asking st p] st p show ?thesis by blast
qed

end
