(* ===== verification/Fly_Worker.thy ===== *)
theory Fly_Worker
  imports Fly_Thread
begin

text \<open>
  \<^verbatim>\<open>src/fly_worker.h\<close> and \<^verbatim>\<open>src/fly_worker.c\<close>: a worker and its two threads, the main
  one and the one that takes over while the main one is blocked in the client's code.

  First the operations as one thread calls them, over the operating system of \<open>Fly_Thread\<close>.
  Then \<open>worker_step\<close>, the interleaving of one worker thread (\<^verbatim>\<open>fly_worker_thread_func\<close>) with
  the thread that starts it, asks it to exit and joins it.
\<close>

unbundle bit_operations_syntax

section \<open>Workers and their threads\<close>

definition FLY_WORKER_IDLE :: int where "FLY_WORKER_IDLE = 0"
definition FLY_WORKER_RUNNING :: int where "FLY_WORKER_RUNNING = 1"
definition FLY_WORKER_EXITING :: int where "FLY_WORKER_EXITING = 2"
definition FLY_WORKER_FINISHED :: int where "FLY_WORKER_FINISHED = 3"

lemmas tstate_defs = FLY_WORKER_IDLE_def FLY_WORKER_RUNNING_def FLY_WORKER_EXITING_def
  FLY_WORKER_FINISHED_def

record fly_worker_thread =
  wt_thread :: fly_thread
  wt_sem :: fly_sem
  wt_parent :: ptr
  wt_tstate :: int
  wt_active :: int

record fly_worker =
  mthread :: fly_worker_thread
  bthread :: fly_worker_thread
  mblocked :: int
  bblocked :: int

definition fly_worker_thread_wait_work :: "fly_worker_thread \<Rightarrow> fly_worker_thread option" where
  "fly_worker_thread_wait_work t = do {
     (_, sem, th) \<leftarrow> fly_sem_wait (wt_sem t) (wt_thread t);
     Some (t\<lparr>wt_sem := sem, wt_thread := th\<rparr>)
   }"

definition fly_worker_thread_is_me :: "nat \<Rightarrow> fly_worker_thread \<Rightarrow> bool" where
  "fly_worker_thread_is_me self t = fly_thread_is_me self (wt_thread t)"

definition fly_worker_thread_work_available :: "fly_worker_thread \<Rightarrow> fly_worker_thread" where
  "fly_worker_thread_work_available t = t\<lparr>wt_sem := snd (fly_sem_post (wt_sem t))\<rparr>"

text \<open>\<open>self\<close> is the address of the worker thread, \<open>func\<close> that of \<^verbatim>\<open>fly_worker_thread_func\<close>.\<close>

definition fly_worker_thread_init ::
  "os \<Rightarrow> ptr \<Rightarrow> ptr \<Rightarrow> fly_worker_thread \<Rightarrow> (int \<times> fly_worker_thread \<times> os) option" where
  "fly_worker_thread_init s func self t = do {
     (err, th, s) \<leftarrow> fly_thread_init s (wt_thread t) func self;
     let t = t\<lparr>wt_thread := th\<rparr>;
     (if \<not> FLY_SUCCEEDED err then Some (err, t, s)
      else (case fly_sem_init s of (err, sem, s) \<Rightarrow> do {
        s \<leftarrow> (if \<not> FLY_SUCCEEDED err
              then do { (_, s) \<leftarrow> fly_thread_uninit s th; Some s } else Some s);
        Some (err, t\<lparr>wt_sem := sem, wt_tstate := FLY_WORKER_IDLE\<rparr>, s)
      }))
   }"

text \<open>Destroying the semaphore changes nothing that the model keeps.\<close>

definition fly_worker_thread_uninit :: "os \<Rightarrow> fly_worker_thread \<Rightarrow> os option" where
  "fly_worker_thread_uninit s t = do { (_, s) \<leftarrow> fly_thread_uninit s (wt_thread t); Some s }"

definition fly_worker_thread_start ::
  "os \<Rightarrow> fly_worker_thread \<Rightarrow> (int \<times> fly_worker_thread \<times> os) option" where
  "fly_worker_thread_start s t = do {
     (ret, th, s) \<leftarrow> fly_thread_start s (wt_thread t);
     let t = t\<lparr>wt_thread := th\<rparr>;
     Some (ret, if FLY_SUCCEEDED ret then t\<lparr>wt_tstate := FLY_WORKER_RUNNING\<rparr> else t, s)
   }"

definition fly_worker_thread_request_exit :: "fly_worker_thread \<Rightarrow> int \<times> fly_worker_thread" where
  "fly_worker_thread_request_exit t =
     (case fly_sem_post (wt_sem t) of (err, sem) \<Rightarrow>
       (err, t\<lparr>wt_tstate := FLY_WORKER_EXITING, wt_sem := sem\<rparr>))"

definition fly_worker_thread_wait :: "os \<Rightarrow> fly_worker_thread \<Rightarrow> (int \<times> os) option" where
  "fly_worker_thread_wait s t = fly_thread_wait s (wt_thread t)"

text \<open>What \<^verbatim>\<open>memset\<close> leaves; no thread has the all-zero \<^verbatim>\<open>pthread_t\<close>.\<close>

definition zero_worker_thread :: fly_worker_thread where
  "zero_worker_thread =
     \<lparr>wt_thread = \<lparr>t_pthread = None, t_attr = NULL, t_func = NULL, t_param = NULL, t_state = 0,
        t_tid = 0, t_fd = 0\<rparr>,
      wt_sem = 0, wt_parent = NULL, wt_tstate = 0, wt_active = 0\<rparr>"

definition zero_worker :: fly_worker where
  "zero_worker = \<lparr>mthread = zero_worker_thread, bthread = zero_worker_thread, mblocked = 0, bblocked = 0\<rparr>"

text \<open>\<open>self\<close> is the worker's address, which is also its first member's; \<open>baddr\<close> is \<^verbatim>\<open>&worker->bthread\<close>.\<close>

definition fly_worker_init ::
  "os \<Rightarrow> ptr \<Rightarrow> ptr \<Rightarrow> ptr \<Rightarrow> (int \<times> fly_worker \<times> os) option" where
  "fly_worker_init s func self baddr = do {
     let w = zero_worker\<lparr>mblocked := 0, bblocked := 0\<rparr>;
     (err, mt, s) \<leftarrow> fly_worker_thread_init s func self ((mthread w)\<lparr>wt_parent := self\<rparr>);
     let w = w\<lparr>mthread := mt\<rparr>;
     (if \<not> FLY_SUCCEEDED err then Some (err, w, s)
      else do {
        (err, bt, s) \<leftarrow> fly_worker_thread_init s func baddr ((bthread w)\<lparr>wt_parent := self\<rparr>);
        let w = w\<lparr>bthread := bt\<rparr>;
        s \<leftarrow> (if \<not> FLY_SUCCEEDED err then fly_worker_thread_uninit s (mthread w) else Some s);
        Some (err, w, s)
      })
   }"

definition fly_worker_request_exit :: "fly_worker \<Rightarrow> fly_worker" where
  "fly_worker_request_exit w =
     w\<lparr>mthread := snd (fly_worker_thread_request_exit (mthread w)),
       bthread := snd (fly_worker_thread_request_exit (bthread w))\<rparr>"

definition fly_worker_wait :: "os \<Rightarrow> fly_worker \<Rightarrow> (int \<times> os) option" where
  "fly_worker_wait s w = do {
     (err, s) \<leftarrow> fly_worker_thread_wait s (mthread w);
     (err', s) \<leftarrow> fly_worker_thread_wait s (bthread w);
     Some (err OR err', s)
   }"

definition fly_worker_uninit :: "os \<Rightarrow> fly_worker \<Rightarrow> (int \<times> fly_worker \<times> os) option" where
  "fly_worker_uninit s w = do {
     let w = fly_worker_request_exit w;
     (err, s) \<leftarrow> fly_worker_wait s w;
     s \<leftarrow> (if FLY_SUCCEEDED err then do {
             s \<leftarrow> fly_worker_thread_uninit s (mthread w);
             fly_worker_thread_uninit s (bthread w)
           } else Some s);
     Some (err, w, s)
   }"

definition fly_worker_start :: "os \<Rightarrow> fly_worker \<Rightarrow> (int \<times> fly_worker \<times> os) option" where
  "fly_worker_start s w = do {
     (ret, mt, s) \<leftarrow> fly_worker_thread_start s (mthread w);
     let w = w\<lparr>mthread := mt\<rparr>;
     (if FLY_SUCCEEDED ret then do {
        (ret, bt, s) \<leftarrow> fly_worker_thread_start s (bthread w);
        Some (ret, w\<lparr>bthread := bt\<rparr>, s)
      } else Some (ret, w, s))
   }"

text \<open>The second atomic read happens only if the first is true, as \<^verbatim>\<open>&&\<close> has it.\<close>

definition fly_worker_work_available :: "fly_worker \<Rightarrow> fly_worker" where
  "fly_worker_work_available w =
     (case fly_atomic_and (mblocked w) 1 of (mb, m) \<Rightarrow>
      let w = w\<lparr>mblocked := m\<rparr> in
      if mb \<noteq> 0 then
        (case fly_atomic_and (bblocked w) 1 of (bb, b) \<Rightarrow>
         let w = w\<lparr>bblocked := b\<rparr> in
         if bb = 0 then w\<lparr>bthread := fly_worker_thread_work_available (bthread w)\<rparr>
         else w\<lparr>mthread := fly_worker_thread_work_available (mthread w)\<rparr>)
      else w\<lparr>mthread := fly_worker_thread_work_available (mthread w)\<rparr>)"

text \<open>\<open>mfd\<close> and \<open>bfd\<close> are the status files of the two threads.\<close>

definition fly_worker_update :: "fly_worker \<Rightarrow> status_file option \<Rightarrow> status_file option \<Rightarrow>
    (fly_worker \<times> status_file option \<times> status_file option) option" where
  "fly_worker_update w mfd bfd = do {
     (mb, mth, mfd) \<leftarrow> fly_thread_is_client_block (wt_thread (mthread w)) mfd;
     let w = w\<lparr>mthread := (mthread w)\<lparr>wt_thread := mth\<rparr>, mblocked := mb\<rparr>;
     (bb, bth, bfd) \<leftarrow> fly_thread_is_client_block (wt_thread (bthread w)) bfd;
     let w = w\<lparr>bthread := (bthread w)\<lparr>wt_thread := bth\<rparr>, bblocked := bb\<rparr>;
     Some (w, mfd, bfd)
   }"

datatype which = MThread | BThread

definition fly_worker_get_curr_thread :: "nat \<Rightarrow> fly_worker \<Rightarrow> which option" where
  "fly_worker_get_curr_thread self w =
     (if fly_worker_thread_is_me self (mthread w) then Some MThread
      else if fly_worker_thread_is_me self (bthread w) then Some BThread
      else None)"

section \<open>What identifies a worker\<close>

text \<open>The blocks and the operating system's threads of a worker: nothing but its start and its end changes them.\<close>

definition attrs :: "fly_worker \<Rightarrow> ptr list" where
  "attrs w = [t_attr (wt_thread (mthread w)), t_attr (wt_thread (bthread w))]"

definition pthreads :: "fly_worker \<Rightarrow> nat option list" where
  "pthreads w = [t_pthread (wt_thread (mthread w)), t_pthread (wt_thread (bthread w))]"

definition same_crew :: "fly_worker list \<Rightarrow> fly_worker list \<Rightarrow> bool" where
  "same_crew ws ws' \<longleftrightarrow> map attrs ws' = map attrs ws \<and> map pthreads ws' = map pthreads ws"

lemma same_crew_refl [simp]: "same_crew ws ws"
  by (simp add: same_crew_def)

lemma same_crew_trans: "same_crew ws ws1 \<Longrightarrow> same_crew ws1 ws2 \<Longrightarrow> same_crew ws ws2"
  by (simp add: same_crew_def)

lemma same_crew_length: "same_crew ws ws' \<Longrightarrow> length ws' = length ws"
  unfolding same_crew_def by (metis length_map)

lemma same_crew_nth:
  "length ws' = length ws \<Longrightarrow> (\<And>i. i < length ws \<Longrightarrow> attrs (ws' ! i) = attrs (ws ! i) \<and> pthreads (ws' ! i) = pthreads (ws ! i)) \<Longrightarrow>
    same_crew ws ws'"
  unfolding same_crew_def by (simp add: list_eq_iff_nth_eq)

lemma work_available_same [simp]:
  "attrs (fly_worker_work_available w) = attrs w" "pthreads (fly_worker_work_available w) = pthreads w"
  by (simp_all add: attrs_def pthreads_def fly_worker_work_available_def fly_worker_thread_work_available_def
      Let_def split: prod.splits)

lemma get_curr_none: "fly_worker_get_curr_thread self w = None \<longleftrightarrow> Some self \<notin> set (pthreads w)"
  by (auto simp: fly_worker_get_curr_thread_def fly_worker_thread_is_me_def fly_thread_is_me_def pthreads_def)

section \<open>Initialisation, start and exit\<close>

lemma worker_thread_init_cases:
  assumes "os_ok s"
  obtains (ok) t' s' where "fly_worker_thread_init s f p t = Some (0, t', s')" "os_ok s'"
      "t_attr (wt_thread t') \<notin> os_blocks s" "os_blocks s' = insert (t_attr (wt_thread t')) (os_blocks s)"
      "os_threads s' = os_threads s" "t_pthread (wt_thread t') = t_pthread (wt_thread t)"
      "wt_tstate t' = FLY_WORKER_IDLE" "wt_parent t' = wt_parent t" "wt_sem t' = 0"
      "t_func (wt_thread t') = f" "t_param (wt_thread t') = p"
      "os_answer s' = os_answer s" "os_errno s' = os_errno s" "os_calls s' = os_calls s + 3"
  | (fail) e t' s' where "fly_worker_thread_init s f p t = Some (e, t', s')" "os_ok s'" "e \<noteq> 0"
      "os_blocks s' = os_blocks s" "os_threads s' = os_threads s"
      "os_answer s' = os_answer s" "os_errno s' = os_errno s"
  using assms
proof (cases rule: thread_init_cases [where th = "wt_thread t" and f = f and p = p])
  case 1: (ok th' s')
  note init = this
  show ?thesis
  proof (cases "os_answer s' (os_calls s')")
    case True
    with 1 show ?thesis
      by (intro ok [of "t\<lparr>wt_thread := th', wt_sem := 0, wt_tstate := FLY_WORKER_IDLE\<rparr>"
            "s'\<lparr>os_calls := Suc (os_calls s')\<rparr>"])
        (auto simp: fly_worker_thread_init_def fly_sem_init_def os_ask_def os_ok_def)
  next
    case False
    have "t_attr th' \<noteq> 0" using 1(2,4) by (auto simp: os_ok_def)
    with 1 False show ?thesis
      by (intro fail [of "-1" "t\<lparr>wt_thread := th', wt_sem := 0, wt_tstate := FLY_WORKER_IDLE\<rparr>"
            "s'\<lparr>os_calls := Suc (os_calls s'), os_blocks := os_blocks s\<rparr>"])
        (auto simp: fly_worker_thread_init_def fly_sem_init_def os_ask_def os_ok_def
          fly_thread_uninit_def os_free_def)
  qed
next
  case 2: (fail e th' s')
  then show ?thesis
    by (intro fail [of e "t\<lparr>wt_thread := th'\<rparr>" s']) (auto simp: fly_worker_thread_init_def)
qed

text \<open>A worker ready to be started, holding one block for each of its threads.\<close>

definition worker_ready :: "os \<Rightarrow> os \<Rightarrow> ptr \<Rightarrow> ptr \<Rightarrow> ptr \<Rightarrow> fly_worker \<Rightarrow> bool" where
  "worker_ready s s' func self baddr w \<longleftrightarrow>
     (let mt = wt_thread (mthread w); bt = wt_thread (bthread w) in
      t_attr mt \<notin> os_blocks s \<and> t_attr bt \<notin> os_blocks s \<and> t_attr mt \<noteq> t_attr bt \<and>
      os_blocks s' = insert (t_attr bt) (insert (t_attr mt) (os_blocks s)) \<and>
      os_threads s' = os_threads s \<and> t_func mt = func \<and> t_func bt = func \<and>
      t_param mt = self \<and> t_param bt = baddr \<and> wt_parent (mthread w) = self \<and>
      wt_parent (bthread w) = self \<and> wt_tstate (mthread w) = FLY_WORKER_IDLE \<and>
      wt_tstate (bthread w) = FLY_WORKER_IDLE \<and> mblocked w = 0 \<and> bblocked w = 0)"

lemma worker_init_cases:
  assumes "os_ok s"
  obtains (ok) w s' where "fly_worker_init s func self baddr = Some (0, w, s')" "os_ok s'"
      "worker_ready s s' func self baddr w"
      "os_answer s' = os_answer s" "os_errno s' = os_errno s" "os_calls s' = os_calls s + 6"
      "t_pthread (wt_thread (mthread w)) = None" "t_pthread (wt_thread (bthread w)) = None"
  | (fail) e w s' where "fly_worker_init s func self baddr = Some (e, w, s')" "os_ok s'" "e \<noteq> 0"
      "os_blocks s' = os_blocks s" "os_threads s' = os_threads s"
      "os_answer s' = os_answer s" "os_errno s' = os_errno s"
  using assms
proof (cases rule: worker_thread_init_cases
    [where f = func and p = self and t = "zero_worker_thread\<lparr>wt_parent := self\<rparr>"])
  case m: (ok mt s1)
  show ?thesis
    using m(2)
  proof (cases rule: worker_thread_init_cases
      [where f = func and p = baddr and t = "zero_worker_thread\<lparr>wt_parent := self\<rparr>"])
    case b: (ok bt s2)
    with m show ?thesis
      by (intro ok [of "zero_worker\<lparr>mthread := mt, bthread := bt\<rparr>" s2])
        (auto simp: fly_worker_init_def zero_worker_def zero_worker_thread_def worker_ready_def Let_def)
  next
    case b: (fail e bt s2)
    have "t_attr (wt_thread mt) \<noteq> 0" using m(2,4) by (auto simp: os_ok_def)
    with m b show ?thesis
      by (intro fail [of e "zero_worker\<lparr>mthread := mt, bthread := bt\<rparr>" "s2\<lparr>os_blocks := os_blocks s\<rparr>"])
        (auto simp: fly_worker_init_def zero_worker_def fly_worker_thread_uninit_def
          fly_thread_uninit_def os_free_def os_ok_def)
  qed
next
  case m: (fail e mt s1)
  then show ?thesis
    by (intro fail [of e "zero_worker\<lparr>mthread := mt\<rparr>" s1]) (auto simp: fly_worker_init_def zero_worker_def)
qed

text \<open>Stopping a worker that was started joins both threads and frees both blocks.\<close>

lemma worker_uninit_runs:
  assumes "os_ok s" and "t_pthread (wt_thread (mthread w)) = Some a" and "t_pthread (wt_thread (bthread w)) = Some b"
    and "{a, b} \<subseteq> os_threads s" and "a \<noteq> b"
    and "t_attr (wt_thread (mthread w)) \<in> os_blocks s" and "t_attr (wt_thread (bthread w)) \<in> os_blocks s"
    and "t_attr (wt_thread (mthread w)) \<noteq> t_attr (wt_thread (bthread w))"
  shows "\<exists>w'. fly_worker_uninit s w = Some (0, w', s\<lparr>os_threads := os_threads s - {a, b},
      os_blocks := os_blocks s - {t_attr (wt_thread (mthread w)), t_attr (wt_thread (bthread w))}\<rparr>)"
proof -
  have "os_threads s - {a} - {b} = os_threads s - {a, b}"
    "os_blocks s - {t_attr (wt_thread (mthread w))} - {t_attr (wt_thread (bthread w))} =
     os_blocks s - {t_attr (wt_thread (mthread w)), t_attr (wt_thread (bthread w))}" by auto
  moreover have "t_attr (wt_thread (mthread w)) \<noteq> 0" "t_attr (wt_thread (bthread w)) \<noteq> 0"
    using assms(1,6,7) by (auto simp: os_ok_def)
  ultimately show ?thesis
    using assms by (simp add: fly_worker_uninit_def fly_worker_wait_def fly_worker_thread_wait_def
        fly_thread_wait_def fly_worker_request_exit_def fly_worker_thread_request_exit_def
        fly_sem_post_def fly_worker_thread_uninit_def fly_thread_uninit_def os_free_def)
qed

lemma thread_start_cases:
  assumes "os_ok s" and "t_attr th \<in> os_blocks s"
  shows "fly_thread_start s th =
    (if os_answer s (os_calls s)
     then Some (0, th\<lparr>t_pthread := Some (os_calls s)\<rparr>,
       s\<lparr>os_calls := Suc (os_calls s), os_threads := insert (os_calls s) (os_threads s)\<rparr>)
     else Some (os_errno s, th, s\<lparr>os_calls := Suc (os_calls s)\<rparr>))"
  using assms by (simp add: fly_thread_start_def os_ask_def)

definition started :: "fly_worker \<Rightarrow> nat \<Rightarrow> fly_worker" where
  "started w n = (let mt = mthread w; bt = bthread w in
     w\<lparr>mthread := mt\<lparr>wt_thread := (wt_thread mt)\<lparr>t_pthread := Some n\<rparr>, wt_tstate := FLY_WORKER_RUNNING\<rparr>,
       bthread := bt\<lparr>wt_thread := (wt_thread bt)\<lparr>t_pthread := Some (Suc n)\<rparr>, wt_tstate := FLY_WORKER_RUNNING\<rparr>\<rparr>)"

lemma worker_start_runs:
  assumes "t_attr (wt_thread (mthread w)) \<in> os_blocks s" and "t_attr (wt_thread (bthread w)) \<in> os_blocks s"
    and "os_answer s (os_calls s)" and "os_answer s (Suc (os_calls s))"
  shows "fly_worker_start s w = Some (0, started w (os_calls s), s\<lparr>os_calls := Suc (Suc (os_calls s)),
    os_threads := insert (Suc (os_calls s)) (insert (os_calls s) (os_threads s))\<rparr>)"
  using assms by (simp add: fly_worker_start_def fly_worker_thread_start_def fly_thread_start_def os_ask_def started_def Let_def)

section \<open>A worker thread and the thread that controls it\<close>

text \<open>
  The places of \<^verbatim>\<open>fly_worker_thread_func\<close>: not created yet; in the first loop, waiting to see
  \<^verbatim>\<open>FLY_WORKER_RUNNING\<close>; at the test of the second loop; inside \<^verbatim>\<open>fly_schedule\<close>; asleep in
  \<^verbatim>\<open>fly_worker_thread_wait_work\<close>; returned.
\<close>

datatype wpc = NotCreated | Spinning | Testing | Scheduling | Waiting | Exited

text \<open>
  The places of the controlling thread: before \<^verbatim>\<open>fly_worker_thread_start\<close>; between
  \<^verbatim>\<open>pthread_create\<close> and the assignment to \<open>tstate\<close>; started; in
  \<^verbatim>\<open>fly_worker_thread_request_exit\<close> between the assignment and the post; in
  \<^verbatim>\<open>fly_worker_thread_wait\<close>; returned from it.
\<close>

datatype cpc = Starting | Created | Started | ExitSet | Joining | Joined

record wsys =
  ws_tstate :: int
  ws_sem :: nat
  ws_pc :: wpc
  ws_ctl :: cpc

inductive worker_step :: "wsys \<Rightarrow> wsys \<Rightarrow> bool" where
  create: "ws_ctl s = Starting \<Longrightarrow> worker_step s (s\<lparr>ws_ctl := Created, ws_pc := Spinning\<rparr>)"
| set_running: "ws_ctl s = Created \<Longrightarrow>
    worker_step s (s\<lparr>ws_ctl := Started, ws_tstate := FLY_WORKER_RUNNING\<rparr>)"
| work: "worker_step s (s\<lparr>ws_sem := Suc (ws_sem s)\<rparr>)"
| request_exit: "ws_ctl s = Started \<Longrightarrow>
    worker_step s (s\<lparr>ws_ctl := ExitSet, ws_tstate := FLY_WORKER_EXITING\<rparr>)"
| exit_post: "ws_ctl s = ExitSet \<Longrightarrow> worker_step s (s\<lparr>ws_ctl := Joining, ws_sem := Suc (ws_sem s)\<rparr>)"
| join: "ws_ctl s = Joining \<Longrightarrow> ws_pc s = Exited \<Longrightarrow> worker_step s (s\<lparr>ws_ctl := Joined\<rparr>)"
| spin: "ws_pc s = Spinning \<Longrightarrow> ws_tstate s \<noteq> FLY_WORKER_RUNNING \<Longrightarrow> worker_step s s"
| seen: "ws_pc s = Spinning \<Longrightarrow> ws_tstate s = FLY_WORKER_RUNNING \<Longrightarrow>
    worker_step s (s\<lparr>ws_pc := Testing\<rparr>)"
| again: "ws_pc s = Testing \<Longrightarrow> ws_tstate s = FLY_WORKER_RUNNING \<Longrightarrow>
    worker_step s (s\<lparr>ws_pc := Scheduling\<rparr>)"
| leave: "ws_pc s = Testing \<Longrightarrow> ws_tstate s \<noteq> FLY_WORKER_RUNNING \<Longrightarrow>
    worker_step s (s\<lparr>ws_pc := Exited, ws_tstate := FLY_WORKER_FINISHED\<rparr>)"
| worked: "ws_pc s = Scheduling \<Longrightarrow> worker_step s (s\<lparr>ws_pc := Testing\<rparr>)"
| no_work: "ws_pc s = Scheduling \<Longrightarrow> worker_step s (s\<lparr>ws_pc := Waiting\<rparr>)"
| wake: "ws_pc s = Waiting \<Longrightarrow> 0 < ws_sem s \<Longrightarrow>
    worker_step s (s\<lparr>ws_pc := Testing, ws_sem := ws_sem s - 1\<rparr>)"

definition worker_start_state :: wsys where
  "worker_start_state =
     \<lparr>ws_tstate = FLY_WORKER_IDLE, ws_sem = 0, ws_pc = NotCreated, ws_ctl = Starting\<rparr>"

text \<open>
  Once the exit is requested the thread never sees \<^verbatim>\<open>FLY_WORKER_RUNNING\<close> again, and the post
  of the request is still there unless the thread has woken up since.
\<close>

definition worker_inv :: "wsys \<Rightarrow> bool" where
  "worker_inv s \<longleftrightarrow>
     (ws_pc s = NotCreated \<longleftrightarrow> ws_ctl s = Starting) \<and>
     (ws_ctl s \<in> {ExitSet, Joining, Joined} \<longrightarrow> ws_tstate s \<noteq> FLY_WORKER_RUNNING) \<and>
     (ws_ctl s \<in> {Joining, Joined} \<longrightarrow> 0 < ws_sem s \<or> ws_pc s \<in> {Testing, Exited, Spinning}) \<and>
     (ws_ctl s \<in> {Starting, Created} \<longrightarrow> ws_tstate s = FLY_WORKER_IDLE \<and> ws_pc s \<in> {NotCreated, Spinning}) \<and>
     (ws_ctl s = Started \<longrightarrow> ws_tstate s = FLY_WORKER_RUNNING \<and> ws_pc s \<noteq> Exited) \<and>
     (ws_ctl s = Joined \<longrightarrow> ws_pc s = Exited)"

interpretation worker: invariant_system "\<lambda>s. s = worker_start_state" worker_step worker_inv
proof unfold_locales
  fix s t
  show "worker_inv s" if "s = worker_start_state"
    using that by (simp add: worker_inv_def worker_start_state_def)
  show "worker_inv t" if "worker_inv s" "worker_step s t"
    using that(2,1) by (cases rule: worker_step.cases) (auto simp: worker_inv_def tstate_defs)
qed

text \<open>The thread's own steps still to come after an exit request.\<close>

fun exit_rank :: "wpc \<Rightarrow> nat" where
  "exit_rank Scheduling = 3"
| "exit_rank Waiting = 2"
| "exit_rank Testing = 1"
| "exit_rank _ = 0"

definition thread_moves :: "wsys \<Rightarrow> wsys \<Rightarrow> bool" where
  "thread_moves s t \<longleftrightarrow> worker_step s t \<and> ws_pc t \<noteq> ws_pc s"

lemma thread_movesI: "worker_step s t \<Longrightarrow> ws_pc t \<noteq> ws_pc s \<Longrightarrow> \<exists>t. thread_moves s t"
  by (auto simp: thread_moves_def)

lemma exit_progress:
  assumes "worker_inv s" and "ws_ctl s = Joining" and "ws_pc s \<notin> {Spinning, Exited}"
  shows "(\<exists>t. thread_moves s t) \<and> (\<forall>t. thread_moves s t \<longrightarrow> exit_rank (ws_pc t) < exit_rank (ws_pc s))"
proof
  consider "ws_pc s = Testing" | "ws_pc s = Scheduling" | "ws_pc s = Waiting" "0 < ws_sem s"
    using assms by (cases "ws_pc s") (auto simp: worker_inv_def)
  then show "\<exists>t. thread_moves s t"
  proof cases
    case 1
    with assms have "worker_step s (s\<lparr>ws_pc := Exited, ws_tstate := FLY_WORKER_FINISHED\<rparr>)"
      by (intro leave) (auto simp: worker_inv_def)
    then show ?thesis by (rule thread_movesI) (simp add: 1)
  next
    case 2
    then have "worker_step s (s\<lparr>ws_pc := Testing\<rparr>)" by (rule worked)
    then show ?thesis by (rule thread_movesI) (simp add: 2)
  next
    case 3
    then have "worker_step s (s\<lparr>ws_pc := Testing, ws_sem := ws_sem s - 1\<rparr>)" by (rule wake)
    then show ?thesis by (rule thread_movesI) (simp add: 3)
  qed
  show "\<forall>t. thread_moves s t \<longrightarrow> exit_rank (ws_pc t) < exit_rank (ws_pc s)"
  proof (intro allI impI)
    fix t assume "thread_moves s t"
    then have "worker_step s t" "ws_pc t \<noteq> ws_pc s" by (simp_all add: thread_moves_def)
    then show "exit_rank (ws_pc t) < exit_rank (ws_pc s)"
      using assms by (cases rule: worker_step.cases) (auto simp: worker_inv_def)
  qed
qed

text \<open>A thread that is still in its first loop when the exit is requested never leaves it.\<close>

definition stuck :: "wsys \<Rightarrow> bool" where
  "stuck s \<longleftrightarrow> ws_ctl s \<in> {ExitSet, Joining} \<and> ws_pc s = Spinning \<and> ws_tstate s \<noteq> FLY_WORKER_RUNNING"

interpretation stuck_worker: invariant_system stuck worker_step stuck
proof unfold_locales
  fix s t
  show "stuck t" if "stuck s" "worker_step s t"
    using that(2,1) by (cases rule: worker_step.cases) (auto simp: stuck_def tstate_defs)
qed

section \<open>Properties\<close>

text \<open>
  Initialising a worker is all or nothing: it always returns, a worker that reports success
  has two idle threads with a block each, wired to the worker thread function, their own address
  and their parent, and one that reports an error holds nothing.
\<close>

theorem worker_init_all_or_nothing:
  assumes "os_ok s"
  shows "\<exists>e w s'. fly_worker_init s func self baddr = Some (e, w, s') \<and> os_ok s' \<and>
    (if FLY_SUCCEEDED e then worker_ready s s' func self baddr w
     else os_blocks s' = os_blocks s \<and> os_threads s' = os_threads s)"
  using assms
  by (cases rule: worker_init_cases [where func = func and self = self and baddr = baddr]) auto

theorem worker_init_all_or_nothing_witness:
  "os_ok lucky_os \<and> (\<exists>e w s'. fly_worker_init lucky_os 5 6 7 = Some (e, w, s') \<and>
    (if FLY_SUCCEEDED e then worker_ready lucky_os s' 5 6 7 w
     else os_blocks s' = os_blocks lucky_os \<and> os_threads s' = os_threads lucky_os))"
proof -
  have "os_ok lucky_os" by (simp add: os_ok_def lucky_os_def)
  with worker_init_all_or_nothing [OF this, of 5 6 7] show ?thesis by blast
qed

text \<open>
  A worker that was initialised and started is taken down completely: both threads joined, both
  blocks given back.
\<close>

theorem worker_start_uninit:
  assumes "os_ok s" and "os_ok s'" and "worker_ready s s' func self baddr w"
    and "os_answer s' (os_calls s')" and "os_answer s' (Suc (os_calls s'))"
  shows "\<exists>w1 s1 w2 s2. fly_worker_start s' w = Some (0, w1, s1) \<and>
    wt_tstate (mthread w1) = FLY_WORKER_RUNNING \<and> wt_tstate (bthread w1) = FLY_WORKER_RUNNING \<and>
    fly_worker_uninit s1 w1 = Some (0, w2, s2) \<and>
    os_blocks s2 = os_blocks s \<and> os_threads s2 = os_threads s"
proof -
  let ?n = "os_calls s'" and ?mt = "mthread w" and ?bt = "bthread w" and ?w1 = "started w (os_calls s')"
  let ?s1 = "s'\<lparr>os_calls := Suc (Suc ?n), os_threads := insert (Suc ?n) (insert ?n (os_threads s'))\<rparr>"
  have ready: "t_attr (wt_thread ?mt) \<in> os_blocks s'" "t_attr (wt_thread ?bt) \<in> os_blocks s'"
    "t_attr (wt_thread ?mt) \<noteq> t_attr (wt_thread ?bt)" "os_threads s' = os_threads s"
    "os_blocks s' - {t_attr (wt_thread ?mt), t_attr (wt_thread ?bt)} = os_blocks s"
    using assms(3) by (auto simp: worker_ready_def Let_def)
  have start: "fly_worker_start s' w = Some (0, ?w1, ?s1)"
    using worker_start_runs [OF ready(1,2) assms(4,5)] .
  have "os_ok ?s1" using assms(2) by (auto simp: os_ok_def less_Suc_eq)
  moreover have new: "?n \<notin> os_threads s'" "Suc ?n \<notin> os_threads s'"
    using assms(2) by (auto simp: os_ok_def)
  ultimately obtain w2 where u: "fly_worker_uninit ?s1 ?w1 = Some (0, w2, ?s1\<lparr>os_threads := os_threads ?s1 - {?n, Suc ?n},
      os_blocks := os_blocks ?s1 - {t_attr (wt_thread ?mt), t_attr (wt_thread ?bt)}\<rparr>)" (is "_ = Some (0, w2, ?s2)")
    using worker_uninit_runs [of ?s1 ?w1 ?n "Suc ?n"] ready by (auto simp: started_def Let_def)
  have "os_threads ?s2 = os_threads s" "os_blocks ?s2 = os_blocks s"
    using new ready(4,5) by auto
  with start u show ?thesis
    by (intro exI [of _ ?w1] exI [of _ ?s1] exI [of _ w2] exI [of _ ?s2] conjI) (simp_all add: started_def Let_def)
qed

text \<open>A worker as \<^verbatim>\<open>fly_worker_init\<close> leaves it, its blocks at 1 and 4.\<close>

definition fresh_worker :: fly_worker where
  "fresh_worker = (let t = zero_worker_thread\<lparr>wt_parent := 6, wt_tstate := FLY_WORKER_IDLE\<rparr>;
     th = (wt_thread t)\<lparr>t_func := 5, t_state := FLY_THREAD_IDLE, t_fd := FLY_INVALID_FD\<rparr> in
     zero_worker\<lparr>mthread := t\<lparr>wt_thread := th\<lparr>t_attr := 1, t_param := 6\<rparr>\<rparr>,
       bthread := t\<lparr>wt_thread := th\<lparr>t_attr := 4, t_param := 7\<rparr>\<rparr>\<rparr>)"

lemma fresh_worker_init:
  assumes "os_answer s = f" and "\<forall>n < 6. f n" and "os_calls s = 0" and "os_blocks s = {}"
  shows "fly_worker_init s 5 6 7 = Some (0, fresh_worker, s\<lparr>os_calls := 6, os_blocks := {1, 4}\<rparr>)"
    and "worker_ready s (s\<lparr>os_calls := 6, os_blocks := {1, 4}\<rparr>) 5 6 7 fresh_worker"
  using assms by (auto simp: fly_worker_init_def fly_worker_thread_init_def fly_thread_init_def
      os_malloc_def os_ask_def fly_sem_init_def zero_worker_def zero_worker_thread_def
      fresh_worker_def worker_ready_def Let_def eval_nat_numeral insert_commute)

theorem worker_start_uninit_witness:
  "\<exists>w1 s1 w2 s2. fly_worker_start (lucky_os\<lparr>os_calls := 6, os_blocks := {1, 4}\<rparr>) fresh_worker = Some (0, w1, s1) \<and>
    fly_worker_uninit s1 w1 = Some (0, w2, s2) \<and> os_blocks s2 = {} \<and> os_threads s2 = {}"
proof -
  let ?s = "lucky_os\<lparr>os_calls := 6, os_blocks := {1, 4}\<rparr>"
  have "os_ok lucky_os" "os_ok ?s" "worker_ready lucky_os ?s 5 6 7 fresh_worker"
    "os_answer ?s (os_calls ?s)" "os_answer ?s (Suc (os_calls ?s))"
    using fresh_worker_init(2) [of lucky_os] by (auto simp: os_ok_def lucky_os_def)
  from worker_start_uninit [OF this] show ?thesis
    by (auto simp: lucky_os_def)
qed

text \<open>
  When the second thread of a worker cannot be created, taking the worker down (as
  \<^verbatim>\<open>fly_sched_workers_init\<close> does) joins a thread that does not exist: the result is undefined.
\<close>

theorem failed_start_then_uninit_undefined:
  assumes "os_ok s'" and "worker_ready s s' func self baddr w"
    and "t_pthread (wt_thread (bthread w)) = None"
    and "os_answer s' (os_calls s')" and "\<not> os_answer s' (Suc (os_calls s'))" and "os_errno s' \<noteq> 0"
  shows "\<exists>w1 s1. fly_worker_start s' w = Some (os_errno s', w1, s1) \<and> fly_worker_uninit s1 w1 = None"
proof -
  have "t_attr (wt_thread (mthread w)) \<in> os_blocks s'" "t_attr (wt_thread (bthread w)) \<in> os_blocks s'"
    using assms(2) by (auto simp: worker_ready_def Let_def)
  with assms(3-6) show ?thesis
    by (simp add: fly_worker_start_def fly_worker_thread_start_def fly_thread_start_def os_ask_def
        fly_worker_uninit_def fly_worker_wait_def fly_worker_thread_wait_def fly_thread_wait_def
        fly_worker_request_exit_def fly_worker_thread_request_exit_def fly_sem_post_def)
qed

definition unlucky_os :: os where
  "unlucky_os = lucky_os\<lparr>os_answer := \<lambda>n. n \<noteq> 7\<rparr>"

theorem failed_start_then_uninit_undefined_witness:
  "\<exists>w1 s1. fly_worker_start (unlucky_os\<lparr>os_calls := 6, os_blocks := {1, 4}\<rparr>) fresh_worker =
    Some (11, w1, s1) \<and> fly_worker_uninit s1 w1 = None"
proof -
  let ?s = "unlucky_os\<lparr>os_calls := 6, os_blocks := {1, 4}\<rparr>"
  have "os_ok ?s" "worker_ready unlucky_os ?s 5 6 7 fresh_worker"
    "t_pthread (wt_thread (bthread fresh_worker)) = None"
    "os_answer ?s (os_calls ?s)" "\<not> os_answer ?s (Suc (os_calls ?s))" "os_errno ?s \<noteq> 0"
    using fresh_worker_init(2) [of unlucky_os]
    by (auto simp: os_ok_def lucky_os_def unlucky_os_def fresh_worker_def zero_worker_thread_def Let_def)
  from failed_start_then_uninit_undefined [OF this] show ?thesis
    by (simp add: unlucky_os_def lucky_os_def)
qed

text \<open>
  Work that becomes available wakes exactly one of a worker's two threads: the second one if
  the main one is blocked in client code and the second is not, the main one otherwise.
\<close>

theorem work_available_posts_one:
  "wt_sem (bthread (fly_worker_work_available w)) =
     wt_sem (bthread w) + of_bool (odd (mblocked w) \<and> even (bblocked w)) \<and>
   wt_sem (mthread (fly_worker_work_available w)) =
     wt_sem (mthread w) + of_bool (\<not> (odd (mblocked w) \<and> even (bblocked w)))"
  by (auto simp: fly_worker_work_available_def Let_def fly_atomic_and_def fly_worker_thread_work_available_def
      fly_sem_post_def and_one_eq even_iff_mod_2_eq_zero odd_iff_mod_2_eq_one)

text \<open>
  C24. A worker thread that was running when its exit was requested does exit: in every state
  reachable while the controlling thread joins it, unless it is still in its first loop, it can
  move, whatever it does it comes closer to its return, and no work notification can stop it
  (so the join returns).
\<close>

theorem worker_exit_progress:
  assumes "reach (\<lambda>s. s = worker_start_state) worker_step s"
    and "ws_ctl s = Joining" and "ws_pc s \<notin> {Spinning, Exited}"
  shows "(\<exists>t. thread_moves s t) \<and> (\<forall>t. thread_moves s t \<longrightarrow> exit_rank (ws_pc t) < exit_rank (ws_pc s))"
  using worker.reach_inv [OF assms(1)] assms(2,3) by (rule exit_progress)

lemma reach_created: "reach (\<lambda>s. s = worker_start_state) worker_step
    \<lparr>ws_tstate = FLY_WORKER_RUNNING, ws_sem = 0, ws_pc = Spinning, ws_ctl = Started\<rparr>"
proof -
  have "reach (\<lambda>s. s = worker_start_state) worker_step worker_start_state"
    by (rule reach_init) simp
  from reach_step [OF this create] have "reach (\<lambda>s. s = worker_start_state) worker_step
      (worker_start_state\<lparr>ws_ctl := Created, ws_pc := Spinning\<rparr>)"
    by (simp add: worker_start_state_def)
  from reach_step [OF this set_running] show ?thesis
    by (simp add: worker_start_state_def)
qed

lemma reach_joining:
  assumes "reach (\<lambda>s. s = worker_start_state) worker_step
    \<lparr>ws_tstate = FLY_WORKER_RUNNING, ws_sem = 0, ws_pc = p, ws_ctl = Started\<rparr>"
  shows "reach (\<lambda>s. s = worker_start_state) worker_step
    \<lparr>ws_tstate = FLY_WORKER_EXITING, ws_sem = 1, ws_pc = p, ws_ctl = Joining\<rparr>"
  using reach_step [OF reach_step [OF assms request_exit] exit_post] by simp

theorem worker_exit_progress_witness:
  "\<exists>t. thread_moves \<lparr>ws_tstate = FLY_WORKER_EXITING, ws_sem = 1, ws_pc = Waiting, ws_ctl = Joining\<rparr> t"
proof -
  let ?s = "\<lambda>p. \<lparr>ws_tstate = FLY_WORKER_RUNNING, ws_sem = 0, ws_pc = p, ws_ctl = Started\<rparr>"
  have "reach (\<lambda>s. s = worker_start_state) worker_step (?s Waiting)"
    using reach_step [OF reach_step [OF reach_step [OF reach_created seen] again] no_work] by simp
  from worker_exit_progress [OF reach_joining [OF this]] show ?thesis by simp
qed

text \<open>
  C25. A worker thread that has not yet seen \<^verbatim>\<open>FLY_WORKER_RUNNING\<close> when its exit is requested
  hangs the program: from then on, in every reachable state, it is still in its first loop and the
  join has not returned.
\<close>

theorem early_exit_hangs:
  assumes "reach (\<lambda>s. s = worker_start_state) worker_step s"
    and "ws_ctl s = ExitSet \<or> ws_ctl s = Joining" and "ws_pc s = Spinning"
    and "worker_step\<^sup>*\<^sup>* s t"
  shows "ws_pc t = Spinning \<and> ws_ctl t \<noteq> Joined"
proof -
  have "stuck s" using assms(1-3) worker.reach_inv [OF assms(1)] by (auto simp: stuck_def worker_inv_def)
  from stuck_worker.rtranclp_inv [OF assms(4) this] show ?thesis by (auto simp: stuck_def)
qed

theorem early_exit_hangs_witness:
  "\<exists>s. reach (\<lambda>s. s = worker_start_state) worker_step s \<and> ws_ctl s = Joining \<and>
    {t. worker_step\<^sup>*\<^sup>* s t} \<subseteq> {t. ws_ctl t \<noteq> Joined}"
proof -
  let ?s = "\<lparr>ws_tstate = FLY_WORKER_EXITING, ws_sem = 1, ws_pc = Spinning, ws_ctl = Joining\<rparr>"
  note r = reach_joining [OF reach_created]
  have "ws_ctl t \<noteq> Joined" if "worker_step\<^sup>*\<^sup>* ?s t" for t
    using early_exit_hangs [OF r _ _ that] by simp
  with r show ?thesis by (intro exI [of _ ?s]) auto
qed

end
