(* ===== verification/Fly_Sched.thy ===== *)
theory Fly_Sched
  imports Fly_Lists Fly_Job Fly_Mrswlock Fly_Worker
begin

text \<open>
  \<^verbatim>\<open>src/fly_sched.h\<close> and \<^verbatim>\<open>src/fly_sched.c\<close>: the scheduler's queues of ready, running
  and done jobs, what a worker thread does in \<^verbatim>\<open>fly_schedule\<close>, and the execution of jobs.

  The scheduler's state extends the heaps of jobs by the fields of \<^verbatim>\<open>struct fly_sched\<close>, the
  operating system and the log of the client functions called.  Every operation is the call of
  one thread that no other thread interrupts, and \<open>None\<close> if it would block for ever, or if its
  result is undefined.  Client functions are assumed to return and to leave the library's own data
  alone; \<open>task_fun f x\<close> is what the task function at \<open>f\<close> returns for \<open>x\<close>.
  Assertions are those of the default build: none.
\<close>

section \<open>State\<close>

definition FLY_SCHED_THREAD_IDLE :: int where "FLY_SCHED_THREAD_IDLE = 0"
definition FLY_SCHED_THREAD_RUNNING :: int where "FLY_SCHED_THREAD_RUNNING = 1"
definition FLY_SCHED_THREAD_STOPPING :: int where "FLY_SCHED_THREAD_STOPPING = 2"

definition FLY_SCHED_MAX_RLOCK :: int where "FLY_SCHED_MAX_RLOCK = 256"

datatype call = PForCall ptr int ptr | TaskCall ptr ptr

text \<open>
  A lock is \<open>None\<close> before it is initialised and after it is destroyed.  \<open>worker_size\<close>,
  \<open>bthread_off\<close>, the two function addresses and \<open>sched_addr\<close>, the address of the scheduler
  itself, are constants of the compiled program.
\<close>

record fly_sched = job_mem +
  workers_ptr :: ptr
  workers :: "fly_worker list"
  nbworkers :: int
  initialized :: int
  ready_jobs :: ptr
  running_jobs :: ptr
  done_jobs :: ptr
  ready_lock :: "fly_mrswlock option"
  running_lock :: "fly_mrswlock option"
  done_lock :: "fly_mrswlock option"
  sched_thread :: ptr
  sched_thread_obj :: fly_thread
  threadstate :: int
  s_os :: os
  calls :: "call list"
  task_fun :: "ptr \<Rightarrow> ptr \<Rightarrow> ptr"
  worker_size :: nat
  bthread_off :: nat
  worker_func :: ptr
  sched_func :: ptr
  sched_addr :: ptr

datatype lock_id = ReadyL | RunningL | DoneL

fun get_lock :: "fly_sched \<Rightarrow> lock_id \<Rightarrow> fly_mrswlock option" where
  "get_lock s ReadyL = ready_lock s"
| "get_lock s RunningL = running_lock s"
| "get_lock s DoneL = done_lock s"

fun set_lock :: "fly_sched \<Rightarrow> lock_id \<Rightarrow> fly_mrswlock option \<Rightarrow> fly_sched" where
  "set_lock s ReadyL l = s\<lparr>ready_lock := l\<rparr>"
| "set_lock s RunningL l = s\<lparr>running_lock := l\<rparr>"
| "set_lock s DoneL l = s\<lparr>done_lock := l\<rparr>"

text \<open>A worker thread is known by its worker's index and its place in the worker.\<close>

type_synonym wref = "nat \<times> which"

definition get_wt :: "fly_sched \<Rightarrow> wref \<Rightarrow> fly_worker_thread option" where
  "get_wt s r = (case r of (i, w) \<Rightarrow>
     if i < length (workers s)
     then Some (case w of MThread \<Rightarrow> mthread (workers s ! i) | BThread \<Rightarrow> bthread (workers s ! i))
     else None)"

definition put_wt :: "fly_sched \<Rightarrow> wref \<Rightarrow> fly_worker_thread \<Rightarrow> fly_sched" where
  "put_wt s r t = (case r of (i, w) \<Rightarrow>
     s\<lparr>workers := (workers s)[i := (case w of
         MThread \<Rightarrow> (workers s ! i)\<lparr>mthread := t\<rparr> | BThread \<Rightarrow> (workers s ! i)\<lparr>bthread := t\<rparr>)]\<rparr>)"

definition worker_addr :: "fly_sched \<Rightarrow> nat \<Rightarrow> ptr" where
  "worker_addr s i = workers_ptr s + i * worker_size s"

section \<open>Sections under the locks\<close>

text \<open>\<^verbatim>\<open>fly_mrswlock_notrack_wlock\<close>, \<^verbatim>\<open>fly_mrswlock_wlock\<close> and so on, on a lock of the scheduler.\<close>

definition sched_notrack_wlock :: "fly_sched \<Rightarrow> lock_id \<Rightarrow> fly_sched option" where
  "sched_notrack_wlock s k = do {
     l \<leftarrow> get_lock s k;
     l \<leftarrow> fly_mrswlock_notrack_wlock l;
     Some (set_lock s k (Some l))
   }"

definition sched_wlock :: "fly_sched \<Rightarrow> lock_id \<Rightarrow> wref \<Rightarrow> fly_sched option" where
  "sched_wlock s k r = do {
     l \<leftarrow> get_lock s k;
     t \<leftarrow> get_wt s r;
     (l, th) \<leftarrow> fly_mrswlock_wlock l (wt_thread t);
     Some (put_wt (set_lock s k (Some l)) r (t\<lparr>wt_thread := th\<rparr>))
   }"

definition sched_rlock :: "fly_sched \<Rightarrow> lock_id \<Rightarrow> wref \<Rightarrow> fly_sched option" where
  "sched_rlock s k r = do {
     l \<leftarrow> get_lock s k;
     t \<leftarrow> get_wt s r;
     (l, th) \<leftarrow> fly_mrswlock_rlock l (wt_thread t);
     Some (put_wt (set_lock s k (Some l)) r (t\<lparr>wt_thread := th\<rparr>))
   }"

definition sched_wunlock :: "fly_sched \<Rightarrow> lock_id \<Rightarrow> fly_sched option" where
  "sched_wunlock s k = do { l \<leftarrow> get_lock s k; Some (set_lock s k (Some (fly_mrswlock_wunlock l))) }"

definition sched_runlock :: "fly_sched \<Rightarrow> lock_id \<Rightarrow> fly_sched option" where
  "sched_runlock s k = do { l \<leftarrow> get_lock s k; Some (set_lock s k (Some (fly_mrswlock_runlock l))) }"

section \<open>The three queues\<close>

definition fly_sched_add_to_ready :: "fly_sched \<Rightarrow> ptr \<Rightarrow> (int \<times> fly_sched) option" where
  "fly_sched_add_to_ready s job = do {
     s \<leftarrow> sched_notrack_wlock s ReadyL;
     (err, s) \<leftarrow> fly_list_append s (ready_jobs s) job;
     s \<leftarrow> sched_wunlock s ReadyL;
     Some (err, s)
   }"

definition fly_sched_get_ready :: "fly_sched \<Rightarrow> wref \<Rightarrow> (ptr \<times> fly_sched) option" where
  "fly_sched_get_ready s t = do {
     s \<leftarrow> sched_wlock s ReadyL t;
     (job, s) \<leftarrow> fly_list_tail_remove s (ready_jobs s);
     s \<leftarrow> sched_wunlock s ReadyL;
     Some (job, s)
   }"

text \<open>The loop over the running jobs; \<open>job\<close> keeps the last element read.\<close>

partial_function (option) running_loop :: "fly_sched \<Rightarrow> ptr \<Rightarrow> ptr \<Rightarrow> ptr option" where
  "running_loop s cur job =
     (if cur \<noteq> NULL then
        Option.bind (get_el s cur) (\<lambda>job.
          Option.bind (get_job s job) (\<lambda>j.
            if j_batches_done j = j_nbbatches j
            then Option.bind (get_next s cur) (\<lambda>n. running_loop s n job)
            else Some job))
      else Some job)"

definition fly_sched_get_running :: "fly_sched \<Rightarrow> wref \<Rightarrow> (ptr \<times> fly_sched) option" where
  "fly_sched_get_running s t = do {
     s \<leftarrow> sched_rlock s RunningL t;
     cur \<leftarrow> fly_list_head s (running_jobs s);
     job \<leftarrow> running_loop s cur NULL;
     s \<leftarrow> sched_runlock s RunningL;
     Some (job, s)
   }"

definition fly_sched_move_to_running :: "fly_sched \<Rightarrow> ptr \<Rightarrow> wref \<Rightarrow> fly_sched option" where
  "fly_sched_move_to_running s job t = do {
     s \<leftarrow> sched_wlock s RunningL t;
     s \<leftarrow> set_state s job FLY_JOB_RUNNING;
     (_, s) \<leftarrow> fly_list_append s (running_jobs s) job;
     sched_wunlock s RunningL
   }"

definition fly_sched_remove_running :: "fly_sched \<Rightarrow> ptr \<Rightarrow> fly_sched option" where
  "fly_sched_remove_running s job = do {
     s \<leftarrow> sched_notrack_wlock s RunningL;
     s \<leftarrow> fly_list_remove s (running_jobs s) job;
     sched_wunlock s RunningL
   }"

definition fly_sched_move_to_done :: "fly_sched \<Rightarrow> ptr \<Rightarrow> fly_sched option" where
  "fly_sched_move_to_done s job = do {
     s \<leftarrow> sched_notrack_wlock s DoneL;
     (_, s) \<leftarrow> fly_list_append s (done_jobs s) job;
     sched_wunlock s DoneL
   }"

definition fly_sched_job_collected :: "fly_sched \<Rightarrow> ptr \<Rightarrow> (int \<times> fly_sched) option" where
  "fly_sched_job_collected s job = do {
     s \<leftarrow> sched_notrack_wlock s DoneL;
     s \<leftarrow> fly_list_remove s (done_jobs s) job;
     s \<leftarrow> sched_wunlock s DoneL;
     Some (fly_err FLYESUCCESS, s)
   }"

section \<open>Adding jobs\<close>

text \<open>
  \<^verbatim>\<open>for (i = 0; i < fly_sched.nbworkers; i++)\<close> over all workers, or over those that are
  not at the address \<open>skip\<close>.
\<close>

fun notify_loop :: "fly_sched \<Rightarrow> ptr option \<Rightarrow> nat list \<Rightarrow> fly_sched option" where
  "notify_loop s skip [] = Some s"
| "notify_loop s skip (i # is) =
     (if i < length (workers s) then
        (if Some (worker_addr s i) \<noteq> skip
         then notify_loop (s\<lparr>workers := (workers s)[i := fly_worker_work_available (workers s ! i)]\<rparr>) skip is
         else notify_loop s skip is)
      else None)"

definition notify_workers :: "fly_sched \<Rightarrow> ptr option \<Rightarrow> fly_sched option" where
  "notify_workers s skip = notify_loop s skip [0..<nat (nbworkers s)]"

definition fly_sched_add_pfj :: "fly_sched \<Rightarrow> ptr \<Rightarrow> (int \<times> fly_sched) option" where
  "fly_sched_add_pfj s job = do {
     (err, s) \<leftarrow> fly_make_batches s job (nbworkers s);
     (if FLY_SUCCEEDED err then do {
        (err, s) \<leftarrow> fly_sched_add_to_ready s job;
        s \<leftarrow> (if \<not> FLY_SUCCEEDED err then fly_destroy_batches s job else Some s);
        Some (err, s)
      } else Some (err, s))
   }"

definition is_pfor_type :: "int \<Rightarrow> bool" where
  "is_pfor_type t \<longleftrightarrow> t = FLY_TASK_PARALLEL_FOR \<or> t = FLY_TASK_PARALLEL_FOR_ARR"

definition fly_sched_add_job :: "fly_sched \<Rightarrow> ptr \<Rightarrow> (int \<times> fly_sched) option" where
  "fly_sched_add_job s job = do {
     j \<leftarrow> get_job s job;
     (err, s) \<leftarrow> (if is_pfor_type (j_jtype j) then fly_sched_add_pfj s job
                  else if j_jtype j = FLY_TASK_TASK then fly_sched_add_to_ready s job
                  else Some (fly_err FLYENOIMP, s));
     s \<leftarrow> (if FLY_SUCCEEDED err then notify_workers s None else Some s);
     Some (err, s)
   }"

definition fly_sched_add_job_from_worker :: "fly_sched \<Rightarrow> ptr \<Rightarrow> wref \<Rightarrow> (int \<times> fly_sched) option" where
  "fly_sched_add_job_from_worker s job wthread = do {
     j \<leftarrow> get_job s job;
     (if is_pfor_type (j_jtype j) then do {
        (err, s) \<leftarrow> fly_make_batches s job (nbworkers s);
        s \<leftarrow> (if FLY_SUCCEEDED err then do {
                s \<leftarrow> fly_sched_move_to_running s job wthread;
                t \<leftarrow> get_wt s wthread;
                notify_workers s (Some (wt_parent t))
              } else fly_destroy_batches s job);
        Some (err, s)
      } else if j_jtype j = FLY_TASK_TASK then fly_sched_add_to_ready s job
      else Some (fly_err FLYESUCCESS, s))
   }"

section \<open>Executing jobs\<close>

definition log_call :: "fly_sched \<Rightarrow> call \<Rightarrow> fly_sched" where
  "log_call s c = s\<lparr>calls := calls s @ [c]\<rparr>"

text \<open>Calling through the wrong member of the union is undefined.\<close>

fun pfor_ptr :: "job_func \<Rightarrow> ptr option" where
  "pfor_ptr (PFor f) = Some f"
| "pfor_ptr (TFunc f) = None"

partial_function (option) pfptrj_loop ::
  "fly_sched \<Rightarrow> ptr \<Rightarrow> ptr \<Rightarrow> int \<Rightarrow> int \<Rightarrow> fly_sched option" where
  "pfptrj_loop s job batch count i =
     (if i < count then
        Option.bind (get_job s job) (\<lambda>j.
        Option.bind (get_batch s batch) (\<lambda>b.
        Option.bind (pfor_ptr (j_func j)) (\<lambda>f.
        Option.bind (c_add (b_start b) i) (\<lambda>x.
          pfptrj_loop (log_call s (PForCall f x (j_data j))) job batch count (i + 1)))))
      else Some s)"

definition inc_batches_done :: "fly_sched \<Rightarrow> ptr \<Rightarrow> fly_sched option" where
  "inc_batches_done s job = do {
     j \<leftarrow> get_job s job;
     (case fly_atomic_inc (j_batches_done j) 1 of (_, v) \<Rightarrow> Some (put_job s job (j\<lparr>j_batches_done := v\<rparr>)))
   }"

definition fly_pfptrj_exec :: "fly_sched \<Rightarrow> ptr \<Rightarrow> (int \<times> fly_sched) option" where
  "fly_pfptrj_exec s job = do {
     (batch, s) \<leftarrow> fly_get_exec_batch s job;
     (if batch \<noteq> NULL then do {
        b \<leftarrow> get_batch s batch;
        count \<leftarrow> c_sub (b_end b) (b_start b);
        s \<leftarrow> pfptrj_loop s job batch count 0;
        s \<leftarrow> inc_batches_done s job;
        Some (0, s)
      } else Some (1, s))
   }"

text \<open>The element's address: \<^verbatim>\<open>int\<close> times \<^verbatim>\<open>size_t\<close>, added to the base, in 64 bits.\<close>

definition elem_addr :: "ptr \<Rightarrow> int \<Rightarrow> nat \<Rightarrow> ptr" where
  "elem_addr data i elsize = nat ((int data + i * int elsize) mod 2 ^ 64)"

partial_function (option) pfarrj_loop ::
  "fly_sched \<Rightarrow> ptr \<Rightarrow> ptr \<Rightarrow> int \<Rightarrow> int \<Rightarrow> ptr \<Rightarrow> fly_sched option" where
  "pfarrj_loop s job batch count i param =
     (if i < count then
        Option.bind (get_job s job) (\<lambda>j.
        Option.bind (get_batch s batch) (\<lambda>b.
        Option.bind (pfor_ptr (j_func j)) (\<lambda>f.
        Option.bind (c_add (b_start b) i) (\<lambda>x.
        Option.bind (get_job (log_call s (PForCall f x param)) (b_job b)) (\<lambda>bj.
        Option.bind (j_elsize bj) (\<lambda>el.
          pfarrj_loop (log_call s (PForCall f x param)) job batch count (i + 1) (elem_addr param 1 el)))))))
      else Some s)"

definition fly_pfarrj_exec :: "fly_sched \<Rightarrow> ptr \<Rightarrow> (int \<times> fly_sched) option" where
  "fly_pfarrj_exec s job = do {
     (batch, s) \<leftarrow> fly_get_exec_batch s job;
     (if batch \<noteq> NULL then do {
        b \<leftarrow> get_batch s batch;
        count \<leftarrow> c_sub (b_end b) (b_start b);
        bj \<leftarrow> get_job s (b_job b);
        el \<leftarrow> j_elsize bj;
        s \<leftarrow> pfarrj_loop s job batch count 0 (elem_addr (j_data bj) (b_start b) el);
        s \<leftarrow> inc_batches_done s job;
        Some (0, s)
      } else Some (1, s))
   }"

definition fly_taskjob_exec :: "fly_sched \<Rightarrow> ptr \<Rightarrow> (int \<times> fly_sched) option" where
  "fly_taskjob_exec s job = do {
     j \<leftarrow> get_job s job;
     t \<leftarrow> get_task s (j_data j);
     Some (0, put_task (log_call s (TaskCall (tk_func t) (tk_param t))) (j_data j)
       (t\<lparr>tk_result := Some (task_fun s (tk_func t) (tk_param t))\<rparr>))
   }"

text \<open>The end of \<^verbatim>\<open>fly_sched_exec_job\<close>: a job whose batches are all done is finished.\<close>

definition finish_if_done :: "fly_sched \<Rightarrow> ptr \<Rightarrow> fly_sched option" where
  "finish_if_done s job = do {
     (d, s) \<leftarrow> fly_job_is_done s job;
     (if d then do {
        s \<leftarrow> set_state s job FLY_JOB_DONE;
        s \<leftarrow> fly_sched_remove_running s job;
        s \<leftarrow> fly_sched_move_to_done s job;
        j \<leftarrow> get_job s job;
        Some (put_job s job (j\<lparr>j_sem := snd (fly_sem_post (j_sem j))\<rparr>))
      } else Some s)
   }"

definition fly_sched_exec_job :: "fly_sched \<Rightarrow> ptr \<Rightarrow> (int \<times> fly_sched) option" where
  "fly_sched_exec_job s job = do {
     j \<leftarrow> get_job s job;
     (shouldsleep, s) \<leftarrow>
       (if j_jtype j = FLY_TASK_PARALLEL_FOR then fly_pfptrj_exec s job
        else if j_jtype j = FLY_TASK_PARALLEL_FOR_ARR then fly_pfarrj_exec s job
        else if j_jtype j = FLY_TASK_TASK then fly_taskjob_exec s job
        else Some (1, s));
     s \<leftarrow> finish_if_done s job;
     Some (shouldsleep, s)
   }"

section \<open>Scheduling\<close>

definition fly_sched_get_job :: "fly_sched \<Rightarrow> wref \<Rightarrow> (ptr \<times> fly_sched) option" where
  "fly_sched_get_job s wthread = do {
     (job, s) \<leftarrow> fly_sched_get_ready s wthread;
     (if job \<noteq> NULL then do {
        j \<leftarrow> get_job s job;
        (if is_pfor_type (j_jtype j) then do {
           s \<leftarrow> fly_sched_move_to_running s job wthread;
           t \<leftarrow> get_wt s wthread;
           s \<leftarrow> notify_workers s (Some (wt_parent t));
           Some (job, s)
         } else if j_jtype j = FLY_TASK_TASK then do {
           s \<leftarrow> fly_sched_move_to_running (put_job s job (j\<lparr>j_batches_done := j_nbbatches j\<rparr>)) job wthread;
           Some (job, s)
         } else Some (job, s))
      } else fly_sched_get_running s wthread)
   }"

definition wait_work :: "fly_sched \<Rightarrow> wref \<Rightarrow> fly_sched option" where
  "wait_work s wthread = do {
     t \<leftarrow> get_wt s wthread;
     t \<leftarrow> fly_worker_thread_wait_work t;
     Some (put_wt s wthread t)
   }"

definition fly_schedule :: "fly_sched \<Rightarrow> wref \<Rightarrow> fly_sched option" where
  "fly_schedule s wthread = do {
     (job, s) \<leftarrow> fly_sched_get_job s wthread;
     (if job = NULL then wait_work s wthread
      else do {
        (r, s) \<leftarrow> fly_sched_exec_job s job;
        (if r \<noteq> 0 then wait_work s wthread else Some s)
      })
   }"

definition fly_schedule_for_job :: "fly_sched \<Rightarrow> ptr \<Rightarrow> fly_sched option" where
  "fly_schedule_for_job s job = do { (_, s) \<leftarrow> fly_sched_exec_job s job; Some s }"

text \<open>\<^verbatim>\<open>fly_wait_job\<close> of \<^verbatim>\<open>src/fly_job.c\<close>, which calls back into the scheduler.\<close>

definition fly_wait_job :: "fly_sched \<Rightarrow> ptr \<Rightarrow> (int \<times> fly_sched) option" where
  "fly_wait_job s job = do {
     j \<leftarrow> get_job s job;
     (err, sem) \<leftarrow> fly_sem_notrack_wait (j_sem j);
     let s = put_job s job (j\<lparr>j_sem := sem\<rparr>);
     (if err = 0 then do {
        (_, s) \<leftarrow> fly_sched_job_collected s job;
        Some (fly_err FLYESUCCESS, s)
      } else Some (fly_err FLYELLLIB, s))
   }"

text \<open>
  \<open>fds r\<close> is the status file of the worker thread \<open>r\<close>; the update reads all of them in turn.
\<close>

fun update_loop :: "fly_sched \<Rightarrow> (wref \<Rightarrow> status_file option) \<Rightarrow> nat list \<Rightarrow>
    (fly_sched \<times> (wref \<Rightarrow> status_file option)) option" where
  "update_loop s fds [] = Some (s, fds)"
| "update_loop s fds (i # is) =
     (if i < length (workers s) then do {
        (w, mfd, bfd) \<leftarrow> fly_worker_update (workers s ! i) (fds (i, MThread)) (fds (i, BThread));
        update_loop (s\<lparr>workers := (workers s)[i := w]\<rparr>)
          (fds((i, MThread) := mfd, (i, BThread) := bfd)) is
      } else None)"

definition fly_sched_update :: "fly_sched \<Rightarrow> (wref \<Rightarrow> status_file option) \<Rightarrow>
    (fly_sched \<times> (wref \<Rightarrow> status_file option)) option" where
  "fly_sched_update s fds = update_loop s fds [0..<nat (nbworkers s)]"

text \<open>\<open>self\<close> is the calling thread.  The result is \<open>None\<close> if it belongs to no worker.\<close>

fun wthread_loop :: "fly_sched \<Rightarrow> nat \<Rightarrow> nat list \<Rightarrow> wref option option" where
  "wthread_loop s self [] = Some None"
| "wthread_loop s self (i # is) =
     (if i < length (workers s) then
        (case fly_worker_get_curr_thread self (workers s ! i) of
           Some w \<Rightarrow> Some (Some (i, w))
         | None \<Rightarrow> wthread_loop s self is)
      else None)"

definition fly_sched_get_wthread :: "fly_sched \<Rightarrow> nat \<Rightarrow> wref option option" where
  "fly_sched_get_wthread s self = wthread_loop s self [0..<nat (nbworkers s)]"

section \<open>Running a section on a free lock\<close>

definition locks_free :: "fly_sched \<Rightarrow> bool" where
  "locks_free s \<longleftrightarrow> (\<forall>k. \<exists>l. get_lock s k = Some l \<and> lock_free l)"

lemma set_lock_simps [simp]:
  "get_lock (set_lock s k x) k = x" "set_lock (set_lock s k x) k y = set_lock s k y"
  "set_lock s k (get_lock s k) = s"
  "nodes (set_lock s k x) = nodes s" "brk (set_lock s k x) = brk s"
  "malloc_ok (set_lock s k x) = malloc_ok s" "jobs (set_lock s k x) = jobs s"
  "batches (set_lock s k x) = batches s" "tasks (set_lock s k x) = tasks s"
  "workers (set_lock s k x) = workers s" "ready_jobs (set_lock s k x) = ready_jobs s"
  "running_jobs (set_lock s k x) = running_jobs s" "done_jobs (set_lock s k x) = done_jobs s"
  "(set_lock s k x)\<lparr>nodes := h\<rparr> = set_lock (s\<lparr>nodes := h\<rparr>) k x"
  "(set_lock s k x)\<lparr>brk := b\<rparr> = set_lock (s\<lparr>brk := b\<rparr>) k x"
  "(set_lock s k x)\<lparr>jobs := jb\<rparr> = set_lock (s\<lparr>jobs := jb\<rparr>) k x"
  "(set_lock s k x)\<lparr>workers := w\<rparr> = set_lock (s\<lparr>workers := w\<rparr>) k x"
  by (cases k; simp)+

lemma get_lock_simps [simp]:
  "get_lock (s\<lparr>nodes := h\<rparr>) k = get_lock s k" "get_lock (s\<lparr>brk := b\<rparr>) k = get_lock s k"
  "get_lock (s\<lparr>jobs := jb\<rparr>) k = get_lock s k" "get_lock (s\<lparr>batches := B\<rparr>) k = get_lock s k"
  "get_lock (s\<lparr>workers := w\<rparr>) k = get_lock s k" "get_lock (s\<lparr>calls := c\<rparr>) k = get_lock s k"
  "get_lock (s\<lparr>tasks := T\<rparr>) k = get_lock s k"
  by (cases k; simp)+

lemma set_lock_same [simp]: "get_lock s k = x \<Longrightarrow> set_lock s k x = s"
  by (cases k) auto

declare set_lock.simps [simp del] get_lock.simps [simp del]

lemma locks_free_simps [simp]:
  "locks_free (s\<lparr>nodes := h\<rparr>) = locks_free s" "locks_free (s\<lparr>brk := b\<rparr>) = locks_free s"
  "locks_free (s\<lparr>jobs := jb\<rparr>) = locks_free s" "locks_free (s\<lparr>batches := B\<rparr>) = locks_free s"
  "locks_free (s\<lparr>workers := w\<rparr>) = locks_free s" "locks_free (s\<lparr>calls := c\<rparr>) = locks_free s"
  "locks_free (s\<lparr>tasks := T\<rparr>) = locks_free s"
  by (simp_all add: locks_free_def)

lemma get_job_set_lock [simp]: "get_job (set_lock s k x) p = get_job s p"
  by (simp add: get_job_def)

lemma put_job_set_lock [simp]: "put_job (set_lock s k x) p j = set_lock (put_job s p j) k x"
  by (simp add: put_job_def)

lemma put_job_sched [simp]:
  "ready_jobs (put_job s p j) = ready_jobs s" "running_jobs (put_job s p j) = running_jobs s"
  "done_jobs (put_job s p j) = done_jobs s" "nbworkers (put_job s p j) = nbworkers s"
  "workers (put_job s p j) = workers s" "get_lock (put_job s p j) k = get_lock s k"
  "calls (put_job s p j) = calls s" "locks_free (put_job s p j) = locks_free s"
  "workers_ptr (put_job s p j) = workers_ptr s" "worker_size (put_job s p j) = worker_size s"
  by (simp_all add: put_job_def)

lemma lists_rep_simps [simp]:
  "lists_rep (set_lock s k x) E = lists_rep s E"
  "lists_rep (put_job s p j) E = lists_rep s E"
  "lists_rep (s\<lparr>workers := w\<rparr>) E = lists_rep s E"
  "lists_rep (s\<lparr>calls := c\<rparr>) E = lists_rep s E"
  "lists_rep (s\<lparr>batches := B\<rparr>) E = lists_rep s E"
  by (auto elim!: lists_rep_cong)

text \<open>The calling thread's state after a tracked section.\<close>

definition touch :: "fly_sched \<Rightarrow> wref \<Rightarrow> fly_sched" where
  "touch s r = (case get_wt s r of None \<Rightarrow> s
     | Some t \<Rightarrow> put_wt s r (t\<lparr>wt_thread := (wt_thread t)\<lparr>t_state := FLY_THREAD_RUNNING\<rparr>\<rparr>))"

lemma touch_crew: "\<exists>w. touch s r = s\<lparr>workers := w\<rparr> \<and> same_crew (workers s) w"
proof (cases "get_wt s r")
  case None
  then have "touch s r = s\<lparr>workers := workers s\<rparr>" by (simp add: touch_def)
  then show ?thesis using same_crew_refl by blast
next
  case (Some t)
  let ?w = "\<lambda>i w. (workers s)[i := case w of
      MThread \<Rightarrow> (workers s ! i)\<lparr>mthread := t\<lparr>wt_thread := (wt_thread t)\<lparr>t_state := FLY_THREAD_RUNNING\<rparr>\<rparr>\<rparr>
    | BThread \<Rightarrow> (workers s ! i)\<lparr>bthread := t\<lparr>wt_thread := (wt_thread t)\<lparr>t_state := FLY_THREAD_RUNNING\<rparr>\<rparr>\<rparr>]"
  obtain i w where iw: "r = (i, w)" by (cases r)
  have "same_crew (workers s) (?w i w)"
    using Some iw
    by (intro same_crew_nth) (auto simp: nth_list_update attrs_def pthreads_def get_wt_def split: which.splits if_splits)
  moreover have "touch s r = s\<lparr>workers := ?w i w\<rparr>" using Some iw by (simp add: touch_def put_wt_def)
  ultimately show ?thesis by blast
qed

lemma touch_workers: "\<exists>w. touch s r = s\<lparr>workers := w\<rparr> \<and> length w = length (workers s)"
  using touch_crew same_crew_length by blast

lemma put_wt_set_lock [simp]: "put_wt (set_lock s k x) r t = set_lock (put_wt s r t) k x"
  by (simp add: put_wt_def split: prod.splits which.splits)

lemma get_wt_cong: "workers s' = workers s \<Longrightarrow> get_wt s' r = get_wt s r"
  by (simp add: get_wt_def split: prod.splits which.splits)

lemma get_lock_put_wt [simp]: "get_lock (put_wt s r t) k = get_lock s k"
  by (cases r) (simp add: put_wt_def)

lemma notrack_section:
  assumes "locks_free s"
  obtains l where "sched_notrack_wlock s k = Some (set_lock s k (Some l))"
    and "\<And>X. get_lock X k = Some l \<Longrightarrow> sched_wunlock X k = Some (set_lock X k (get_lock s k))"
proof -
  obtain l0 where "get_lock s k = Some l0" "lock_free l0"
    using assms by (auto simp: locks_free_def)
  with wsection.acquire_release [of l0] that show ?thesis
    by (auto simp: sched_notrack_wlock_def sched_wunlock_def)
qed

lemma tracked_section:
  assumes "locks_free s" and "get_wt s r \<noteq> None"
  obtains l where "sched_wlock s k r = Some (set_lock (touch s r) k (Some l))"
    and "\<And>X. get_lock X k = Some l \<Longrightarrow> sched_wunlock X k = Some (set_lock X k (get_lock s k))"
proof -
  obtain l0 where "get_lock s k = Some l0" "lock_free l0"
    using assms by (auto simp: locks_free_def)
  with wsection.acquire_release [of l0] that assms(2) show ?thesis
    by (auto simp: sched_wlock_def sched_wunlock_def fly_mrswlock_wlock_def touch_def)
qed

lemma tracked_rsection:
  assumes "locks_free s" and "get_wt s r \<noteq> None"
  obtains l where "sched_rlock s k r = Some (set_lock (touch s r) k (Some l))"
    and "\<And>X. get_lock X k = Some l \<Longrightarrow> sched_runlock X k = Some (set_lock X k (get_lock s k))"
proof -
  obtain l0 where "get_lock s k = Some l0" "lock_free l0"
    using assms by (auto simp: locks_free_def)
  with rsection.acquire_release [of l0] that assms(2) show ?thesis
    by (auto simp: sched_rlock_def sched_runlock_def fly_mrswlock_rlock_def touch_def)
qed

lemma touch_simps [simp]:
  "nodes (touch s r) = nodes s" "brk (touch s r) = brk s" "malloc_ok (touch s r) = malloc_ok s"
  "jobs (touch s r) = jobs s" "batches (touch s r) = batches s" "tasks (touch s r) = tasks s"
  "calls (touch s r) = calls s" "nbworkers (touch s r) = nbworkers s"
  "workers_ptr (touch s r) = workers_ptr s" "worker_size (touch s r) = worker_size s"
  "task_fun (touch s r) = task_fun s" "sem_ok (touch s r) = sem_ok s"
  "ready_jobs (touch s r) = ready_jobs s" "running_jobs (touch s r) = running_jobs s"
  "done_jobs (touch s r) = done_jobs s" "get_lock (touch s r) k = get_lock s k"
  "length (workers (touch s r)) = length (workers s)" "lists_rep (touch s r) E = lists_rep s E"
  "locks_free (touch s r) = locks_free s"
  using touch_workers [of s r] by auto

lemma get_job_touch [simp]: "get_job (touch s r) p = get_job s p"
  by (simp add: get_job_def)

lemma touch_nodes [simp]: "(touch s r)\<lparr>nodes := nodes s\<rparr> = touch s r"
  using touch_workers [of s r] by auto

section \<open>The queues as lists\<close>

text \<open>
  \<open>sched_rep s E R U D\<close>: the node heap of \<open>s\<close> is \<open>E\<close>, in which the three queues hold
  \<open>R\<close> (ready), \<open>U\<close> (running) and \<open>D\<close> (done); no lock is taken; the workers are there.
\<close>

definition sched_rep ::
  "fly_sched \<Rightarrow> (ptr \<rightharpoonup> ptr list) \<Rightarrow> ptr list \<Rightarrow> ptr list \<Rightarrow> ptr list \<Rightarrow> bool" where
  "sched_rep s E R U D \<longleftrightarrow> lists_rep s E \<and> locks_free s \<and> job_mem_ok s \<and>
     E (ready_jobs s) = Some R \<and> E (running_jobs s) = Some U \<and> E (done_jobs s) = Some D \<and>
     distinct [ready_jobs s, running_jobs s, done_jobs s] \<and> nbworkers s = int (length (workers s))"

lemma sched_repD:
  assumes "sched_rep s E R U D"
  shows "lists_rep s E" and "locks_free s" and "job_mem_ok s" and "E (ready_jobs s) = Some R"
    and "E (running_jobs s) = Some U" and "E (done_jobs s) = Some D"
    and "distinct [ready_jobs s, running_jobs s, done_jobs s]"
    and "nbworkers s = int (length (workers s))"
  using assms unfolding sched_rep_def by simp_all

lemma job_mem_ok_simps [simp]:
  "job_mem_ok (touch s r) = job_mem_ok s"
  "job_mem_ok (s\<lparr>workers := w\<rparr>) = job_mem_ok s"
  "job_mem_ok (s\<lparr>calls := c\<rparr>) = job_mem_ok s"
  by (simp_all add: job_mem_ok_def node_mem_ok_def)

lemma job_mem_ok_heap:
  "job_mem_ok s \<Longrightarrow> lists_rep (s\<lparr>brk := b, nodes := h\<rparr>) E \<Longrightarrow> brk s \<le> b \<Longrightarrow>
    job_mem_ok (s\<lparr>brk := b, nodes := h\<rparr>)"
  using lists_rep_ok [of "s\<lparr>brk := b, nodes := h\<rparr>" E] by (simp add: job_mem_ok_def)

lemma job_mem_ok_nodes:
  "job_mem_ok s \<Longrightarrow> lists_rep (s\<lparr>nodes := h\<rparr>) E \<Longrightarrow> job_mem_ok (s\<lparr>nodes := h\<rparr>)"
  using lists_rep_ok [of "s\<lparr>nodes := h\<rparr>" E] by (simp add: job_mem_ok_def)

text \<open>Each queue operation, as an update of the lists.\<close>

lemma add_to_ready_run:
  assumes "sched_rep s E R U D"
  shows "\<exists>h. fly_sched_add_to_ready s job =
      Some (if malloc_ok s (brk s) then 0 else 1, s\<lparr>brk := Suc (brk s), nodes := h\<rparr>) \<and>
    (if malloc_ok s (brk s)
     then sched_rep (s\<lparr>brk := Suc (brk s), nodes := h\<rparr>) (E(ready_jobs s \<mapsto> R @ [job])) (R @ [job]) U D
     else sched_rep (s\<lparr>brk := Suc (brk s), nodes := h\<rparr>) E R U D)"
proof -
  note d = sched_repD [OF assms]
  obtain l where l: "sched_notrack_wlock s ReadyL = Some (set_lock s ReadyL (Some l))"
    "\<And>X. get_lock X ReadyL = Some l \<Longrightarrow> sched_wunlock X ReadyL = Some (set_lock X ReadyL (get_lock s ReadyL))"
    using notrack_section [OF d(2)] by blast
  let ?s = "set_lock s ReadyL (Some l)"
  have "lists_rep ?s E" using d(1) by simp
  from lists_append [OF this d(4), of job] obtain h where
    h: "fly_list_append ?s (ready_jobs s) job =
        Some (if malloc_ok s (brk s) then 0 else 1, set_lock (s\<lparr>brk := Suc (brk s), nodes := h\<rparr>) ReadyL (Some l))"
    "lists_rep (s\<lparr>brk := Suc (brk s), nodes := h\<rparr>) (if malloc_ok s (brk s) then E(ready_jobs s \<mapsto> R @ [job]) else E)"
    by auto
  with h l have run: "fly_sched_add_to_ready s job =
      Some (if malloc_ok s (brk s) then 0 else 1, s\<lparr>brk := Suc (brk s), nodes := h\<rparr>)"
    by (simp add: fly_sched_add_to_ready_def)
  have "job_mem_ok (s\<lparr>brk := Suc (brk s), nodes := h\<rparr>)"
    using job_mem_ok_heap [OF d(3) h(2)] by simp
  with run h(2) d show ?thesis
    by (intro exI [of _ h]) (auto simp: sched_rep_def)
qed

lemma get_ready_run:
  assumes "sched_rep s E R U D" and "get_wt s t \<noteq> None"
  shows "\<exists>h. fly_sched_get_ready s t = Some (if R = [] then NULL else last R, (touch s t)\<lparr>nodes := h\<rparr>) \<and>
    sched_rep ((touch s t)\<lparr>nodes := h\<rparr>) (E(ready_jobs s \<mapsto> butlast R)) (butlast R) U D"
proof -
  note d = sched_repD [OF assms(1)]
  obtain l where l: "sched_wlock s ReadyL t = Some (set_lock (touch s t) ReadyL (Some l))"
    "\<And>X. get_lock X ReadyL = Some l \<Longrightarrow> sched_wunlock X ReadyL = Some (set_lock X ReadyL (get_lock s ReadyL))"
    using tracked_section [OF d(2) assms(2)] by blast
  let ?s = "set_lock (touch s t) ReadyL (Some l)"
  have rep: "lists_rep ?s E" using d(1) by simp
  have "\<exists>h. fly_list_tail_remove ?s (ready_jobs s) = Some (if R = [] then NULL else last R, ?s\<lparr>nodes := h\<rparr>) \<and>
    lists_rep ((touch s t)\<lparr>nodes := h\<rparr>) (E(ready_jobs s \<mapsto> butlast R))"
  proof (cases R rule: rev_cases)
    case Nil
    moreover have "E(ready_jobs s \<mapsto> []) = E" using d(4) Nil by auto
    ultimately show ?thesis
      using lists_pop_empty [OF rep] d(1,4) by (intro exI [of _ "nodes s"]) simp
  next
    case (snoc R' job)
    with lists_pop [OF rep, of "ready_jobs s" R' job] d(4) show ?thesis by auto
  qed
  then obtain h where h: "fly_list_tail_remove ?s (ready_jobs s) =
      Some (if R = [] then NULL else last R, ?s\<lparr>nodes := h\<rparr>)"
    "lists_rep ((touch s t)\<lparr>nodes := h\<rparr>) (E(ready_jobs s \<mapsto> butlast R))" by blast
  have "job_mem_ok ((touch s t)\<lparr>nodes := h\<rparr>)"
    using job_mem_ok_nodes [OF _ h(2)] d(3) by simp
  with l h d show ?thesis
    by (intro exI [of _ h]) (auto simp: fly_sched_get_ready_def sched_rep_def)
qed

lemma move_to_running_run:
  assumes "sched_rep s E R U D" and "get_wt s t \<noteq> None" and "get_job s job = Some j"
  shows "\<exists>h. let s' = (put_job (touch s t) job (j\<lparr>j_state := FLY_JOB_RUNNING\<rparr>))\<lparr>brk := Suc (brk s), nodes := h\<rparr>;
      U' = (if malloc_ok s (brk s) then U @ [job] else U) in
    fly_sched_move_to_running s job t = Some s' \<and> sched_rep s' (E(running_jobs s \<mapsto> U')) R U' D"
proof -
  note d = sched_repD [OF assms(1)]
  obtain l where l: "sched_wlock s RunningL t = Some (set_lock (touch s t) RunningL (Some l))"
    "\<And>X. get_lock X RunningL = Some l \<Longrightarrow> sched_wunlock X RunningL = Some (set_lock X RunningL (get_lock s RunningL))"
    using tracked_section [OF d(2) assms(2)] by blast
  let ?s = "put_job (touch s t) job (j\<lparr>j_state := FLY_JOB_RUNNING\<rparr>)"
  let ?U = "if malloc_ok s (brk s) then U @ [job] else U"
  have "get_job (touch s t) job = Some j" using assms(3) by (simp add: get_job_iff)
  then have st: "set_state (set_lock (touch s t) RunningL (Some l)) job FLY_JOB_RUNNING = Some (set_lock ?s RunningL (Some l))"
    by (simp add: set_state_def)
  have "lists_rep (set_lock ?s RunningL (Some l)) E" using d(1) by simp
  from lists_append_upd [OF this d(5), of job] obtain h where
    h: "fly_list_append (set_lock ?s RunningL (Some l)) (running_jobs s) job =
        Some (if malloc_ok s (brk s) then 0 else 1, set_lock (?s\<lparr>brk := Suc (brk s), nodes := h\<rparr>) RunningL (Some l))"
    "lists_rep (?s\<lparr>brk := Suc (brk s), nodes := h\<rparr>) (E(running_jobs s \<mapsto> ?U))"
    by auto
  have "\<not> brk s \<le> job" using d(3) assms(3) by (auto simp: job_mem_ok_def get_job_iff)
  then have "job_mem_ok ?s" using d(3) by (simp add: job_mem_ok_def node_mem_ok_def put_job_def)
  with job_mem_ok_heap [of ?s, OF _ h(2)] have "job_mem_ok (?s\<lparr>brk := Suc (brk s), nodes := h\<rparr>)" by simp
  with h(2) d have "sched_rep (?s\<lparr>brk := Suc (brk s), nodes := h\<rparr>) (E(running_jobs s \<mapsto> ?U)) R ?U D"
    by (simp add: sched_rep_def)
  moreover have "fly_sched_move_to_running s job t = Some (?s\<lparr>brk := Suc (brk s), nodes := h\<rparr>)"
    using l h(1) st by (simp add: fly_sched_move_to_running_def)
  ultimately show ?thesis unfolding Let_def by blast
qed

lemma remove_running_run:
  assumes "sched_rep s E R U D"
  shows "\<exists>h. fly_sched_remove_running s job = Some (s\<lparr>nodes := h\<rparr>) \<and>
    sched_rep (s\<lparr>nodes := h\<rparr>) (E(running_jobs s \<mapsto> remove1 job U)) R (remove1 job U) D"
proof -
  note d = sched_repD [OF assms(1)]
  obtain l where l: "sched_notrack_wlock s RunningL = Some (set_lock s RunningL (Some l))"
    "\<And>X. get_lock X RunningL = Some l \<Longrightarrow> sched_wunlock X RunningL = Some (set_lock X RunningL (get_lock s RunningL))"
    using notrack_section [OF d(2)] by blast
  have "lists_rep (set_lock s RunningL (Some l)) E" using d(1) by simp
  from lists_remove [OF this d(5), of job] obtain h where
    h: "fly_list_remove (set_lock s RunningL (Some l)) (running_jobs s) job =
        Some (set_lock (s\<lparr>nodes := h\<rparr>) RunningL (Some l))"
    "lists_rep (s\<lparr>nodes := h\<rparr>) (E(running_jobs s \<mapsto> remove1 job U))" by auto
  with l d job_mem_ok_nodes [OF d(3) h(2)] show ?thesis
    by (intro exI [of _ h]) (auto simp: fly_sched_remove_running_def sched_rep_def)
qed

lemma job_collected_run:
  assumes "sched_rep s E R U D"
  shows "\<exists>h. fly_sched_job_collected s job = Some (0, s\<lparr>nodes := h\<rparr>) \<and>
    sched_rep (s\<lparr>nodes := h\<rparr>) (E(done_jobs s \<mapsto> remove1 job D)) R U (remove1 job D)"
proof -
  note d = sched_repD [OF assms(1)]
  obtain l where l: "sched_notrack_wlock s DoneL = Some (set_lock s DoneL (Some l))"
    "\<And>X. get_lock X DoneL = Some l \<Longrightarrow> sched_wunlock X DoneL = Some (set_lock X DoneL (get_lock s DoneL))"
    using notrack_section [OF d(2)] by blast
  have "lists_rep (set_lock s DoneL (Some l)) E" using d(1) by simp
  from lists_remove [OF this d(6), of job] obtain h where
    h: "fly_list_remove (set_lock s DoneL (Some l)) (done_jobs s) job =
        Some (set_lock (s\<lparr>nodes := h\<rparr>) DoneL (Some l))"
    "lists_rep (s\<lparr>nodes := h\<rparr>) (E(done_jobs s \<mapsto> remove1 job D))" by auto
  with l d job_mem_ok_nodes [OF d(3) h(2)] show ?thesis
    by (intro exI [of _ h]) (auto simp: fly_sched_job_collected_def sched_rep_def)
qed

lemma move_to_done_run:
  assumes "sched_rep s E R U D"
  shows "\<exists>h. let s' = s\<lparr>brk := Suc (brk s), nodes := h\<rparr>; D' = (if malloc_ok s (brk s) then D @ [job] else D) in
    fly_sched_move_to_done s job = Some s' \<and> sched_rep s' (E(done_jobs s \<mapsto> D')) R U D'"
proof -
  note d = sched_repD [OF assms(1)]
  obtain l where l: "sched_notrack_wlock s DoneL = Some (set_lock s DoneL (Some l))"
    "\<And>X. get_lock X DoneL = Some l \<Longrightarrow> sched_wunlock X DoneL = Some (set_lock X DoneL (get_lock s DoneL))"
    using notrack_section [OF d(2)] by blast
  let ?D = "if malloc_ok s (brk s) then D @ [job] else D"
  have "lists_rep (set_lock s DoneL (Some l)) E" using d(1) by simp
  from lists_append_upd [OF this d(6), of job] obtain h where
    h: "fly_list_append (set_lock s DoneL (Some l)) (done_jobs s) job =
        Some (if malloc_ok s (brk s) then 0 else 1, set_lock (s\<lparr>brk := Suc (brk s), nodes := h\<rparr>) DoneL (Some l))"
    "lists_rep (s\<lparr>brk := Suc (brk s), nodes := h\<rparr>) (E(done_jobs s \<mapsto> ?D))"
    by auto
  with l d job_mem_ok_heap [OF d(3) h(2)] show ?thesis
    by (intro exI [of _ h]) (auto simp: fly_sched_move_to_done_def sched_rep_def Let_def)
qed

section \<open>The running queue's scan and the notification of the workers\<close>

definition complete :: "fly_sched \<Rightarrow> ptr \<Rightarrow> bool" where
  "complete s p = (case jobs s p of Some j \<Rightarrow> j_batches_done j = j_nbbatches j | None \<Rightarrow> False)"

text \<open>The first job that is not complete; without one, the last job, complete as it is.\<close>

definition running_pick :: "(ptr \<Rightarrow> bool) \<Rightarrow> ptr list \<Rightarrow> ptr \<Rightarrow> ptr" where
  "running_pick dn U job = (case filter (\<lambda>x. \<not> dn x) U of x # _ \<Rightarrow> x
     | [] \<Rightarrow> if U = [] then job else last U)"

lemma running_pick_simps [simp]:
  "running_pick dn [] job = job"
  "running_pick dn (x # xs) job = (if dn x then running_pick dn xs x else x)"
  by (auto simp: running_pick_def split: list.splits)

lemma running_loop_seg:
  assumes "seg (nodes s) p xs NULL" and "NULL \<notin> fst ` set xs" and "\<forall>x \<in> snd ` set xs. get_job s x \<noteq> None"
  shows "running_loop s (first_node xs NULL) job = Some (running_pick (complete s) (map snd xs) job)"
  using assms
proof (induction xs arbitrary: p job)
  case Nil
  then show ?case by (subst running_loop.simps) simp
next
  case (Cons x xs)
  obtain n e where x: "x = (n, e)" by (cases x)
  obtain j where j: "get_job s e = Some j" using Cons.prems(3) x by auto
  then have c: "complete s e \<longleftrightarrow> j_batches_done j = j_nbbatches j"
    by (simp add: complete_def get_job_iff)
  have "running_loop s (first_node xs NULL) e = Some (running_pick (complete s) (map snd xs) e)"
    using Cons.prems x by (intro Cons.IH [of n]) auto
  with Cons.prems x j c show ?case
    by (subst running_loop.simps) (auto simp: heap_defs)
qed

lemma get_running_run:
  assumes "sched_rep s E R U D" and "get_wt s t \<noteq> None" and "\<forall>x \<in> set U. get_job s x \<noteq> None"
  shows "fly_sched_get_running s t = Some (running_pick (complete s) U NULL, touch s t)"
proof -
  note d = sched_repD [OF assms(1)]
  obtain l where l: "sched_rlock s RunningL t = Some (set_lock (touch s t) RunningL (Some l))"
    "\<And>X. get_lock X RunningL = Some l \<Longrightarrow> sched_runlock X RunningL = Some (set_lock X RunningL (get_lock s RunningL))"
    using tracked_rsection [OF d(2) assms(2)] by blast
  let ?s = "set_lock (touch s t) RunningL (Some l)"
  obtain xs where xs: "map snd xs = U" "dll (nodes s) (running_jobs s) xs"
    using d(1,5) by (rule lists_repE)
  have head: "fly_list_head ?s (running_jobs s) = Some (first_node xs NULL)"
    using dll_head [of ?s "running_jobs s" xs] xs(2) by (simp add: fly_list_head_def)
  have "complete ?s = complete s" by (rule ext) (simp add: complete_def)
  moreover have "\<forall>x \<in> snd ` set xs. get_job ?s x \<noteq> None"
    using assms(3) unfolding xs(1) [symmetric] by simp
  ultimately have "running_loop ?s (first_node xs NULL) NULL = Some (running_pick (complete s) U NULL)"
    using running_loop_seg [of ?s NULL xs NULL] xs by (auto simp: dll_def)
  with l head show ?thesis by (simp add: fly_sched_get_running_def)
qed

text \<open>Each worker but the skipped one is notified once.\<close>

definition notified :: "fly_sched \<Rightarrow> ptr option \<Rightarrow> fly_worker list" where
  "notified s skip = map (\<lambda>i. if Some (worker_addr s i) \<noteq> skip
     then fly_worker_work_available (workers s ! i) else workers s ! i) [0..<length (workers s)]"

lemma notified_crew: "workers s = ws \<Longrightarrow> same_crew ws (notified s skip)"
  by (intro same_crew_nth) (auto simp: notified_def)

lemma worker_addr_workers [simp]: "worker_addr (s\<lparr>workers := w\<rparr>) i = worker_addr s i"
  by (simp add: worker_addr_def)

lemma notify_loop_run:
  assumes "length ws = n" and "k \<le> n"
  shows "notify_loop (s\<lparr>workers := ws\<rparr>) skip [k..<n] = Some (s\<lparr>workers := take k ws @
    map (\<lambda>i. if Some (worker_addr s i) \<noteq> skip then fly_worker_work_available (ws ! i) else ws ! i) [k..<n]\<rparr>)"
  using assms
proof (induction "n - k" arbitrary: k ws)
  case 0
  then show ?case by simp
next
  case (Suc d)
  then have k: "k < n" "[k..<n] = k # [Suc k..<n]" by (simp_all add: upt_conv_Cons)
  let ?w = "if Some (worker_addr s k) \<noteq> skip then fly_worker_work_available (ws ! k) else ws ! k"
  let ?ws = "ws[k := ?w]"
  have "notify_loop (s\<lparr>workers := ws\<rparr>) skip [k..<n] = notify_loop (s\<lparr>workers := ?ws\<rparr>) skip [Suc k..<n]"
    using k Suc.prems by simp
  also have "\<dots> = Some (s\<lparr>workers := take (Suc k) ?ws @
      map (\<lambda>i. if Some (worker_addr s i) \<noteq> skip then fly_worker_work_available (?ws ! i) else ?ws ! i) [Suc k..<n]\<rparr>)"
    using Suc.hyps(2) Suc.prems k(1) by (intro Suc.hyps(1)) auto
  also have "take (Suc k) ?ws = take k ws @ [?w]"
    using k(1) Suc.prems(1) by (simp add: take_Suc_conv_app_nth)
  also have "map (\<lambda>i. if Some (worker_addr s i) \<noteq> skip then fly_worker_work_available (?ws ! i) else ?ws ! i) [Suc k..<n] =
      map (\<lambda>i. if Some (worker_addr s i) \<noteq> skip then fly_worker_work_available (ws ! i) else ws ! i) [Suc k..<n]"
    by simp
  finally show ?case using k(2) by simp
qed

lemma notify_workers_run:
  assumes "nbworkers s = int (length (workers s))"
  shows "notify_workers s skip = Some (s\<lparr>workers := notified s skip\<rparr>)"
  using notify_loop_run [of "workers s" "length (workers s)" 0 s skip] assms
  by (simp add: notify_workers_def notified_def)

lemma sched_rep_workers:
  "sched_rep s E R U D \<Longrightarrow> length w = length (workers s) \<Longrightarrow> sched_rep (s\<lparr>workers := w\<rparr>) E R U D"
  by (simp add: sched_rep_def)

lemma length_notified [simp]: "length (notified s skip) = length (workers s)"
  by (simp add: notified_def)

text \<open>Only the heaps of jobs, batches and list nodes change.\<close>

definition heap_step :: "fly_sched \<Rightarrow> fly_sched \<Rightarrow> bool" where
  "heap_step s s' \<longleftrightarrow> (\<exists>J B b h. s' = s\<lparr>jobs := J, batches := B, brk := b, nodes := h\<rparr>)"

lemma heap_stepI: "s' = s\<lparr>jobs := J, batches := B, brk := b, nodes := h\<rparr> \<Longrightarrow> heap_step s s'"
  unfolding heap_step_def by blast

lemma heap_step_trans: "heap_step s s' \<Longrightarrow> heap_step s' s'' \<Longrightarrow> heap_step s s''"
  unfolding heap_step_def by (elim exE, hypsubst, intro exI) simp

lemma heap_step_simps:
  assumes "heap_step s s'"
  shows "workers s' = workers s" and "calls s' = calls s" and "malloc_ok s' = malloc_ok s"
    and "tasks s' = tasks s" and "nbworkers s' = nbworkers s" and "ready_jobs s' = ready_jobs s"
    and "running_jobs s' = running_jobs s" and "done_jobs s' = done_jobs s"
    and "task_fun s' = task_fun s" and "workers_ptr s' = workers_ptr s" and "worker_size s' = worker_size s"
  using assms by (auto simp: heap_step_def)

lemma heap_step_nodes: "heap_step s (s\<lparr>nodes := h\<rparr>)" "heap_step s (s\<lparr>brk := b, nodes := h\<rparr>)"
  "heap_step s (put_job s p j)" "heap_step s (s\<lparr>nodes := h, batches := B\<rparr>)"
proof -
  show "heap_step s (s\<lparr>nodes := h\<rparr>)"
    by (rule heap_stepI [where J = "jobs s" and B = "batches s" and b = "brk s" and h = h]) simp
  show "heap_step s (s\<lparr>brk := b, nodes := h\<rparr>)"
    by (rule heap_stepI [where J = "jobs s" and B = "batches s" and b = b and h = h]) simp
  show "heap_step s (put_job s p j)"
    by (rule heap_stepI [where J = "(jobs s)(p \<mapsto> j)" and B = "batches s" and b = "brk s" and h = "nodes s"])
      (simp add: put_job_def)
  show "heap_step s (s\<lparr>nodes := h, batches := B\<rparr>)"
    by (rule heap_stepI [where J = "jobs s" and B = B and b = "brk s" and h = h]) simp
qed

text \<open>The job at \<open>job\<close>, its batches at \<open>es\<close> and what they hold.\<close>

definition job_holds :: "fly_sched \<Rightarrow> ptr \<Rightarrow> fly_job \<Rightarrow> ptr list \<Rightarrow> fly_job_batch list \<Rightarrow> bool" where
  "job_holds s job j es bs \<longleftrightarrow> get_job s job = Some j \<and> distinct es \<and> NULL \<notin> set es \<and>
     map (batches s) es = map Some bs \<and> (\<forall>b \<in> set bs. b_job b = job)"

lemma job_holds_cong: "job_holds s job j es bs \<Longrightarrow> jobs s' job = jobs s job \<Longrightarrow> batches s' = batches s \<Longrightarrow>
    job_holds s' job j es bs"
  by (simp add: job_holds_def get_job_iff)

text \<open>No job but \<open>job\<close> and no batch but those in \<open>es\<close> changes.\<close>

definition keeps :: "ptr \<Rightarrow> ptr list \<Rightarrow> fly_sched \<Rightarrow> fly_sched \<Rightarrow> bool" where
  "keeps job es s s' \<longleftrightarrow> (\<forall>p. p \<noteq> job \<longrightarrow> jobs s' p = jobs s p) \<and> (\<forall>p. p \<notin> set es \<longrightarrow> batches s' p = batches s p)"

lemma keepsI:
  "(\<And>p. p \<noteq> job \<Longrightarrow> jobs s' p = jobs s p) \<Longrightarrow> (\<And>p. p \<notin> set es \<Longrightarrow> batches s' p = batches s p) \<Longrightarrow>
    keeps job es s s'"
  by (simp add: keeps_def)

lemma keeps_trans [trans]: "keeps job es s s1 \<Longrightarrow> keeps job es s1 s2 \<Longrightarrow> keeps job es s s2"
  by (simp add: keeps_def)

definition not_queue :: "fly_sched \<Rightarrow> ptr \<Rightarrow> bool" where
  "not_queue s p \<longleftrightarrow> p \<noteq> ready_jobs s \<and> p \<noteq> running_jobs s \<and> p \<noteq> done_jobs s"

text \<open>A job that can be given to \<^verbatim>\<open>fly_sched_add_job\<close>: created, not yet split.\<close>

definition addable :: "fly_sched \<Rightarrow> (ptr \<rightharpoonup> ptr list) \<Rightarrow> ptr \<Rightarrow> fly_job \<Rightarrow> int \<Rightarrow> int \<Rightarrow> bool" where
  "addable s E job j js je \<longleftrightarrow> E job = Some [] \<and> not_queue s job \<and> get_job s job = Some j \<and>
     is_pfor_type (j_jtype j) \<and> j_start j = Some js \<and> j_end j = Some je \<and>
     batch_range_ok js je (nbworkers s)"

definition ready_job :: "fly_job \<Rightarrow> int \<Rightarrow> fly_job" where
  "ready_job j nb = j\<lparr>j_nbbatches := nb, j_state := FLY_JOB_READY\<rparr>"

section \<open>Splitting and enqueueing a job\<close>

lemma make_batches_sched:
  assumes "sched_rep s E R U D" and "addable s E job j js je" and "nb = nbworkers s"
  shows "\<exists>err s1. fly_make_batches s job nb = Some (err, s1) \<and> heap_step s s1 \<and>
    (\<forall>p. p \<noteq> job \<longrightarrow> jobs s1 p = jobs s p) \<and>
    (if FLY_SUCCEEDED err
     then \<exists>es. sched_rep s1 (E(job \<mapsto> es)) R U D \<and> batches s1 |` (- set es) = batches s \<and>
       job_holds s1 job (ready_job j nb) es (batch_plan job js (je - js) nb)
     else err = fly_err FLYENORES \<and> sched_rep s1 E R U D \<and> batches s1 = batches s \<and>
       get_job s1 job = Some (j\<lparr>j_state := FLY_JOB_IDLE\<rparr>)) \<and>
    ((\<forall>p. malloc_ok s p) \<longrightarrow> err = fly_err FLYESUCCESS)"
proof -
  note d = sched_repD [OF assms(1)]
  have a: "E job = Some []" "not_queue s job" "get_job s job = Some j" "j_start j = Some js"
    "j_end j = Some je" "batch_range_ok js je nb" using assms(2,3) by (simp_all add: addable_def)
  have job: "job \<noteq> NULL" "job < brk s"
    using a(1) lists_rep_dom [OF d(1), of job] by auto
  have "dll (nodes s) job []" using d(1) a(1) by (rule lists_repE) auto
  from make_batches_runs [OF d(3) this a(3-6)] obtain err s1 where
    r: "fly_make_batches s job nb = Some (err, s1)" "batches_made job nb s (err, s1)"
    "(\<forall>p. malloc_ok s p) \<longrightarrow> err = fly_err FLYESUCCESS" by blast
  have E: "(E(job \<mapsto> es)) (ready_jobs s) = Some R" "(E(job \<mapsto> es)) (running_jobs s) = Some U"
    "(E(job \<mapsto> es)) (done_jobs s) = Some D" for es
    using d(4-6) a(2) by (auto simp: not_queue_def)
  show ?thesis
  proof (cases "err = 0")
    case True
    let ?j = "j\<lparr>j_nbbatches := nb, j_state := FLY_JOB_READY\<rparr>"
    obtain es where rep: "batch_rep job (put_job s job ?j) s1 es (batch_plan job js (je - js) nb)" "brk s \<le> brk s1"
      using r(2) True a(3-5) by (auto simp: batches_made_def Let_def)
    note b = batch_repD [OF rep(1)]
    have "lists_rep ((put_job s job ?j)\<lparr>batches := batches s1\<rparr>) E" using d(1) by simp
    from lists_rep_one [OF this a(1) b(1)] have L: "lists_rep s1 (E(job \<mapsto> es))" .
    obtain bb h where "s1 = (put_job s job ?j)\<lparr>batches := batches s1\<rparr>\<lparr>brk := bb, nodes := h\<rparr>"
      using b(1) by (rule list_repE)
    then obtain B where s1: "s1 = s\<lparr>jobs := (jobs s)(job \<mapsto> ?j), batches := B, brk := bb, nodes := h\<rparr>"
      by (auto simp: put_job_def)
    have "job_mem_ok s1"
      using d(3) lists_rep_ok [OF L] b(7) rep(2) job(2) by (auto simp: job_mem_ok_def s1)
    then have S: "sched_rep s1 (E(job \<mapsto> es)) R U D"
      using L d(2,7,8) E [of es] by (simp add: sched_rep_def s1)
    have "get_job s1 job = Some ?j" using job(1) by (simp add: s1 get_job_def)
    moreover have "batches s1 |` (- set es) = batches s"
    proof
      fix p
      show "(batches s1 |` (- set es)) p = batches s p"
        using b(5,6) b(8) [of p] by (cases "p \<in> dom (batches s)") (auto simp: restrict_map_def domIff)
    qed
    moreover have "heap_step s s1" using s1 by (rule heap_stepI)
    moreover have "\<forall>p. p \<noteq> job \<longrightarrow> jobs s1 p = jobs s p" by (simp add: s1)
    ultimately show ?thesis
      using r(1,3) True S b(3,4,9) plan_job [of nb job js "je - js"] a(6) by (auto simp: job_holds_def ready_job_def batch_range_ok_def)
  next
    case False
    let ?j = "j\<lparr>j_state := FLY_JOB_IDLE\<rparr>"
    have "err = fly_err FLYENORES \<and> s1 = (put_job s job ?j)\<lparr>brk := brk s1\<rparr> \<and> brk s \<le> brk s1"
      using r(2) False a(3-5) by (auto simp: batches_made_def Let_def)
    then obtain bb where b: "err = fly_err FLYENORES" "s1 = (put_job s job ?j)\<lparr>brk := bb\<rparr>" "brk s \<le> bb"
      by metis
    have J: "s1 = s\<lparr>jobs := (jobs s)(job \<mapsto> ?j), batches := batches s, brk := bb, nodes := nodes s\<rparr>"
      by (simp add: b(2) put_job_def)
    have ok: "job_mem_ok s1"
      using d(3) b(3) job(2) by (auto simp: job_mem_ok_def node_mem_ok_def J)
    obtain F where F: "heap_lists s F" "E = (\<lambda>l. map_option (map snd) (F l))"
      using d(1) unfolding lists_rep_def by blast
    have "heap_lists s1 F"
      using F(1) ok unfolding heap_lists_def job_mem_ok_def by (simp add: J)
    then have "lists_rep s1 E" using F(2) unfolding lists_rep_def by blast
    with ok d have "sched_rep s1 E R U D" by (simp add: sched_rep_def J)
    moreover have "get_job s1 job = Some ?j" using job(1) by (simp add: J get_job_def)
    moreover have "heap_step s s1" using J by (rule heap_stepI)
    moreover have "\<forall>p. p \<noteq> job \<longrightarrow> jobs s1 p = jobs s p" "batches s1 = batches s" by (simp_all add: J)
    ultimately show ?thesis
      using r(1,3) False b(1) by auto
  qed
qed

lemma add_pfj_run:
  assumes "sched_rep s E R U D" and "addable s E job j js je"
  shows "\<exists>err s'. fly_sched_add_pfj s job = Some (err, s') \<and> heap_step s s' \<and>
    (\<forall>p. p \<noteq> job \<longrightarrow> jobs s' p = jobs s p) \<and> get_job s' job \<noteq> None \<and>
    (if FLY_SUCCEEDED err
     then \<exists>es. sched_rep s' (E(job \<mapsto> es, ready_jobs s \<mapsto> R @ [job])) (R @ [job]) U D \<and>
       batches s' |` (- set es) = batches s \<and> job_holds s' job (ready_job j (nbworkers s)) es (batch_plan job js (je - js) (nbworkers s))
     else err = fly_err FLYENORES \<and> sched_rep s' E R U D \<and> batches s' = batches s) \<and>
    ((\<forall>p. malloc_ok s p) \<longrightarrow> err = fly_err FLYESUCCESS)"
proof -
  let ?nb = "nbworkers s" and ?plan = "batch_plan job js (je - js) (nbworkers s)"
  have a: "E job = Some []" "not_queue s job" "get_job s job = Some j" "j_start j = Some js"
    "j_end j = Some je" "batch_range_ok js je ?nb" using assms(2) by (simp_all add: addable_def)
  obtain err s1 where r: "fly_make_batches s job ?nb = Some (err, s1)" "heap_step s s1"
    "\<forall>p. p \<noteq> job \<longrightarrow> jobs s1 p = jobs s p"
    "if FLY_SUCCEEDED err
     then \<exists>es. sched_rep s1 (E(job \<mapsto> es)) R U D \<and> batches s1 |` (- set es) = batches s \<and>
       job_holds s1 job (ready_job j ?nb) es ?plan
     else err = fly_err FLYENORES \<and> sched_rep s1 E R U D \<and> batches s1 = batches s \<and>
       get_job s1 job = Some (j\<lparr>j_state := FLY_JOB_IDLE\<rparr>)"
    "(\<forall>p. malloc_ok s p) \<longrightarrow> err = fly_err FLYESUCCESS"
    using make_batches_sched [OF assms(1,2) refl] by blast
  show ?thesis
  proof (cases "err = 0")
    case False
    with r show ?thesis by (auto simp: fly_sched_add_pfj_def)
  next
    case True
    then obtain es where es: "sched_rep s1 (E(job \<mapsto> es)) R U D" "batches s1 |` (- set es) = batches s"
      "job_holds s1 job (ready_job j ?nb) es ?plan" using r(4) by auto
    note hs = heap_step_simps [OF r(2)]
    obtain h s2 where h: "fly_sched_add_to_ready s1 job = Some (if malloc_ok s (brk s1) then 0 else 1, s2)"
      "s2 = s1\<lparr>brk := Suc (brk s1), nodes := h\<rparr>"
      "if malloc_ok s (brk s1)
       then sched_rep s2 (E(job \<mapsto> es, ready_jobs s \<mapsto> R @ [job])) (R @ [job]) U D
       else sched_rep s2 (E(job \<mapsto> es)) R U D"
      using add_to_ready_run [OF es(1), of job] unfolding hs by blast
    have s2: "job_holds s2 job (ready_job j ?nb) es ?plan" "heap_step s s2"
      using es(3) heap_step_trans [OF r(2) heap_step_nodes(2)] by (auto simp: h(2) intro: job_holds_cong)
    show ?thesis
    proof (cases "malloc_ok s (brk s1)")
      case ok: True
      have "fly_sched_add_pfj s job = Some (0, s2)"
        using r(1) True h(1) ok by (simp add: fly_sched_add_pfj_def)
      moreover have "sched_rep s2 (E(job \<mapsto> es, ready_jobs s \<mapsto> R @ [job])) (R @ [job]) U D"
        using h(3) ok by simp
      ultimately show ?thesis
        using s2 es(2) r(3) by (intro exI [of _ 0] exI [of _ s2]) (auto simp: h(2) job_holds_def)
    next
      case full: False
      with h(3) have rep: "sched_rep s2 (E(job \<mapsto> es)) R U D" by simp
      note d = sched_repD [OF rep]
      let ?s3 = "\<lambda>h. s2\<lparr>nodes := h, batches := batches s2 |` (- set es)\<rparr>"
      obtain h' where h': "job_drop_batches s2 job = Some (?s3 h')"
        "lists_rep (s2\<lparr>nodes := h'\<rparr>) ((E(job \<mapsto> es))(job \<mapsto> []))"
        using drop_batches_alone [OF d(1) _ d(3), of job es ?plan] s2(1) by (auto simp: job_holds_def)
      have "(E(job \<mapsto> es))(job \<mapsto> []) = E" using a(1) by auto
      then have L: "lists_rep (?s3 h') E" using h'(2) by (auto elim: lists_rep_cong)
      have "job_mem_ok (?s3 h')"
        using d(3) lists_rep_ok [OF L] by (auto simp: job_mem_ok_def restrict_map_def)
      moreover have "E (ready_jobs s) = Some R \<and> E (running_jobs s) = Some U \<and> E (done_jobs s) = Some D"
        using sched_repD(4-6) [OF assms(1)] by blast
      ultimately have "sched_rep (?s3 h') E R U D"
        using L d(2,7,8) heap_step_simps [OF s2(2)] by (simp add: sched_rep_def)
      moreover have "batches (?s3 h') = batches s" using es(2) by (simp add: h(2))
      moreover have "heap_step s (?s3 h')"
        by (rule heap_step_trans [OF s2(2) heap_step_nodes(4)])
      moreover have "job \<noteq> NULL" using a(3) by (simp add: get_job_iff)
      then have "fly_sched_add_pfj s job = Some (1, ?s3 h')"
        using r(1) True h(1) full h'(1) by (simp add: fly_sched_add_pfj_def fly_destroy_batches_def)
      moreover have "\<forall>p. p \<noteq> job \<longrightarrow> jobs (?s3 h') p = jobs s p" using r(3) by (simp add: h(2))
      moreover have "get_job (?s3 h') job \<noteq> None"
        using s2(1) by (auto simp: job_holds_def get_job_iff)
      ultimately show ?thesis
        using full by (intro exI [of _ 1] exI [of _ "?s3 h'"]) auto
    qed
  qed
qed

lemma put_job_same: "get_job s p = Some j \<Longrightarrow> put_job s p j = s"
proof -
  assume "get_job s p = Some j"
  then have "(jobs s)(p \<mapsto> j) = jobs s" by (auto simp: get_job_iff)
  then show ?thesis by (simp add: put_job_def)
qed

lemma is_done_run:
  assumes "get_job s job = Some j"
  shows "fly_job_is_done s job = Some (j_batches_done j = j_nbbatches j, s)"
proof -
  have "fly_atomic_cas (j_batches_done j) (j_nbbatches j) (j_nbbatches j) =
      (j_batches_done j = j_nbbatches j, j_batches_done j)"
    by (simp add: fly_atomic_cas_def)
  with assms put_job_same [OF assms] show ?thesis by (simp add: fly_job_is_done_def)
qed

lemma sched_rep_put_job:
  assumes "sched_rep s E R U D" and "get_job s p \<noteq> None"
  shows "sched_rep (put_job s p j) E R U D"
proof -
  have "\<not> brk s \<le> p" using sched_repD(3) [OF assms(1)] assms(2) by (auto simp: job_mem_ok_def get_job_iff)
  then have "job_mem_ok (put_job s p j)"
    using sched_repD(3) [OF assms(1)] by (simp add: job_mem_ok_def node_mem_ok_def put_job_def)
  with assms(1) show ?thesis by (simp add: sched_rep_def)
qed

lemma finish_not_done:
  assumes "get_job s job = Some j" and "j_batches_done j \<noteq> j_nbbatches j"
  shows "finish_if_done s job = Some s"
  using is_done_run [OF assms(1)] assms(2) by (simp add: finish_if_done_def)

text \<open>The finishing of a job: off the running queue, onto the done queue, waiters woken.\<close>

lemma finish_done:
  assumes "sched_rep s E R U D" and "get_job s job = Some j" and "j_batches_done j = j_nbbatches j"
  shows "\<exists>s' D'. finish_if_done s job = Some s' \<and> heap_step s s' \<and> batches s' = batches s \<and>
    D' = (if malloc_ok s (brk s) then D @ [job] else D) \<and>
    jobs s' = (jobs s)(job \<mapsto> j\<lparr>j_state := FLY_JOB_DONE, j_sem := Suc (j_sem j)\<rparr>) \<and>
    sched_rep s' (E(running_jobs s \<mapsto> remove1 job U, done_jobs s \<mapsto> D')) R (remove1 job U) D'"
proof -
  let ?j = "j\<lparr>j_state := FLY_JOB_DONE\<rparr>" and ?s1 = "put_job s job (j\<lparr>j_state := FLY_JOB_DONE\<rparr>)"
  let ?D = "if malloc_ok s (brk s) then D @ [job] else D"
  have job: "job \<noteq> NULL" using assms(2) by (simp add: get_job_iff)
  have 1: "sched_rep ?s1 E R U D" using sched_rep_put_job [OF assms(1)] assms(2) by simp
  obtain h where h: "fly_sched_remove_running ?s1 job = Some (?s1\<lparr>nodes := h\<rparr>)"
    "sched_rep (?s1\<lparr>nodes := h\<rparr>) (E(running_jobs s \<mapsto> remove1 job U)) R (remove1 job U) D"
    using remove_running_run [OF 1, of job] by auto
  obtain h' where h': "fly_sched_move_to_done (?s1\<lparr>nodes := h\<rparr>) job = Some (?s1\<lparr>brk := Suc (brk s), nodes := h'\<rparr>)"
    "sched_rep (?s1\<lparr>brk := Suc (brk s), nodes := h'\<rparr>) (E(running_jobs s \<mapsto> remove1 job U, done_jobs s \<mapsto> ?D)) R (remove1 job U) ?D"
    using move_to_done_run [OF h(2), of job] by (auto simp: Let_def)
  let ?s3 = "?s1\<lparr>brk := Suc (brk s), nodes := h'\<rparr>"
  let ?s' = "put_job ?s3 job (?j\<lparr>j_sem := Suc (j_sem j)\<rparr>)"
  have g: "get_job ?s3 job = Some ?j" using job by (simp add: get_job_def put_job_def)
  have "set_state s job FLY_JOB_DONE = Some ?s1" using assms(2) by (simp add: set_state_def)
  with is_done_run [OF assms(2)] assms(3) h(1) h'(1) g have run: "finish_if_done s job = Some ?s'"
    by (simp add: finish_if_done_def fly_sem_post_def)
  have "sched_rep ?s' (E(running_jobs s \<mapsto> remove1 job U, done_jobs s \<mapsto> ?D)) R (remove1 job U) ?D"
    using sched_rep_put_job [OF h'(2)] g by simp
  moreover have "jobs ?s' = (jobs s)(job \<mapsto> j\<lparr>j_state := FLY_JOB_DONE, j_sem := Suc (j_sem j)\<rparr>)"
    by (simp add: put_job_def)
  moreover have "heap_step s ?s'"
    by (rule heap_stepI [where J = "(jobs s)(job \<mapsto> ?j\<lparr>j_sem := Suc (j_sem j)\<rparr>)" and B = "batches s"
          and b = "Suc (brk s)" and h = h']) (simp add: put_job_def)
  moreover have "batches ?s' = batches s" by simp
  ultimately show ?thesis using run by blast
qed

text \<open>Taking a batch of a job on the scheduler's heap.\<close>

lemma get_exec_sched:
  assumes "sched_rep s E R U D" and "E job = Some es" and "job_holds s job j es bs"
  shows "unclaimed es bs = [] \<Longrightarrow> fly_get_exec_batch s job = Some (NULL, s)"
    and "unclaimed es bs = e # rest \<Longrightarrow> \<exists>as cs ab b cb. es = as @ e # cs \<and> bs = ab @ b # cb \<and>
      length as = length ab \<and> fly_get_exec_batch s job = Some (e, put_batch s e (b\<lparr>b_execed := 1\<rparr>)) \<and>
      unclaimed as ab = [] \<and> unclaimed es (ab @ b\<lparr>b_execed := 1\<rparr> # cb) = rest \<and>
      map ((batches s)(e \<mapsto> b\<lparr>b_execed := 1\<rparr>)) es = map Some (ab @ b\<lparr>b_execed := 1\<rparr> # cb)"
proof -
  note d = sched_repD [OF assms(1)]
  have j: "get_job s job \<noteq> None" "distinct es" "NULL \<notin> set es" "map (batches s) es = map Some bs"
    using assms(3) by (auto simp: job_holds_def)
  obtain m0 where rep: "batch_rep job m0 s es bs"
    using batch_rep_alone [OF d(1) assms(2) d(3) j] by blast
  show "unclaimed es bs = [] \<Longrightarrow> fly_get_exec_batch s job = Some (NULL, s)"
    by (rule get_exec_none [OF rep])
  assume "unclaimed es bs = e # rest"
  from get_exec_some [OF rep this] show "\<exists>as cs ab b cb. es = as @ e # cs \<and> bs = ab @ b # cb \<and>
      length as = length ab \<and> fly_get_exec_batch s job = Some (e, put_batch s e (b\<lparr>b_execed := 1\<rparr>)) \<and>
      unclaimed as ab = [] \<and> unclaimed es (ab @ b\<lparr>b_execed := 1\<rparr> # cb) = rest \<and>
      map ((batches s)(e \<mapsto> b\<lparr>b_execed := 1\<rparr>)) es = map Some (ab @ b\<lparr>b_execed := 1\<rparr> # cb)"
    using batch_repD(9) by (fastforce simp: put_batch_def)
qed

section \<open>Executing a batch\<close>

text \<open>The calls a batch of a job makes, in order.\<close>

fun batch_calls :: "fly_job \<Rightarrow> ptr \<Rightarrow> fly_job_batch \<Rightarrow> call list" where
  "batch_calls j f b =
     (if j_jtype j = FLY_TASK_PARALLEL_FOR
      then map (\<lambda>i. PForCall f i (j_data j)) (batch_indices b)
      else map (\<lambda>i. PForCall f i (elem_addr (j_data j) i (the (j_elsize j)))) (batch_indices b))"

declare batch_calls.simps [simp del]

definition batch_ok :: "fly_job_batch \<Rightarrow> bool" where
  "batch_ok b \<longleftrightarrow> c_ok (b_start b) \<and> c_ok (b_end b) \<and> b_start b \<le> b_end b \<and> c_ok (b_end b - b_start b)"

lemma get_simps [simp]:
  "get_job (s\<lparr>calls := c\<rparr>) p = get_job s p" "get_batch (s\<lparr>calls := c\<rparr>) p = get_batch s p"
  "get_job (put_batch s q b) p = get_job s p" "get_batch (put_job s q j) p = get_batch s p"
  "get_task (s\<lparr>calls := c\<rparr>) p = get_task s p" "get_task (put_job s q j) p = get_task s p"
  by (simp_all add: get_job_def get_batch_def get_task_def put_batch_def put_job_def)

lemma upto_head:
  "i < e - s \<Longrightarrow> [s + i..e - 1] = (s + i) # [s + (i + 1)..e - (1::int)]"
  by (subst upto_rec1) (auto simp: add.assoc)

lemma pfptrj_loop_run:
  assumes "get_job s job = Some j" and "j_func j = PFor f" and "get_batch s batch = Some b"
    and "batch_ok b" and "0 \<le> i" and "i \<le> b_end b - b_start b"
  shows "pfptrj_loop s job batch (b_end b - b_start b) i =
    Some (s\<lparr>calls := calls s @ map (\<lambda>x. PForCall f x (j_data j)) [b_start b + i..b_end b - 1]\<rparr>)"
  using assms(1,3,5,6)
proof (induction "nat (b_end b - b_start b - i)" arbitrary: s i)
  case 0
  then show ?case by (subst pfptrj_loop.simps) simp
next
  case (Suc n)
  let ?s = "log_call s (PForCall f (b_start b + i) (j_data j))"
  have i: "i < b_end b - b_start b" using Suc.hyps(2) by linarith
  have "c_ok (b_start b + i)"
    using assms(4) i Suc.prems(3)
    unfolding batch_ok_def c_ok_iff by linarith
  then have "pfptrj_loop s job batch (b_end b - b_start b) i = pfptrj_loop ?s job batch (b_end b - b_start b) (i + 1)"
    using i assms(2) Suc.prems by (subst pfptrj_loop.simps) (simp add: c_add_def)
  also have "\<dots> = Some (?s\<lparr>calls := calls ?s @ map (\<lambda>x. PForCall f x (j_data j)) [b_start b + (i + 1)..b_end b - 1]\<rparr>)"
    using Suc.hyps(2) Suc.prems i by (intro Suc.hyps(1)) (auto simp: log_call_def)
  finally show ?case using upto_head [OF i] by (simp add: log_call_def)
qed

lemma elem_addr_next: "elem_addr (elem_addr d i el) 1 el = elem_addr d (i + 1) el"
proof -
  have "int (nat ((int d + i * int el) mod 2 ^ 64)) = (int d + i * int el) mod 2 ^ 64" by simp
  then show ?thesis by (simp add: elem_addr_def mod_add_left_eq distrib_right add.assoc)
qed

lemma pfarrj_loop_run:
  assumes "get_job s job = Some j" and "j_func j = PFor f" and "get_batch s batch = Some b"
    and "batch_ok b" and "b_job b = job" and "j_elsize j = Some el"
    and "0 \<le> i" and "i \<le> b_end b - b_start b"
  shows "pfarrj_loop s job batch (b_end b - b_start b) i (elem_addr (j_data j) (b_start b + i) el) =
    Some (s\<lparr>calls := calls s @ map (\<lambda>x. PForCall f x (elem_addr (j_data j) x el)) [b_start b + i..b_end b - 1]\<rparr>)"
  using assms(1,3,7,8)
proof (induction "nat (b_end b - b_start b - i)" arbitrary: s i)
  case 0
  then show ?case by (subst pfarrj_loop.simps) simp
next
  case (Suc n)
  let ?a = "\<lambda>x. elem_addr (j_data j) x el"
  let ?s = "log_call s (PForCall f (b_start b + i) (?a (b_start b + i)))"
  have i: "i < b_end b - b_start b" using Suc.hyps(2) by linarith
  have "c_ok (b_start b + i)"
    using assms(4) i Suc.prems(3)
    unfolding batch_ok_def c_ok_iff by linarith
  moreover have "get_job ?s job = Some j" using Suc.prems(1) by (simp add: log_call_def)
  ultimately have "pfarrj_loop s job batch (b_end b - b_start b) i (?a (b_start b + i)) =
      pfarrj_loop ?s job batch (b_end b - b_start b) (i + 1) (?a (b_start b + (i + 1)))"
    using i assms(2,5,6) Suc.prems
    by (subst pfarrj_loop.simps) (simp add: c_add_def elem_addr_next add.assoc)
  also have "\<dots> = Some (?s\<lparr>calls := calls ?s @ map (\<lambda>x. PForCall f x (?a x)) [b_start b + (i + 1)..b_end b - 1]\<rparr>)"
    using Suc.hyps(2) Suc.prems i by (intro Suc.hyps(1)) (auto simp: log_call_def)
  finally show ?case using upto_head [OF i] by (simp add: log_call_def)
qed

end
