(* ===== verification/Fly_Exec.thy ===== *)
theory Fly_Exec
  imports Fly_Sched
begin

text \<open>
  The execution of parallel jobs by the scheduler: the calls that a batch makes, the batches of a
  job run one after another by whatever worker takes them, and the job's way to the done queue.
\<close>

section \<open>Executing a batch\<close>

text \<open>What a parallel job needs to be run: its function, and an element size for an array.\<close>

definition pfor_ok :: "fly_job \<Rightarrow> ptr \<Rightarrow> bool" where
  "pfor_ok j f \<longleftrightarrow> is_pfor_type (j_jtype j) \<and> j_func j = PFor f \<and>
     (j_jtype j = FLY_TASK_PARALLEL_FOR_ARR \<longrightarrow> j_elsize j \<noteq> None)"

definition pfj_exec :: "fly_job \<Rightarrow> fly_sched \<Rightarrow> ptr \<Rightarrow> (int \<times> fly_sched) option" where
  "pfj_exec j s job = (if j_jtype j = FLY_TASK_PARALLEL_FOR then fly_pfptrj_exec s job else fly_pfarrj_exec s job)"

lemma exec_job_pfor:
  assumes "get_job s job = Some j" and "pfor_ok j f"
  shows "fly_sched_exec_job s job = do { (r, s) \<leftarrow> pfj_exec j s job; s \<leftarrow> finish_if_done s job; Some (r, s) }"
  using assms by (auto simp: fly_sched_exec_job_def pfj_exec_def pfor_ok_def is_pfor_type_def jtype_defs)

lemma inc_run:
  assumes "get_job s job = Some j"
  shows "inc_batches_done s job = Some (put_job s job (j\<lparr>j_batches_done := c_wrap (j_batches_done j + 1)\<rparr>))"
  using assms by (simp add: inc_batches_done_def fly_atomic_inc_def)

lemma batch_indices_upto: "batch_indices b = [b_start b + 0..b_end b - 1]"
  by (simp add: batch_indices_def)

lemma put_job_calls: "put_job (s\<lparr>calls := c\<rparr>) p j = (put_job s p j)\<lparr>calls := c\<rparr>"
  by (simp add: put_job_def)

lemma pfj_body_run:
  assumes "get_job s job = Some j" and "pfor_ok j f" and "get_batch s e = Some b" and "batch_ok b"
    and "b_job b = job" and "fly_get_exec_batch s0 job = Some (e, s)" and "e \<noteq> NULL"
  shows "pfj_exec j s0 job = Some (0, (put_job s job (j\<lparr>j_batches_done := c_wrap (j_batches_done j + 1)\<rparr>))
    \<lparr>calls := calls s @ batch_calls j f b\<rparr>)"
proof -
  let ?s = "s\<lparr>calls := calls s @ batch_calls j f b\<rparr>"
  have c: "c_sub (b_end b) (b_start b) = Some (b_end b - b_start b)" "0 \<le> b_end b - b_start b"
    using assms(4) by (simp_all add: batch_ok_def c_sub_def)
  have f: "j_func j = PFor f" using assms(2) by (simp add: pfor_ok_def)
  have inc: "inc_batches_done ?s job = Some ((put_job s job (j\<lparr>j_batches_done := c_wrap (j_batches_done j + 1)\<rparr>))
      \<lparr>calls := calls s @ batch_calls j f b\<rparr>)"
    using inc_run [of ?s job j] assms(1) by (simp add: put_job_calls)
  show ?thesis
  proof (cases "j_jtype j = FLY_TASK_PARALLEL_FOR")
    case True
    then have "pfptrj_loop s job e (b_end b - b_start b) 0 = Some ?s"
      using pfptrj_loop_run [OF assms(1) f assms(3,4) order_refl c(2)]
      by (simp add: batch_calls.simps batch_indices_upto)
    with True assms(3,6,7) c(1) inc show ?thesis
      by (simp add: pfj_exec_def fly_pfptrj_exec_def)
  next
    case False
    with assms(2) obtain el where el: "j_elsize j = Some el"
      by (auto simp: pfor_ok_def is_pfor_type_def)
    have "pfarrj_loop s job e (b_end b - b_start b) 0 (elem_addr (j_data j) (b_start b) el) = Some ?s"
      using pfarrj_loop_run [OF assms(1) f assms(3,4,5) el order_refl c(2)] False el
      by (simp add: batch_calls.simps batch_indices_upto)
    with False el assms(1,3,5,6,7) c(1) inc show ?thesis
      by (simp add: pfj_exec_def fly_pfarrj_exec_def)
  qed
qed

text \<open>One batch of a parallel job is taken and run; nothing but that batch, the count and the log changes.\<close>

lemma unclaimed_filter:
  "length es = length bs \<Longrightarrow> length (unclaimed es bs) = length (filter (\<lambda>b. b_execed b = 0) bs)"
  by (induction es bs rule: list_induct2) auto

lemma unclaimed_none:
  "length es = length bs \<Longrightarrow> unclaimed es bs = [] \<longleftrightarrow> filter (\<lambda>b. b_execed b = 0) bs = []"
  using unclaimed_filter [of es bs] by (metis length_0_conv)

lemma unclaimed_subset: "set (unclaimed es bs) \<subseteq> set es"
  by (auto simp: unclaimed_def dest: set_zip_leftD)

lemma unclaimed_hd:
  assumes "length as = length ab" and "unclaimed (as @ e # cs) (ab @ b # cb) = e # rest"
    and "unclaimed as ab = []" and "e \<notin> set cs"
  shows "b_execed b = 0"
proof (rule ccontr)
  assume "b_execed b \<noteq> 0"
  with assms(1-3) have "unclaimed cs cb = e # rest" by (simp add: unclaimed_def)
  then have "e \<in> set cs" using unclaimed_subset [of cs cb] by auto
  with assms(4) show False ..
qed

definition exec_frame :: "fly_sched \<Rightarrow> fly_sched \<Rightarrow> bool" where
  "exec_frame s s' \<longleftrightarrow> (\<exists>J B c. s' = s\<lparr>jobs := J, batches := B, calls := c\<rparr>)"

lemma exec_frameI: "s' = s\<lparr>jobs := J, batches := B, calls := c\<rparr> \<Longrightarrow> exec_frame s s'"
  unfolding exec_frame_def by blast

lemma exec_frame_simps:
  assumes "exec_frame s s'"
  shows "brk s' = brk s" and "malloc_ok s' = malloc_ok s" and "running_jobs s' = running_jobs s"
    and "done_jobs s' = done_jobs s" and "ready_jobs s' = ready_jobs s" and "workers s' = workers s"
  using assms by (auto simp: exec_frame_def)

lemma pfj_exec_take:
  assumes "sched_rep s E R U D" and "E job = Some es" and "job_holds s job j es bs"
    and "pfor_ok j f" and "\<forall>b \<in> set bs. batch_ok b" and "unclaimed es bs = e # rest"
  shows "\<exists>ab b cb s'. bs = ab @ b # cb \<and> filter (\<lambda>b. b_execed b = 0) ab = [] \<and> b_execed b = 0 \<and>
    pfj_exec j s job = Some (0, s') \<and> exec_frame s s' \<and> sched_rep s' E R U D \<and>
    job_holds s' job (j\<lparr>j_batches_done := c_wrap (j_batches_done j + 1)\<rparr>) es (ab @ b\<lparr>b_execed := 1\<rparr> # cb) \<and>
    unclaimed es (ab @ b\<lparr>b_execed := 1\<rparr> # cb) = rest \<and> calls s' = calls s @ batch_calls j f b \<and>
    keeps job es s s'"
proof -
  obtain as cs ab b cb where g: "es = as @ e # cs" "bs = ab @ b # cb" "length as = length ab"
    "fly_get_exec_batch s job = Some (e, put_batch s e (b\<lparr>b_execed := 1\<rparr>))" "unclaimed as ab = []"
    "unclaimed es (ab @ b\<lparr>b_execed := 1\<rparr> # cb) = rest"
    "map ((batches s)(e \<mapsto> b\<lparr>b_execed := 1\<rparr>)) es = map Some (ab @ b\<lparr>b_execed := 1\<rparr> # cb)"
    using get_exec_sched(2) [OF assms(1-3,6)] by blast
  let ?b = "b\<lparr>b_execed := 1\<rparr>" and ?s = "put_batch s e (b\<lparr>b_execed := 1\<rparr>)"
  let ?j = "j\<lparr>j_batches_done := c_wrap (j_batches_done j + 1)\<rparr>"
  let ?c = "calls s @ batch_calls j f b"
  let ?s' = "(put_job ?s job ?j)\<lparr>calls := ?c\<rparr>"
  have h: "get_job s job = Some j" "NULL \<notin> set es" "distinct es" "\<forall>b \<in> set bs. b_job b = job"
    "map (batches s) es = map Some bs" using assms(3) by (simp_all add: job_holds_def)
  have e: "e \<noteq> NULL" "e \<notin> set cs" using h(2,3) g(1) by auto
  have be: "b_execed b = 0"
    using unclaimed_hd [OF g(3) _ g(5) e(2)] assms(6) g(1,2) by blast
  have bc: "batch_calls j f ?b = batch_calls j f b"
    by (simp add: batch_calls.simps batch_indices_def)
  have "pfj_exec j s job = Some (0, (put_job ?s job ?j)\<lparr>calls := calls ?s @ batch_calls j f ?b\<rparr>)"
  proof (rule pfj_body_run [OF _ assms(4) _ _ _ g(4) e(1)])
    show "get_batch ?s e = Some ?b" using e by (simp add: get_batch_def put_batch_def)
  qed (use h assms(5) g(2) in \<open>simp_all add: batch_ok_def\<close>)
  then have run: "pfj_exec j s job = Some (0, ?s')" by (simp add: bc put_batch_def)
  have "batches s e \<noteq> None" using h(5) g(1,2,3) by auto
  then have "job_mem_ok ?s"
    using sched_repD(3) [OF assms(1)] by (auto simp: job_mem_ok_def node_mem_ok_def put_batch_def)
  then have "sched_rep ?s E R U D"
    using assms(1) by (simp add: sched_rep_def) (simp add: put_batch_def)
  from sched_rep_put_job [OF this, of job ?j] h(1) have "sched_rep (put_job ?s job ?j) E R U D" by simp
  then have rep: "sched_rep ?s' E R U D" by (simp add: sched_rep_def)
  have holds: "job_holds ?s' job ?j es (ab @ ?b # cb)"
    using h g(2,7) by (auto simp: job_holds_def get_job_iff put_batch_def put_job_def)
  have frame: "exec_frame s ?s'"
    by (rule exec_frameI [where J = "(jobs s)(job \<mapsto> ?j)" and B = "(batches s)(e \<mapsto> ?b)" and c = ?c])
      (simp add: put_batch_def put_job_def)
  have "filter (\<lambda>b. b_execed b = 0) ab = []"
    using unclaimed_none [OF g(3)] g(5) by simp
  moreover have "keeps job es s ?s'"
    using g(1) by (auto simp: keeps_def put_job_def put_batch_def)
  ultimately show ?thesis
    using run rep holds frame g(2,6) be
    by (intro exI [of _ ab] exI [of _ b] exI [of _ cb] exI [of _ ?s']) simp
qed

section \<open>A job run to its end\<close>

lemma exec_frame_trans: "exec_frame s s1 \<Longrightarrow> exec_frame s1 s2 \<Longrightarrow> exec_frame s s2"
  unfolding exec_frame_def by (elim exE, hypsubst, intro exI) simp

lemma pfor_ok_done [simp]: "pfor_ok (j\<lparr>j_batches_done := k\<rparr>) f = pfor_ok j f"
  by (simp add: pfor_ok_def)

lemma batch_calls_done [simp]:
  "batch_calls (j\<lparr>j_batches_done := k\<rparr>) f = batch_calls j f"
  "batch_calls j f (b\<lparr>b_execed := k\<rparr>) = batch_calls j f b"
  by (rule ext; simp add: batch_calls.simps) (simp add: batch_calls.simps batch_indices_def)

lemma batch_ok_execed [simp]: "batch_ok (b\<lparr>b_execed := k\<rparr>) = batch_ok b"
  by (simp add: batch_ok_def)

definition todo :: "fly_job_batch list \<Rightarrow> fly_job_batch list" where
  "todo bs = filter (\<lambda>b. b_execed b = 0) bs"

text \<open>One execution runs the first batch not yet claimed, then finishes the job if that was the last.\<close>

lemma exec_step:
  assumes "sched_rep s E R U D" and "E job = Some es" and "job_holds s job j es bs"
    and "pfor_ok j f" and "\<forall>b \<in> set bs. batch_ok b" and "unclaimed es bs = e # rest"
    and "c_ok (j_batches_done j + 1)"
  shows "\<exists>s1 b bs1. fly_sched_exec_job s job = do { s \<leftarrow> finish_if_done s1 job; Some (0, s) } \<and>
    exec_frame s s1 \<and> sched_rep s1 E R U D \<and> (\<forall>b \<in> set bs1. batch_ok b) \<and>
    job_holds s1 job (j\<lparr>j_batches_done := j_batches_done j + 1\<rparr>) es bs1 \<and>
    unclaimed es bs1 = rest \<and> todo bs = b # todo bs1 \<and> calls s1 = calls s @ batch_calls j f b \<and>
    keeps job es s s1"
proof -
  obtain ab b cb s1 where t: "bs = ab @ b # cb" "filter (\<lambda>b. b_execed b = 0) ab = []" "b_execed b = 0"
    "pfj_exec j s job = Some (0, s1)" "exec_frame s s1" "sched_rep s1 E R U D"
    "job_holds s1 job (j\<lparr>j_batches_done := c_wrap (j_batches_done j + 1)\<rparr>) es (ab @ b\<lparr>b_execed := 1\<rparr> # cb)"
    "unclaimed es (ab @ b\<lparr>b_execed := 1\<rparr> # cb) = rest" "calls s1 = calls s @ batch_calls j f b" "keeps job es s s1"
    using pfj_exec_take [OF assms(1-6)] by blast
  let ?bs = "ab @ b\<lparr>b_execed := 1\<rparr> # cb"
  have "get_job s job = Some j" using assms(3) by (simp add: job_holds_def)
  then have "fly_sched_exec_job s job = do { s \<leftarrow> finish_if_done s1 job; Some (0, s) }"
    using exec_job_pfor [OF _ assms(4)] t(4) by simp
  moreover have "\<forall>b \<in> set ?bs. batch_ok b" using assms(5) t(1) by simp
  moreover have "job_holds s1 job (j\<lparr>j_batches_done := j_batches_done j + 1\<rparr>) es ?bs"
    using t(7) assms(7) by simp
  moreover have "todo bs = b # todo ?bs" using t(1-3) by (simp add: todo_def)
  ultimately show ?thesis
    using t(5,6,8-10) by (intro exI [of _ s1] exI [of _ b] exI [of _ ?bs]) simp
qed

end
