(* ===== verification/Fly_Turns.thy ===== *)
theory Fly_Turns
  imports Fly_Exec
begin

text \<open>
  What the functions of \<^verbatim>\<open>src/fly_sched.c\<close> do together: a worker's turn
  (\<^verbatim>\<open>fly_schedule\<close>) on a parallel job and on a task, a job's whole way from
  \<^verbatim>\<open>fly_sched_add_job\<close> over the turns to \<^verbatim>\<open>fly_wait_job\<close>, and the
  queue operations as a refinement of three lists.  The frames \<open>sched_frame\<close> and
  \<open>client_frame\<close> say what these functions leave alone.
\<close>

section \<open>What a worker's turn changes\<close>

text \<open>
  The heaps of jobs, batches and list nodes, the calls made, and the workers' states; a worker keeps
  its threads and their blocks.
\<close>

definition sched_frame :: "fly_sched \<Rightarrow> fly_sched \<Rightarrow> bool" where
  "sched_frame s s' \<longleftrightarrow> (\<exists>J B c h b w. same_crew (workers s) w \<and>
     s' = s\<lparr>jobs := J, batches := B, calls := c, nodes := h, brk := b, workers := w\<rparr>)"

lemma sched_frameI:
  assumes "same_crew (workers s) (workers s')"
    and "s' = s\<lparr>jobs := jobs s', batches := batches s', calls := calls s', nodes := nodes s',
      brk := brk s', workers := workers s'\<rparr>"
  shows "sched_frame s s'"
  unfolding sched_frame_def using assms by blast

lemma sched_frame_refl [simp]: "sched_frame s s"
  by (rule sched_frameI) simp_all

lemma sched_frame_trans: "sched_frame s s1 \<Longrightarrow> sched_frame s1 s2 \<Longrightarrow> sched_frame s s2"
  unfolding sched_frame_def
  by (elim exE conjE, hypsubst, intro exI, rule conjI, erule same_crew_trans) simp_all

lemma heap_step_frame: "heap_step s s' \<Longrightarrow> sched_frame s s'"
  unfolding heap_step_def by (rule sched_frameI) auto

lemma exec_frame_frame: "exec_frame s s' \<Longrightarrow> sched_frame s s'"
  unfolding exec_frame_def by (rule sched_frameI) auto

lemma sched_frame_workers: "same_crew (workers s) w \<Longrightarrow> sched_frame s (s\<lparr>workers := w\<rparr>)"
  by (rule sched_frameI) simp_all

lemma sched_frame_touch: "sched_frame s (touch s t)"
  using touch_crew [of s t] sched_frame_workers by metis

lemma sched_frame_simps:
  assumes "sched_frame s s'"
  shows "malloc_ok s' = malloc_ok s" and "running_jobs s' = running_jobs s" and "nbworkers s' = nbworkers s"
    and "done_jobs s' = done_jobs s" and "ready_jobs s' = ready_jobs s" and "tasks s' = tasks s"
    and "task_fun s' = task_fun s"
    and "length (workers s') = length (workers s)" and "same_crew (workers s) (workers s')"
    and "workers_ptr s' = workers_ptr s" and "sched_thread s' = sched_thread s"
    and "sched_thread_obj s' = sched_thread_obj s" and "s_os s' = s_os s" and "sem_ok s' = sem_ok s"
  using assms by (auto simp: sched_frame_def dest: same_crew_length)

lemma get_wt_frame: "sched_frame s s' \<Longrightarrow> get_wt s t \<noteq> None \<Longrightarrow> get_wt s' t \<noteq> None"
  using sched_frame_simps(8) by (fastforce simp: get_wt_def split: prod.splits if_splits)

section \<open>What a client's call changes\<close>

text \<open>The same, and the client's task objects.\<close>

definition client_frame :: "fly_sched \<Rightarrow> fly_sched \<Rightarrow> bool" where
  "client_frame s s' \<longleftrightarrow> (\<exists>T. sched_frame (s\<lparr>tasks := T\<rparr>) s')"

lemma sched_client_frame: "sched_frame s s' \<Longrightarrow> client_frame s s'"
  unfolding client_frame_def by (rule exI [of _ "tasks s"]) simp

lemma client_frame_refl [simp]: "client_frame s s"
  by (rule sched_client_frame) simp

lemma client_frameI: "sched_frame (s\<lparr>tasks := T\<rparr>) s' \<Longrightarrow> client_frame s s'"
  unfolding client_frame_def by blast

lemma sched_frame_tasks:
  assumes "sched_frame s s'"
  shows "sched_frame (s\<lparr>tasks := T\<rparr>) (s'\<lparr>tasks := T\<rparr>)"
proof -
  obtain J B c h b w where w: "same_crew (workers s) w"
    and s': "s' = s\<lparr>jobs := J, batches := B, calls := c, nodes := h, brk := b, workers := w\<rparr>"
    using assms unfolding sched_frame_def by blast
  show ?thesis by (rule sched_frameI) (simp_all add: s' w)
qed

lemma client_frame_trans: "client_frame s s1 \<Longrightarrow> client_frame s1 s2 \<Longrightarrow> client_frame s s2"
proof -
  assume "client_frame s s1" and "client_frame s1 s2"
  then obtain T T' where "sched_frame (s\<lparr>tasks := T\<rparr>) s1" "sched_frame (s1\<lparr>tasks := T'\<rparr>) s2"
    unfolding client_frame_def by blast
  from sched_frame_trans [OF sched_frame_tasks [OF this(1), of T'] this(2)] show "client_frame s s2"
    by (intro client_frameI [where T = T']) simp
qed

lemma client_frame_simps:
  assumes "client_frame s s'"
  shows "malloc_ok s' = malloc_ok s" and "running_jobs s' = running_jobs s" and "nbworkers s' = nbworkers s"
    and "done_jobs s' = done_jobs s" and "ready_jobs s' = ready_jobs s" and "task_fun s' = task_fun s"
    and "length (workers s') = length (workers s)" and "same_crew (workers s) (workers s')"
    and "workers_ptr s' = workers_ptr s" and "sched_thread s' = sched_thread s"
    and "sched_thread_obj s' = sched_thread_obj s" and "s_os s' = s_os s" and "sem_ok s' = sem_ok s"
proof -
  obtain T where "sched_frame (s\<lparr>tasks := T\<rparr>) s'" using assms unfolding client_frame_def by blast
  from sched_frame_simps [OF this]
  show "malloc_ok s' = malloc_ok s" "running_jobs s' = running_jobs s" "nbworkers s' = nbworkers s"
    "done_jobs s' = done_jobs s" "ready_jobs s' = ready_jobs s" "task_fun s' = task_fun s"
    "length (workers s') = length (workers s)" "same_crew (workers s) (workers s')"
    "workers_ptr s' = workers_ptr s" "sched_thread s' = sched_thread s"
    "sched_thread_obj s' = sched_thread_obj s" "s_os s' = s_os s" "sem_ok s' = sem_ok s"
    by simp_all
qed

lemma client_frame_task: "client_frame s (s\<lparr>calls := c, tasks := T\<rparr>)" "client_frame s (put_task s p t)"
proof -
  show "client_frame s (s\<lparr>calls := c, tasks := T\<rparr>)"
    by (rule client_frameI [where T = T], rule sched_frameI) simp_all
  show "client_frame s (put_task s p t)"
    by (rule client_frameI [where T = "(tasks s)(p \<mapsto> t)"]) (simp add: put_task_def)
qed

section \<open>What a worker finds to do\<close>

lemma get_job_ready_pfor:
  assumes "sched_rep s E (R @ [job]) U D" and "get_wt s t \<noteq> None" and "get_job s job = Some j"
    and "is_pfor_type (j_jtype j)" and "U' = (if malloc_ok s (brk s) then U @ [job] else U)"
  shows "\<exists>s'. fly_sched_get_job s t = Some (job, s') \<and> sched_frame s s' \<and>
    sched_rep s' (E(ready_jobs s \<mapsto> R, running_jobs s \<mapsto> U')) R U' D \<and>
    jobs s' = (jobs s)(job \<mapsto> j\<lparr>j_state := FLY_JOB_RUNNING\<rparr>) \<and> batches s' = batches s \<and> calls s' = calls s"
proof -
  obtain h where h: "fly_sched_get_ready s t = Some (job, (touch s t)\<lparr>nodes := h\<rparr>)"
    "sched_rep ((touch s t)\<lparr>nodes := h\<rparr>) (E(ready_jobs s \<mapsto> R)) R U D"
    using get_ready_run [OF assms(1,2)] by auto
  let ?s1 = "(touch s t)\<lparr>nodes := h\<rparr>" and ?j = "j\<lparr>j_state := FLY_JOB_RUNNING\<rparr>"
  have f1: "sched_frame s ?s1"
    by (rule sched_frame_trans [OF sched_frame_touch heap_step_frame [OF heap_step_nodes(1)]])
  have j1: "get_job ?s1 job = Some j" "job \<noteq> NULL" using assms(3) by (simp_all add: get_job_iff)
  obtain h' where h': "fly_sched_move_to_running ?s1 job t =
      Some ((put_job (touch ?s1 t) job ?j)\<lparr>brk := Suc (brk s), nodes := h'\<rparr>)"
    "sched_rep ((put_job (touch ?s1 t) job ?j)\<lparr>brk := Suc (brk s), nodes := h'\<rparr>)
       (E(ready_jobs s \<mapsto> R, running_jobs s \<mapsto> U')) R U' D"
    using move_to_running_run [OF h(2) get_wt_frame [OF f1 assms(2)] j1(1)] assms(5)
    unfolding Let_def by auto
  let ?s2 = "(put_job (touch ?s1 t) job ?j)\<lparr>brk := Suc (brk s), nodes := h'\<rparr>"
  have f2: "sched_frame ?s1 ?s2"
    by (rule sched_frame_trans [OF sched_frame_touch sched_frame_trans [OF heap_step_frame heap_step_frame]],
        rule heap_step_nodes(3), rule heap_step_nodes(2))
  then obtain wt where wt: "get_wt ?s2 t = Some wt"
    using get_wt_frame [OF sched_frame_trans [OF f1 f2] assms(2)] by blast
  let ?s3 = "?s2\<lparr>workers := notified ?s2 (Some (wt_parent wt))\<rparr>"
  have n: "notify_workers ?s2 (Some (wt_parent wt)) = Some ?s3"
    by (rule notify_workers_run) (use sched_repD(8) [OF h'(2)] in simp)
  have "sched_frame s ?s3"
    by (rule sched_frame_trans [OF sched_frame_trans [OF f1 f2] sched_frame_workers]) (simp add: notified_crew)
  moreover have "sched_rep ?s3 (E(ready_jobs s \<mapsto> R, running_jobs s \<mapsto> U')) R U' D"
    using h'(2) by (rule sched_rep_workers) simp
  moreover have "fly_sched_get_job s t = Some (job, ?s3)"
    using h(1) j1 h'(1) wt n assms(4) by (simp add: fly_sched_get_job_def)
  ultimately show ?thesis
    by (intro exI [of _ ?s3]) (simp add: put_job_def)
qed

lemma get_job_ready_task_any:
  assumes "sched_rep s E (R @ [job]) U D" and "get_wt s t \<noteq> None" and "get_job s job = Some j"
    and "j_jtype j = FLY_TASK_TASK" and "U' = (if malloc_ok s (brk s) then U @ [job] else U)"
  shows "\<exists>s'. fly_sched_get_job s t = Some (job, s') \<and> sched_frame s s' \<and>
    sched_rep s' (E(ready_jobs s \<mapsto> R, running_jobs s \<mapsto> U')) R U' D \<and>
    jobs s' = (jobs s)(job \<mapsto> j\<lparr>j_batches_done := j_nbbatches j, j_state := FLY_JOB_RUNNING\<rparr>) \<and>
    batches s' = batches s \<and> calls s' = calls s"
proof -
  obtain h where h: "fly_sched_get_ready s t = Some (job, (touch s t)\<lparr>nodes := h\<rparr>)"
    "sched_rep ((touch s t)\<lparr>nodes := h\<rparr>) (E(ready_jobs s \<mapsto> R)) R U D"
    using get_ready_run [OF assms(1,2)] by auto
  let ?s0 = "(touch s t)\<lparr>nodes := h\<rparr>" and ?j1 = "j\<lparr>j_batches_done := j_nbbatches j\<rparr>"
  let ?s1 = "put_job ?s0 job ?j1" and ?j = "?j1\<lparr>j_state := FLY_JOB_RUNNING\<rparr>"
  have f0: "sched_frame s ?s0"
    by (rule sched_frame_trans [OF sched_frame_touch heap_step_frame [OF heap_step_nodes(1)]])
  have f1: "sched_frame s ?s1"
    by (rule sched_frame_trans [OF f0 heap_step_frame [OF heap_step_nodes(3)]])
  have j0: "get_job ?s0 job = Some j" "job \<noteq> NULL" using assms(3) by (simp_all add: get_job_iff)
  have r1: "sched_rep ?s1 (E(ready_jobs s \<mapsto> R)) R U D" using sched_rep_put_job [OF h(2)] j0(1) by simp
  have j1: "get_job ?s1 job = Some ?j1" using j0(2) by (simp add: get_job_def put_job_def)
  obtain h' where h': "fly_sched_move_to_running ?s1 job t =
      Some ((put_job (touch ?s1 t) job ?j)\<lparr>brk := Suc (brk s), nodes := h'\<rparr>)"
    "sched_rep ((put_job (touch ?s1 t) job ?j)\<lparr>brk := Suc (brk s), nodes := h'\<rparr>)
       (E(ready_jobs s \<mapsto> R, running_jobs s \<mapsto> U')) R U' D"
    using move_to_running_run [OF r1 get_wt_frame [OF f1 assms(2)] j1] assms(5)
    by (auto simp: Let_def)
  let ?s2 = "(put_job (touch ?s1 t) job ?j)\<lparr>brk := Suc (brk s), nodes := h'\<rparr>"
  have f2: "sched_frame ?s1 ?s2"
    by (rule sched_frame_trans [OF sched_frame_touch sched_frame_trans [OF heap_step_frame heap_step_frame]],
        rule heap_step_nodes(3), rule heap_step_nodes(2))
  have nt: "\<not> is_pfor_type FLY_TASK_TASK" by (simp add: is_pfor_type_def jtype_defs)
  have "fly_sched_get_job s t = Some (job, ?s2)"
    using h(1) j0 h'(1) assms(4) nt by (simp add: fly_sched_get_job_def)
  moreover have "jobs ?s2 = (jobs s)(job \<mapsto> ?j)" by (simp add: put_job_def)
  ultimately show ?thesis
    using h'(2) sched_frame_trans [OF f1 f2] by (intro exI [of _ ?s2]) (simp add: put_job_def)
qed

lemma get_job_ready_task:
  assumes "sched_rep s E (R @ [job]) U D" and "get_wt s t \<noteq> None" and "get_job s job = Some j"
    and "j_jtype j = FLY_TASK_TASK" and "malloc_ok s (brk s)"
  shows "\<exists>s'. fly_sched_get_job s t = Some (job, s') \<and> sched_frame s s' \<and>
    sched_rep s' (E(ready_jobs s \<mapsto> R, running_jobs s \<mapsto> U @ [job])) R (U @ [job]) D \<and>
    jobs s' = (jobs s)(job \<mapsto> j\<lparr>j_batches_done := j_nbbatches j, j_state := FLY_JOB_RUNNING\<rparr>) \<and>
    batches s' = batches s \<and> calls s' = calls s"
  using get_job_ready_task_any [OF assms(1-4) refl] assms(5) by simp

text \<open>With no ready job the running queue is searched.\<close>

lemma get_job_running:
  assumes "sched_rep s E [] U D" and "get_wt s t \<noteq> None" and "\<forall>x \<in> set U. get_job s x \<noteq> None"
  shows "\<exists>s'. fly_sched_get_job s t = Some (running_pick (complete s) U NULL, s') \<and> sched_frame s s' \<and>
    sched_rep s' E [] U D \<and> jobs s' = jobs s \<and> batches s' = batches s \<and> calls s' = calls s \<and>
    (\<exists>h. s' = touch ((touch s t)\<lparr>nodes := h\<rparr>) t)"
proof -
  obtain h where h: "fly_sched_get_ready s t = Some (NULL, (touch s t)\<lparr>nodes := h\<rparr>)"
    "sched_rep ((touch s t)\<lparr>nodes := h\<rparr>) (E(ready_jobs s \<mapsto> [])) [] U D"
    using get_ready_run [OF assms(1,2)] by auto
  let ?s1 = "(touch s t)\<lparr>nodes := h\<rparr>"
  have f1: "sched_frame s ?s1"
    by (rule sched_frame_trans [OF sched_frame_touch heap_step_frame [OF heap_step_nodes(1)]])
  have "E(ready_jobs s \<mapsto> []) = E" using sched_repD(4) [OF assms(1)] by auto
  with h(2) have r1: "sched_rep ?s1 E [] U D" by simp
  have "get_job ?s1 x = get_job s x" for x by (simp add: get_job_def)
  with assms(3) have "\<forall>x \<in> set U. get_job ?s1 x \<noteq> None" by simp
  from get_running_run [OF r1 get_wt_frame [OF f1 assms(2)] this]
  have "fly_sched_get_running ?s1 t = Some (running_pick (complete ?s1) U NULL, touch ?s1 t)" .
  moreover have "complete ?s1 = complete s" by (rule ext) (simp add: complete_def)
  ultimately have "fly_sched_get_job s t = Some (running_pick (complete s) U NULL, touch ?s1 t)"
    using h(1) by (simp add: fly_sched_get_job_def)
  moreover have "sched_rep (touch ?s1 t) E [] U D"
    using r1 unfolding sched_rep_def by simp
  ultimately show ?thesis
    using sched_frame_trans [OF f1 sched_frame_touch] by (intro exI [of _ "touch ?s1 t"]) auto
qed

text \<open>Only a worker's thread takes a turn; going to sleep changes nothing but that thread.\<close>

lemma schedule_thread: "fly_schedule s t = Some s' \<Longrightarrow> get_wt s t \<noteq> None"
  by (auto simp: fly_schedule_def fly_sched_get_job_def fly_sched_get_ready_def sched_wlock_def split: bind_splits)

lemma wait_work_crew:
  assumes "wait_work s t = Some s'"
  shows "sched_frame s s' \<and> s' = s\<lparr>workers := workers s'\<rparr>"
proof -
  obtain i w where t: "t = (i, w)" by (cases t)
  obtain x n where x: "get_wt s t = Some x"
    and s': "s' = put_wt s t (x\<lparr>wt_sem := n, wt_thread := (wt_thread x)\<lparr>t_state := FLY_THREAD_RUNNING\<rparr>\<rparr>)"
    using assms by (auto simp: wait_work_def fly_worker_thread_wait_work_def fly_sem_wait_def fly_sem_wait_enter_def
        Let_def split: bind_splits)
  let ?x = "x\<lparr>wt_sem := n, wt_thread := (wt_thread x)\<lparr>t_state := FLY_THREAD_RUNNING\<rparr>\<rparr>"
  let ?w = "(workers s)[i := case w of MThread \<Rightarrow> (workers s ! i)\<lparr>mthread := ?x\<rparr>
    | BThread \<Rightarrow> (workers s ! i)\<lparr>bthread := ?x\<rparr>]"
  have "same_crew (workers s) ?w"
    using x t by (intro same_crew_nth) (auto simp: nth_list_update attrs_def pthreads_def get_wt_def split: which.splits if_splits)
  moreover have "s' = s\<lparr>workers := ?w\<rparr>" using s' t by (simp add: put_wt_def)
  ultimately show ?thesis using sched_frame_workers by simp
qed

text \<open>The turns of worker threads, one \<^verbatim>\<open>fly_schedule\<close> each.\<close>

fun turns :: "fly_sched \<Rightarrow> wref list \<Rightarrow> fly_sched option" where
  "turns s [] = Some s"
| "turns s (t # ts) = do { s \<leftarrow> fly_schedule s t; turns s ts }"

lemma schedule_exec:
  "fly_sched_get_job s t = Some (job, s0) \<Longrightarrow> job \<noteq> NULL \<Longrightarrow>
    fly_sched_exec_job s0 job = do { s \<leftarrow> finish_if_done s1 job; Some (0, s) } \<Longrightarrow>
    fly_schedule s t = finish_if_done s1 job"
  by (cases "finish_if_done s1 job") (simp_all add: fly_schedule_def)

lemma running_turn:
  assumes "sched_rep s E [] [job] D" and "E job = Some es" and "job_holds s job j es bs"
    and "pfor_ok j f" and "\<forall>b \<in> set bs. batch_ok b" and "unclaimed es bs = e # rest"
    and "c_ok (j_batches_done j + 1)" and "get_wt s t \<noteq> None"
  shows "\<exists>s1 b bs1. fly_schedule s t = finish_if_done s1 job \<and>
    sched_frame s s1 \<and> sched_rep s1 E [] [job] D \<and> (\<forall>b \<in> set bs1. batch_ok b) \<and>
    job_holds s1 job (j\<lparr>j_batches_done := j_batches_done j + 1\<rparr>) es bs1 \<and>
    unclaimed es bs1 = rest \<and> todo bs = b # todo bs1 \<and> calls s1 = calls s @ batch_calls j f b \<and>
    keeps job es s s1"
proof -
  have j: "get_job s job = Some j" "job \<noteq> NULL" using assms(3) by (simp_all add: job_holds_def get_job_iff)
  have "running_pick (complete s) [job] NULL = job" by simp
  moreover have "\<forall>x \<in> set [job]. get_job s x \<noteq> None" using j by simp
  ultimately obtain s0 where s0: "fly_sched_get_job s t = Some (job, s0)" "sched_frame s s0"
    "sched_rep s0 E [] [job] D" "jobs s0 = jobs s" "batches s0 = batches s" "calls s0 = calls s"
    using get_job_running [OF assms(1,8)] by metis
  have h0: "job_holds s0 job j es bs" using job_holds_cong [OF assms(3)] s0(4,5) by simp
  obtain s1 b bs1 where x: "fly_sched_exec_job s0 job = do { s \<leftarrow> finish_if_done s1 job; Some (0, s) }"
    "exec_frame s0 s1" "sched_rep s1 E [] [job] D" "\<forall>b \<in> set bs1. batch_ok b"
    "job_holds s1 job (j\<lparr>j_batches_done := j_batches_done j + 1\<rparr>) es bs1"
    "unclaimed es bs1 = rest" "todo bs = b # todo bs1" "calls s1 = calls s0 @ batch_calls j f b"
    "keeps job es s0 s1"
    using exec_step [OF s0(3) assms(2) h0 assms(4-7)] by blast
  have "sched_frame s s1" using sched_frame_trans [OF s0(2) exec_frame_frame [OF x(2)]] .
  moreover have "keeps job es s s1" using x(9) s0(4,5) by (simp add: keeps_def)
  ultimately show ?thesis
    using schedule_exec [OF s0(1) j(2) x(1)] x(3-8) s0(6)
    by (intro exI [of _ s1] exI [of _ b] exI [of _ bs1]) simp
qed

text \<open>Once the first turn has run one batch, the others run one each, and the last finishes the job.\<close>

lemma turns_from:
  assumes "fly_schedule s t = finish_if_done s1 job" and "sched_frame s s1"
    and "sched_rep s1 E [] [job] D" and "E job = Some es" and "job_holds s1 job j es bs1"
    and "pfor_ok j f" and "\<forall>b \<in> set bs1. batch_ok b" and "length (unclaimed es bs1) = length ts"
    and "j_nbbatches j = j_batches_done j + int (length ts)" and "c_ok (j_batches_done j)"
    and "c_ok (j_nbbatches j)" and "\<forall>t \<in> set ts. get_wt s t \<noteq> None"
  shows "\<exists>s2 bs'. turns s (t # ts) = finish_if_done s2 job \<and> sched_frame s s2 \<and>
    sched_rep s2 E [] [job] D \<and> job_holds s2 job (j\<lparr>j_batches_done := j_nbbatches j\<rparr>) es bs' \<and>
    calls s2 = calls s1 @ concat (map (batch_calls j f) (todo bs1)) \<and>
    keeps job es s1 s2"
  using assms
proof (induction ts arbitrary: s t s1 j bs1)
  case Nil
  have "length es = length bs1" using Nil.prems(5) by (auto simp: job_holds_def dest: map_eq_imp_length_eq)
  then have "todo bs1 = []" using unclaimed_none Nil.prems(8) unfolding todo_def by fastforce
  with Nil.prems show ?case
    by (intro exI [of _ s1] exI [of _ bs1]) (simp add: keeps_def split: bind_splits)
next
  case (Cons t' ts)
  then obtain e rest where e: "unclaimed es bs1 = e # rest" "length rest = length ts"
    by (auto simp: length_Suc_conv)
  let ?j = "j\<lparr>j_batches_done := j_batches_done j + 1\<rparr>"
  have ok: "c_ok (j_batches_done j + 1)"
    using Cons.prems(9-11) unfolding c_ok_iff by simp
  have g: "get_job s1 job = Some j" using Cons.prems(5) by (simp add: job_holds_def)
  have unfinished: "fly_schedule s t = Some s1"
    using finish_not_done [OF g] Cons.prems(1,9) by simp
  have ts: "\<forall>t \<in> set (t' # ts). get_wt s1 t \<noteq> None"
    using get_wt_frame [OF Cons.prems(2)] Cons.prems(12) by blast
  then have "get_wt s1 t' \<noteq> None" by simp
  from running_turn [OF Cons.prems(3-7) e(1) ok this] obtain s2 b bs2 where
    x: "fly_schedule s1 t' = finish_if_done s2 job" "sched_frame s1 s2" "sched_rep s2 E [] [job] D"
    "\<forall>b \<in> set bs2. batch_ok b" "job_holds s2 job ?j es bs2" "unclaimed es bs2 = rest"
    "todo bs1 = b # todo bs2" "calls s2 = calls s1 @ batch_calls j f b"
    "keeps job es s1 s2" by blast
  obtain s3 bs' where r: "turns s1 (t' # ts) = finish_if_done s3 job" "sched_frame s1 s3"
    "sched_rep s3 E [] [job] D" "job_holds s3 job (?j\<lparr>j_batches_done := j_nbbatches ?j\<rparr>) es bs'"
    "calls s3 = calls s2 @ concat (map (batch_calls ?j f) (todo bs2))" "keeps job es s2 s3"
    using Cons.IH [OF x(1-3) Cons.prems(4) x(5) _ x(4)] Cons.prems(6,9,11) x(6) e(2) ok ts by auto
  have "turns s (t # t' # ts) = turns s1 (t' # ts)" using unfinished by simp
  then have "turns s (t # t' # ts) = finish_if_done s3 job" using r(1) by argo
  with r(3-5) x(7,8) sched_frame_trans [OF Cons.prems(2) r(2)] keeps_trans [OF x(9) r(6)] show ?case
    by (intro exI [of _ s3] exI [of _ bs']) simp
qed

section \<open>A job's whole way through the scheduler\<close>

lemma sched_frame_calls: "sched_frame s s' \<Longrightarrow> sched_frame s (s'\<lparr>calls := c\<rparr>)"
  by (erule sched_frame_trans) (rule sched_frameI; simp)

lemma add_job_run:
  assumes "sched_rep s E R U D" and "addable s E job j js je"
  shows "\<exists>err s'. fly_sched_add_job s job = Some (err, s') \<and> sched_frame s s' \<and> calls s' = calls s \<and>
    (\<forall>p. p \<noteq> job \<longrightarrow> jobs s' p = jobs s p) \<and> get_job s' job \<noteq> None \<and>
    (if FLY_SUCCEEDED err
     then workers s' = notified s None \<and>
       (\<exists>es. sched_rep s' (E(job \<mapsto> es, ready_jobs s \<mapsto> R @ [job])) (R @ [job]) U D \<and>
         batches s' |` (- set es) = batches s \<and> job_holds s' job (ready_job j (nbworkers s)) es (batch_plan job js (je - js) (nbworkers s)))
     else err = fly_err FLYENORES \<and> workers s' = workers s \<and> sched_rep s' E R U D \<and> batches s' = batches s) \<and>
    ((\<forall>p. malloc_ok s p) \<longrightarrow> err = fly_err FLYESUCCESS)"
proof -
  have a: "get_job s job = Some j" "is_pfor_type (j_jtype j)" using assms(2) by (simp_all add: addable_def)
  obtain err s1 where r: "fly_sched_add_pfj s job = Some (err, s1)" "heap_step s s1"
    "\<forall>p. p \<noteq> job \<longrightarrow> jobs s1 p = jobs s p" "get_job s1 job \<noteq> None"
    "if FLY_SUCCEEDED err
     then \<exists>es. sched_rep s1 (E(job \<mapsto> es, ready_jobs s \<mapsto> R @ [job])) (R @ [job]) U D \<and>
       batches s1 |` (- set es) = batches s \<and> job_holds s1 job (ready_job j (nbworkers s)) es (batch_plan job js (je - js) (nbworkers s))
     else err = fly_err FLYENORES \<and> sched_rep s1 E R U D \<and> batches s1 = batches s"
    "(\<forall>p. malloc_ok s p) \<longrightarrow> err = fly_err FLYESUCCESS"
    using add_pfj_run [OF assms] by blast
  note hs = heap_step_simps [OF r(2)]
  show ?thesis
  proof (cases "err = 0")
    case False
    then have "fly_sched_add_job s job = Some (err, s1)"
      using a r(1) by (simp add: fly_sched_add_job_def)
    with False r heap_step_frame [OF r(2)] hs show ?thesis
      by (intro exI [of _ err] exI [of _ s1]) simp
  next
    case True
    then obtain es where es: "sched_rep s1 (E(job \<mapsto> es, ready_jobs s \<mapsto> R @ [job])) (R @ [job]) U D"
      "job_holds s1 job (ready_job j (nbworkers s)) es (batch_plan job js (je - js) (nbworkers s))"
      "batches s1 |` (- set es) = batches s"
      using r(5) by auto
    let ?s = "s1\<lparr>workers := notified s1 None\<rparr>"
    have n: "notify_workers s1 None = Some ?s"
      by (rule notify_workers_run [OF sched_repD(8) [OF es(1)]])
    have "notified s1 None = notified s None" using hs by (simp add: notified_def worker_addr_def)
    moreover have "fly_sched_add_job s job = Some (0, ?s)"
      using a r(1) True n by (simp add: fly_sched_add_job_def)
    moreover have "sched_frame s ?s"
      by (rule sched_frame_trans [OF heap_step_frame [OF r(2)] sched_frame_workers]) (simp add: notified_crew)
    moreover have "sched_rep ?s (E(job \<mapsto> es, ready_jobs s \<mapsto> R @ [job])) (R @ [job]) U D"
      using es(1) by (rule sched_rep_workers) simp
    moreover have "job_holds ?s job (ready_job j (nbworkers s)) es (batch_plan job js (je - js) (nbworkers s))"
      using job_holds_cong [OF es(2)] by simp
    ultimately show ?thesis
      using hs(2) es(3) r(3,4) by (intro exI [of _ 0] exI [of _ ?s]) (auto simp: get_job_iff)
  qed
qed

lemma notified_all: "notified s None = map fly_worker_work_available (workers s)"
  by (rule nth_equalityI) (simp_all add: notified_def)

text \<open>Waiting for a job whose semaphore has been posted.\<close>

lemma wait_job_run:
  assumes "sched_rep s E R U D" and "get_job s job = Some j" and "j_sem j = Suc n"
  shows "\<exists>h. fly_wait_job s job = Some (0, (put_job s job (j\<lparr>j_sem := n\<rparr>))\<lparr>nodes := h\<rparr>) \<and>
    sched_rep ((put_job s job (j\<lparr>j_sem := n\<rparr>))\<lparr>nodes := h\<rparr>) (E(done_jobs s \<mapsto> remove1 job D)) R U (remove1 job D)"
proof -
  let ?s = "put_job s job (j\<lparr>j_sem := n\<rparr>)"
  have "sched_rep ?s E R U D" using sched_rep_put_job [OF assms(1)] assms(2) by simp
  from job_collected_run [OF this, of job] obtain h where
    "fly_sched_job_collected ?s job = Some (0, ?s\<lparr>nodes := h\<rparr>)"
    "sched_rep (?s\<lparr>nodes := h\<rparr>) (E(done_jobs s \<mapsto> remove1 job D)) R U (remove1 job D)" by auto
  with assms(2,3) show ?thesis
    by (intro exI [of _ h]) (simp add: fly_wait_job_def fly_sem_notrack_wait_def)
qed

text \<open>The call made for one index.\<close>

definition pfor_call :: "fly_job \<Rightarrow> ptr \<Rightarrow> int \<Rightarrow> call" where
  "pfor_call j f i = PForCall f i
     (if j_jtype j = FLY_TASK_PARALLEL_FOR then j_data j else elem_addr (j_data j) i (the (j_elsize j)))"

lemma batch_calls_plan: "concat (map (batch_calls j f) bs) = map (pfor_call j f) (plan_indices bs)"
  by (induction bs) (simp_all add: batch_calls.simps pfor_call_def)

lemma plan_todo: "0 < nb \<Longrightarrow> todo (batch_plan job js count nb) = batch_plan job js count nb"
  using map_upto_last [of nb "plan_batch job js (batch_size count nb)"]
  by (auto simp: todo_def batch_plan_def Let_def plan_batch_def)

lemma plan_batch_ok:
  assumes "batch_range_ok js je nb"
  shows "\<forall>b \<in> set (batch_plan job js (je - js) nb). batch_ok b"
proof -
  let ?bsz = "batch_size (je - js) nb" and ?r = "(je - js) mod nb"
  let ?p = "plan_batch job js ?bsz"
  have a: "c_ok js" "js \<le> je" "c_ok (je - js)" "0 < nb" "c_ok nb" "c_ok (js + max (je - js) nb)"
    using assms by (auto simp: batch_range_ok_def)
  have b: "0 < ?bsz" "nb * ?bsz \<le> max (je - js) nb"
    using batch_size_bounds [of "je - js" nb] a by auto
  have one: "1 * ?bsz \<le> nb * ?bsz" using a(4) b(1) by (intro mult_right_mono) auto
  then have one': "?bsz \<le> nb * ?bsz" by (simp only: mult_1)
  then have "?bsz \<le> max (je - js) nb" using b(2) by linarith
  then have sz: "c_ok ?bsz" using a(3,5) b(1) unfolding c_ok_iff by (auto simp: max_def split: if_splits)
  have each: "batch_ok (?p k)" if k: "0 \<le> k" "k < nb" for k
    using batch_bounds_ok [OF assms refl k] b(1) sz
    by (simp add: batch_ok_def plan_batch_def algebra_simps)
  have last: "batch_ok ((?p (nb - 1))\<lparr>b_end := b_end (?p (nb - 1)) + ?r\<rparr>)" if "nb < je - js"
  proof -
    have e: "nb * ?bsz + ?r = je - js" "0 \<le> ?r"
      using batch_size_bounds(3) [of "je - js" nb] a that by auto
    have n: "(nb - 1) * ?bsz = nb * ?bsz - ?bsz" by (simp add: algebra_simps)
    have "c_ok (js + (nb - 1) * ?bsz)"
      using batch_bounds_ok [OF assms refl, of "nb - 1"] a(4) by simp
    moreover have "c_ok je" using a(6) that by (simp add: max_def)
    moreover have "c_ok (?bsz + ?r)"
      using e one' a(3) b(1) unfolding c_ok_iff by linarith
    moreover have "b_end (?p (nb - 1)) + ?r = je" "b_start (?p (nb - 1)) = js + (nb - 1) * ?bsz"
      using e n by (simp_all add: plan_batch_def)
    moreover have "je - (js + (nb - 1) * ?bsz) = ?bsz + ?r" using e(1) n by simp
    ultimately show ?thesis using e(2) b(1) by (simp add: batch_ok_def)
  qed
  have "batch_plan job js (je - js) nb = map ?p [0..nb - 2] @
      [if nb < je - js \<and> ?r \<noteq> 0 then (?p (nb - 1))\<lparr>b_end := b_end (?p (nb - 1)) + ?r\<rparr> else ?p (nb - 1)]"
    using map_upto_last [OF a(4), of ?p] by (simp add: batch_plan_def Let_def)
  with each last a(4) show ?thesis by auto
qed

text \<open>The first turn takes the job from the ready queue.\<close>

lemma ready_turn:
  assumes "sched_rep s E [job] [] D" and "E job = Some es" and "job_holds s job j es bs"
    and "not_queue s job" and "pfor_ok j f" and "\<forall>b \<in> set bs. batch_ok b" and "unclaimed es bs = e # rest"
    and "c_ok (j_batches_done j + 1)" and "get_wt s t \<noteq> None" and "malloc_ok s (brk s)"
  shows "\<exists>s1 b bs1. fly_schedule s t = finish_if_done s1 job \<and> sched_frame s s1 \<and>
    sched_rep s1 (E(ready_jobs s \<mapsto> [], running_jobs s \<mapsto> [job])) [] [job] D \<and> (\<forall>b \<in> set bs1. batch_ok b) \<and>
    job_holds s1 job (j\<lparr>j_state := FLY_JOB_RUNNING, j_batches_done := j_batches_done j + 1\<rparr>) es bs1 \<and>
    unclaimed es bs1 = rest \<and> todo bs = b # todo bs1 \<and> calls s1 = calls s @ batch_calls j f b \<and>
    keeps job es s s1"
proof -
  let ?E = "E(ready_jobs s \<mapsto> [], running_jobs s \<mapsto> [job])" and ?j = "j\<lparr>j_state := FLY_JOB_RUNNING\<rparr>"
  have g: "get_job s job = Some j" "job \<noteq> NULL" using assms(3) by (simp_all add: job_holds_def get_job_iff)
  have r0: "sched_rep s E ([] @ [job]) [] D" using assms(1) by simp
  have ty: "is_pfor_type (j_jtype j)" using assms(5) by (simp add: pfor_ok_def)
  obtain s0 where s0: "fly_sched_get_job s t = Some (job, s0)" "sched_frame s s0" "sched_rep s0 ?E [] [job] D"
    "jobs s0 = (jobs s)(job \<mapsto> ?j)" "batches s0 = batches s" "calls s0 = calls s"
    using get_job_ready_pfor [OF r0 assms(9) g(1) ty refl] assms(10) by auto
  have E: "?E job = Some es" using assms(2,4) by (simp add: not_queue_def)
  have h: "job_holds s0 job ?j es bs"
    using assms(3) s0(4,5) g(2) by (simp add: job_holds_def get_job_def)
  have ok: "pfor_ok ?j f" "c_ok (j_batches_done ?j + 1)" using assms(5,8) by (simp_all add: pfor_ok_def)
  obtain s1 b bs1 where s1: "fly_sched_exec_job s0 job = do { s \<leftarrow> finish_if_done s1 job; Some (0, s) }"
    "exec_frame s0 s1" "sched_rep s1 ?E [] [job] D" "\<forall>b \<in> set bs1. batch_ok b"
    "job_holds s1 job (?j\<lparr>j_batches_done := j_batches_done ?j + 1\<rparr>) es bs1"
    "unclaimed es bs1 = rest" "todo bs = b # todo bs1" "calls s1 = calls s0 @ batch_calls ?j f b"
    "keeps job es s0 s1"
    using exec_step [OF s0(3) E h ok(1) assms(6,7) ok(2)] by blast
  have "calls s1 = calls s @ batch_calls j f b" using s1(8) s0(6) by (simp add: batch_calls.simps)
  moreover have "job_holds s1 job (j\<lparr>j_state := FLY_JOB_RUNNING, j_batches_done := j_batches_done j + 1\<rparr>) es bs1"
    using s1(5) by simp
  moreover have "sched_frame s s1" by (rule sched_frame_trans [OF s0(2) exec_frame_frame [OF s1(2)]])
  moreover have "keeps job es s s1" using s1(9) s0(4,5) by (simp add: keeps_def)
  ultimately show ?thesis using schedule_exec [OF s0(1) g(2) s1(1)] s1(3,4,6,7) by blast
qed

text \<open>The last turn's end and the waiter's.\<close>

lemma finish_and_wait:
  assumes "sched_rep s E R U' D" and "E job = Some es" and "job_holds s job j es bs"
    and "not_queue s job" and "j_batches_done j = j_nbbatches j" and "j_sem j = 0"
    and "job \<notin> set D" and "remove1 job U' = U"
  shows "\<exists>s1 s2. finish_if_done s job = Some s1 \<and> fly_wait_job s1 job = Some (0, s2) \<and> sched_frame s s2 \<and>
    sched_rep s2 (E(running_jobs s \<mapsto> U)) R U D \<and> calls s2 = calls s \<and> keeps job es s s2 \<and>
    get_job s1 job = Some (j\<lparr>j_state := FLY_JOB_DONE, j_sem := Suc 0\<rparr>) \<and>
    job_holds s2 job (j\<lparr>j_state := FLY_JOB_DONE\<rparr>) es bs"
proof -
  have g: "get_job s job = Some j" "job \<noteq> NULL" using assms(3) by (simp_all add: job_holds_def get_job_iff)
  let ?j = "j\<lparr>j_state := FLY_JOB_DONE, j_sem := Suc 0\<rparr>" and ?D = "if malloc_ok s (brk s) then D @ [job] else D"
  let ?E = "E(running_jobs s \<mapsto> U, done_jobs s \<mapsto> ?D)"
  obtain s1 where s1: "finish_if_done s job = Some s1" "heap_step s s1" "batches s1 = batches s"
    "jobs s1 = (jobs s)(job \<mapsto> ?j)" "sched_rep s1 ?E R U ?D"
    using finish_done [OF assms(1) g(1) assms(5)] unfolding assms(6,8) by blast
  note hs = heap_step_simps [OF s1(2)]
  have g1: "get_job s1 job = Some ?j" "j_sem ?j = Suc 0" using s1(4) g(2) by (simp_all add: get_job_def)
  let ?s2 = "\<lambda>h. (put_job s1 job (?j\<lparr>j_sem := 0\<rparr>))\<lparr>nodes := h\<rparr>"
  have "remove1 job ?D = D" using assms(7) by (simp add: remove1_append remove1_idem)
  then obtain h where h: "fly_wait_job s1 job = Some (0, ?s2 h)"
    "sched_rep (?s2 h) (?E(done_jobs s \<mapsto> D)) R U D"
    using wait_job_run [OF s1(5) g1] hs(8) by auto
  have "sched_frame s (?s2 h)"
    by (rule sched_frame_trans [OF heap_step_frame [OF s1(2)]
          sched_frame_trans [OF heap_step_frame [OF heap_step_nodes(3)] heap_step_frame [OF heap_step_nodes(1)]]])
  moreover have "?E(done_jobs s \<mapsto> D) = E(running_jobs s \<mapsto> U)"
    using sched_repD(6,7) [OF assms(1)] by (intro ext) auto
  then have "sched_rep (?s2 h) (E(running_jobs s \<mapsto> U)) R U D" using h(2) by (simp only:)
  moreover have "keeps job es s (?s2 h)" using s1(3,4) by (auto simp: keeps_def put_job_def)
  moreover have "job_holds (?s2 h) job (j\<lparr>j_state := FLY_JOB_DONE\<rparr>) es bs"
    using assms(3,6) s1(3) g(2) by (simp add: job_holds_def get_job_def put_job_def)
  moreover have "calls (?s2 h) = calls s" using hs(2) by simp
  ultimately show ?thesis using s1(1) h(1) g1(1) by blast
qed

text \<open>
  From \<^verbatim>\<open>fly_sched_add_job\<close> to \<^verbatim>\<open>fly_wait_job\<close>, with one turn for every
  batch, taken by whichever worker threads.
\<close>

lemma pfor_whole_run:
  assumes "sched_rep s E [] [] D" and "addable s E job j js je" and "pfor_ok j f"
    and "j_batches_done j = 0" and "j_sem j = 0" and "\<forall>p. malloc_ok s p" and "job \<notin> set D"
    and "int (length ts) = nbworkers s" and "\<forall>t \<in> set ts. get_wt s t \<noteq> None"
  shows "\<exists>s1 s2 s3 es bs. fly_sched_add_job s job = Some (0, s1) \<and> turns s1 ts = Some s2 \<and>
    fly_wait_job s2 job = Some (0, s3) \<and> sched_frame s s3 \<and> sched_rep s3 (E(job \<mapsto> es)) [] [] D \<and>
    (\<forall>p. p \<noteq> job \<longrightarrow> jobs s3 p = jobs s p) \<and> batches s3 |` (- set es) = batches s \<and>
    map_option j_recurse (get_job s2 job) = Some (j_recurse j) \<and>
    job_holds s3 job (j\<lparr>j_nbbatches := nbworkers s, j_batches_done := nbworkers s, j_state := FLY_JOB_DONE\<rparr>) es bs \<and>
    calls s3 = calls s @ map (pfor_call j f) [js..js + max (je - js) (nbworkers s) - 1]"
proof -
  let ?nb = "nbworkers s" and ?plan = "batch_plan job js (je - js) (nbworkers s)" and ?r = "ready_job j (nbworkers s)"
  have a: "not_queue s job" "batch_range_ok js je ?nb" using assms(2) by (simp_all add: addable_def)
  then have nb: "0 < ?nb" "c_ok ?nb" "0 \<le> je - js" by (simp_all add: batch_range_ok_def)
  obtain s1 es where s1: "fly_sched_add_job s job = Some (0, s1)" "sched_frame s s1" "calls s1 = calls s"
    "sched_rep s1 (E(job \<mapsto> es, ready_jobs s \<mapsto> [job])) [job] [] D" "job_holds s1 job ?r es ?plan"
    "\<forall>p. p \<noteq> job \<longrightarrow> jobs s1 p = jobs s p" "batches s1 |` (- set es) = batches s"
    using add_job_run [OF assms(1,2)] assms(6) by auto
  note f1 = sched_frame_simps [OF s1(2)]
  obtain t ts' where ts: "ts = t # ts'" using assms(8) nb(1) by (cases ts) auto
  have t1: "get_wt s1 t \<noteq> None" "\<forall>t \<in> set ts'. get_wt s1 t \<noteq> None"
    using get_wt_frame [OF s1(2)] assms(9) ts by simp_all
  have "length es = length ?plan" using s1(5) by (auto simp: job_holds_def dest: map_eq_imp_length_eq)
  then have un: "unclaimed es ?plan = es" "length es = nat ?nb"
    using plan_unclaimed [OF nb(1)] plan_length [OF nb(1)] by simp_all
  then obtain e rest where es: "es = e # rest" using nb(1) by (cases es) auto
  have E1: "(E(job \<mapsto> es, ready_jobs s \<mapsto> [job])) job = Some es" using a(1) by (simp add: not_queue_def)
  have ok: "pfor_ok ?r f" "c_ok (j_batches_done ?r + 1)" "unclaimed es ?plan = e # rest" "not_queue s1 job"
    "malloc_ok s1 (brk s1)"
    using assms(3,4,6) un(1) es a(1) f1 by (simp_all add: ready_job_def pfor_ok_def c_ok_iff not_queue_def)
  let ?j = "?r\<lparr>j_state := FLY_JOB_RUNNING, j_batches_done := j_batches_done ?r + 1\<rparr>"
  have rj: "j_batches_done ?j = 1" "j_nbbatches ?j = ?nb" "j_sem ?j = 0" "pfor_ok ?j f"
    using assms(3,4,5) by (simp_all add: ready_job_def pfor_ok_def)
  obtain s2 b bs2 E2 where s2: "fly_schedule s1 t = finish_if_done s2 job" "sched_frame s1 s2"
    "sched_rep s2 E2 [] [job] D" "\<forall>b \<in> set bs2. batch_ok b" "job_holds s2 job ?j es bs2" "unclaimed es bs2 = rest"
    "todo ?plan = b # todo bs2" "calls s2 = calls s1 @ batch_calls ?r f b"
    "E2 = E(job \<mapsto> es, ready_jobs s \<mapsto> [job], ready_jobs s1 \<mapsto> [], running_jobs s1 \<mapsto> [job])"
    "keeps job es s1 s2"
    using ready_turn [OF s1(4) E1 s1(5) ok(4,1) plan_batch_ok [OF a(2)] ok(3,2) t1(1) ok(5)] by blast
  have E2: "E2 job = Some es" using E1 ok(4) s2(9) by (simp add: not_queue_def)
  have len: "length (unclaimed es bs2) = length ts'" "j_nbbatches ?j = j_batches_done ?j + int (length ts')"
    using un(2) es s2(6) ts assms(8) rj(1,2) by simp_all
  have okj: "c_ok (j_batches_done ?j)" "c_ok (j_nbbatches ?j)"
    using rj(1,2) nb(2) by (simp_all add: c_ok_iff)
  obtain s3 bs3 where s3: "turns s1 (t # ts') = finish_if_done s3 job" "sched_frame s1 s3"
    "sched_rep s3 E2 [] [job] D" "job_holds s3 job (?j\<lparr>j_batches_done := j_nbbatches ?j\<rparr>) es bs3"
    "calls s3 = calls s2 @ concat (map (batch_calls ?j f) (todo bs2))" "keeps job es s2 s3"
    using turns_from [OF s2(1-3) E2 s2(5) rj(4) s2(4) len okj t1(2)] by blast
  note f3 = sched_frame_simps [OF s3(2)]
  have fin: "not_queue s3 job" "remove1 job [job] = []" using f1 f3 ok(4) by (simp_all add: not_queue_def)
  obtain s4 s5 where s5: "finish_if_done s3 job = Some s4" "fly_wait_job s4 job = Some (0, s5)" "sched_frame s3 s5"
    "sched_rep s5 (E2(running_jobs s3 \<mapsto> [])) [] [] D" "calls s5 = calls s3" "keeps job es s3 s5"
    "get_job s4 job = Some (?j\<lparr>j_batches_done := j_nbbatches ?j, j_state := FLY_JOB_DONE, j_sem := Suc 0\<rparr>)"
    "job_holds s5 job (?j\<lparr>j_batches_done := j_nbbatches ?j, j_state := FLY_JOB_DONE\<rparr>) es bs3"
    using finish_and_wait [OF s3(3) E2 s3(4) fin(1) _ _ assms(7) fin(2)] rj(2,3) by auto
  have "batch_calls ?j f = batch_calls j f" "batch_calls ?r f = batch_calls j f"
    by (rule ext; simp add: batch_calls.simps ready_job_def)+
  then have "calls s5 = calls s @ concat (map (batch_calls j f) (todo ?plan))"
    using s5(5) s3(5) s2(7,8) s1(3) by simp
  then have "calls s5 = calls s @ map (pfor_call j f) [js..js + max (je - js) ?nb - 1]"
    unfolding batch_calls_plan plan_todo [OF nb(1)] plan_covers [OF nb(1,3)] .
  moreover have "sched_frame s s5" by (rule sched_frame_trans [OF s1(2) sched_frame_trans [OF s3(2) s5(3)]])
  moreover have "E2(running_jobs s3 \<mapsto> []) = E(job \<mapsto> es)"
    using sched_repD(4,5,7) [OF assms(1)] a(1) f1(2,5) f3(2) by (intro ext) (auto simp: s2(9) not_queue_def)
  moreover have k: "keeps job es s1 s5" by (rule keeps_trans [OF keeps_trans [OF s2(10) s3(6)] s5(6)])
  then have "\<forall>p. p \<noteq> job \<longrightarrow> jobs s5 p = jobs s p" using s1(6) by (simp add: keeps_def)
  moreover have "batches s5 |` (- set es) = batches s1 |` (- set es)"
    using k by (intro ext) (simp add: keeps_def restrict_map_def)
  ultimately show ?thesis
    using s1(1,7) s3(1) s5(1,2,4,7,8) ts
    by (intro exI [of _ s1] exI [of _ s4] exI [of _ s5] exI [of _ es] exI [of _ bs3])
      (simp add: ready_job_def)
qed

section \<open>Task jobs and jobs that are already complete\<close>

lemma sched_rep_task: "sched_rep s E R U D \<Longrightarrow> sched_rep (s\<lparr>calls := c, tasks := T\<rparr>) E R U D"
  unfolding sched_rep_def job_mem_ok_def
  by (auto elim!: lists_rep_cong simp: node_mem_ok_def)

text \<open>Executing a task job calls the task's function and finishes the job, whose one batch counts as done.\<close>

lemma exec_task_run_any:
  assumes "sched_rep s E R U D" and "get_job s job = Some j" and "j_jtype j = FLY_TASK_TASK"
    and "j_batches_done j = j_nbbatches j" and "get_task s (j_data j) = Some t" and "D' = (if malloc_ok s (brk s) then D @ [job] else D)"
  shows "\<exists>s' E'. fly_sched_exec_job s job = Some (0, s') \<and>
    sched_rep s' E' R (remove1 job U) D' \<and>
    calls s' = calls s @ [TaskCall (tk_func t) (tk_param t)] \<and>
    tasks s' = (tasks s)(j_data j \<mapsto> t\<lparr>tk_result := Some (task_fun s (tk_func t) (tk_param t))\<rparr>) \<and>
    jobs s' = (jobs s)(job \<mapsto> j\<lparr>j_state := FLY_JOB_DONE, j_sem := Suc (j_sem j)\<rparr>) \<and>
    malloc_ok s' = malloc_ok s \<and> task_fun s' = task_fun s \<and> batches s' = batches s \<and>
    ready_jobs s' = ready_jobs s \<and> running_jobs s' = running_jobs s \<and> done_jobs s' = done_jobs s \<and>
    E' = E(running_jobs s \<mapsto> remove1 job U, done_jobs s \<mapsto> D') \<and> client_frame s s'"
proof -
  let ?T = "(tasks s)(j_data j \<mapsto> t\<lparr>tk_result := Some (task_fun s (tk_func t) (tk_param t))\<rparr>)"
  let ?c = "calls s @ [TaskCall (tk_func t) (tk_param t)]"
  let ?s = "s\<lparr>calls := ?c, tasks := ?T\<rparr>"
  have run: "fly_taskjob_exec s job = Some (0, ?s)"
    using assms(2,5) by (simp add: fly_taskjob_exec_def log_call_def put_task_def)
  have r: "sched_rep ?s E R U D" by (rule sched_rep_task [OF assms(1)])
  have g: "get_job ?s job = Some j" using assms(2) by (simp add: get_job_iff)
  obtain s' where s': "finish_if_done ?s job = Some s'" "heap_step ?s s'" "batches s' = batches s"
    "jobs s' = (jobs s)(job \<mapsto> j\<lparr>j_state := FLY_JOB_DONE, j_sem := Suc (j_sem j)\<rparr>)"
    "sched_rep s' (E(running_jobs s \<mapsto> remove1 job U, done_jobs s \<mapsto> D')) R (remove1 job U) D'"
    using finish_done [OF r g assms(4)] unfolding assms(6) by auto
  have "fly_sched_exec_job s job = Some (0, s')"
    using assms(2,3) run s'(1) by (simp add: fly_sched_exec_job_def jtype_defs)
  moreover have "client_frame s s'"
    by (rule client_frame_trans [OF client_frame_task(1) sched_client_frame [OF heap_step_frame [OF s'(2)]]])
  ultimately show ?thesis
    using s' heap_step_simps [OF s'(2)]
    by (intro exI [of _ s'] exI [of _ "E(running_jobs s \<mapsto> remove1 job U, done_jobs s \<mapsto> D')"]) simp
qed

lemma exec_task_run:
  assumes "sched_rep s E R U D" and "get_job s job = Some j" and "j_jtype j = FLY_TASK_TASK"
    and "j_batches_done j = j_nbbatches j" and "get_task s (j_data j) = Some t" and "malloc_ok s (brk s)"
  shows "\<exists>s' E'. fly_sched_exec_job s job = Some (0, s') \<and>
    sched_rep s' E' R (remove1 job U) (D @ [job]) \<and>
    calls s' = calls s @ [TaskCall (tk_func t) (tk_param t)] \<and>
    tasks s' = (tasks s)(j_data j \<mapsto> t\<lparr>tk_result := Some (task_fun s (tk_func t) (tk_param t))\<rparr>) \<and>
    jobs s' = (jobs s)(job \<mapsto> j\<lparr>j_state := FLY_JOB_DONE, j_sem := Suc (j_sem j)\<rparr>) \<and>
    malloc_ok s' = malloc_ok s \<and> task_fun s' = task_fun s \<and> batches s' = batches s \<and>
    ready_jobs s' = ready_jobs s \<and> running_jobs s' = running_jobs s \<and> done_jobs s' = done_jobs s \<and>
    E' = E(running_jobs s \<mapsto> remove1 job U, done_jobs s \<mapsto> D @ [job]) \<and> client_frame s s'"
  using exec_task_run_any [OF assms(1-5) refl] assms(6) by simp

text \<open>A parallel job without an unclaimed batch makes no call; if it is complete it is finished once more.\<close>

lemma exec_complete_run:
  assumes "sched_rep s E R U D" and "E job = Some es" and "job_holds s job j es bs" and "pfor_ok j f"
    and "unclaimed es bs = []" and "j_batches_done j = j_nbbatches j" and "malloc_ok s (brk s)"
  shows "\<exists>s' E'. fly_sched_exec_job s job = Some (1, s') \<and> heap_step s s' \<and>
    sched_rep s' E' R (remove1 job U) (D @ [job]) \<and> batches s' = batches s \<and>
    jobs s' = (jobs s)(job \<mapsto> j\<lparr>j_state := FLY_JOB_DONE, j_sem := Suc (j_sem j)\<rparr>)"
proof -
  have g: "get_job s job = Some j" using assms(3) by (simp add: job_holds_def)
  have "fly_get_exec_batch s job = Some (NULL, s)" by (rule get_exec_sched(1) [OF assms(1-3,5)])
  then have "pfj_exec j s job = Some (1, s)"
    by (simp add: pfj_exec_def fly_pfptrj_exec_def fly_pfarrj_exec_def)
  then have run: "fly_sched_exec_job s job = do { s \<leftarrow> finish_if_done s job; Some (1, s) }"
    using exec_job_pfor [OF g assms(4)] by simp
  obtain s' D' where s': "finish_if_done s job = Some s'" "heap_step s s'" "batches s' = batches s" "D' = D @ [job]"
    "jobs s' = (jobs s)(job \<mapsto> j\<lparr>j_state := FLY_JOB_DONE, j_sem := Suc (j_sem j)\<rparr>)"
    "sched_rep s' (E(running_jobs s \<mapsto> remove1 job U, done_jobs s \<mapsto> D')) R (remove1 job U) D'"
    using finish_done [OF assms(1) g assms(6)] assms(7) by auto
  with run show ?thesis
    by (intro exI [of _ s'] exI [of _ "E(running_jobs s \<mapsto> remove1 job U, done_jobs s \<mapsto> D')"]) simp
qed

lemma task_twice_run:
  assumes "sched_rep s E [job] [] D" and "get_job s job = Some j" and "j_jtype j = FLY_TASK_TASK"
    and "get_task s (j_data j) = Some t" and "\<forall>p. malloc_ok s p"
    and "get_wt s a \<noteq> None" and "get_wt s b \<noteq> None"
  shows "\<exists>s1 s2 s3 s4 E'. fly_sched_get_job s a = Some (job, s1) \<and> fly_sched_get_job s1 b = Some (job, s2) \<and>
    fly_sched_exec_job s2 job = Some (0, s3) \<and> fly_sched_exec_job s3 job = Some (0, s4) \<and>
    calls s4 = calls s @ [TaskCall (tk_func t) (tk_param t), TaskCall (tk_func t) (tk_param t)] \<and>
    sched_rep s4 E' [] [] (D @ [job, job]) \<and> map_option j_sem (jobs s4 job) = Some (j_sem j + 2)"
proof -
  let ?j1 = "j\<lparr>j_batches_done := j_nbbatches j, j_state := FLY_JOB_RUNNING\<rparr>"
  have r: "sched_rep s E ([] @ [job]) [] D" "malloc_ok s (brk s)" using assms(1,5) by simp_all
  obtain s1 E1 where s1: "fly_sched_get_job s a = Some (job, s1)" "sched_frame s s1"
    "sched_rep s1 E1 [] [job] D" "jobs s1 = (jobs s)(job \<mapsto> ?j1)" "calls s1 = calls s"
    using get_job_ready_task [OF r(1) assms(6,2,3) r(2)] by auto
  note f1 = sched_frame_simps [OF s1(2)]
  have g1: "get_job s1 job = Some ?j1" using s1(4) assms(2) by (simp add: get_job_iff)
  then have "\<forall>x \<in> set [job]. get_job s1 x \<noteq> None" by simp
  from get_job_running [OF s1(3) get_wt_frame [OF s1(2) assms(7)] this]
  obtain s2 where s2: "fly_sched_get_job s1 b = Some (running_pick (complete s1) [job] NULL, s2)"
    "sched_frame s1 s2" "sched_rep s2 E1 [] [job] D" "jobs s2 = jobs s1" "calls s2 = calls s1" by blast
  have "running_pick (complete s1) [job] NULL = job" by simp
  note f2 = sched_frame_simps [OF s2(2)]
  have g2: "get_job s2 job = Some ?j1" "j_jtype ?j1 = FLY_TASK_TASK" "j_batches_done ?j1 = j_nbbatches ?j1"
    "get_task s2 (j_data ?j1) = Some t" "malloc_ok s2 (brk s2)"
    using g1 s2(4) f2 f1 assms(3-5) by (simp_all add: get_job_iff get_task_iff)
  let ?j2 = "?j1\<lparr>j_state := FLY_JOB_DONE, j_sem := Suc (j_sem ?j1)\<rparr>"
  let ?t = "t\<lparr>tk_result := Some (task_fun s (tk_func t) (tk_param t))\<rparr>"
  obtain s3 E3 where s3: "fly_sched_exec_job s2 job = Some (0, s3)" "sched_rep s3 E3 [] [] (D @ [job])"
    "calls s3 = calls s2 @ [TaskCall (tk_func t) (tk_param t)]" "jobs s3 = (jobs s2)(job \<mapsto> ?j2)"
    "tasks s3 = (tasks s2)(j_data j \<mapsto> ?t)" "malloc_ok s3 = malloc_ok s2"
    using exec_task_run [OF s2(3) g2] f1 f2 by auto
  have g3: "get_job s3 job = Some ?j2" "j_jtype ?j2 = FLY_TASK_TASK" "j_batches_done ?j2 = j_nbbatches ?j2"
    "get_task s3 (j_data ?j2) = Some ?t" "malloc_ok s3 (brk s3)"
    using g2 s3(4-6) assms(4) f1 f2 assms(5) by (simp_all add: get_job_iff get_task_iff)
  obtain s4 E4 where s4: "fly_sched_exec_job s3 job = Some (0, s4)" "sched_rep s4 E4 [] [] ((D @ [job]) @ [job])"
    "calls s4 = calls s3 @ [TaskCall (tk_func t) (tk_param t)]" "map_option j_sem (jobs s4 job) = Some (j_sem j + 2)"
    using exec_task_run [OF s3(2) g3] by auto
  have "fly_sched_get_job s1 b = Some (job, s2)" using s2(1) by simp
  then show ?thesis
    using s1(1,5) s2(5) s3(1,3) s4 by (intro exI [of _ s1] exI [of _ s2] exI [of _ s3] exI [of _ s4] exI [of _ E4]) simp
qed

section \<open>The queues' operations against three lists\<close>

datatype queue_op = AddReady ptr | GetReady wref | GetRunning wref | MoveRunning ptr wref
  | RemoveRunning ptr | MoveDone ptr | Collect ptr

datatype queue_result = RErr int | RJob ptr | RVoid

fun queue_step :: "fly_sched \<Rightarrow> queue_op \<Rightarrow> (queue_result \<times> fly_sched) option" where
  "queue_step s (AddReady p) = map_option (map_prod RErr id) (fly_sched_add_to_ready s p)"
| "queue_step s (GetReady t) = map_option (map_prod RJob id) (fly_sched_get_ready s t)"
| "queue_step s (GetRunning t) = map_option (map_prod RJob id) (fly_sched_get_running s t)"
| "queue_step s (MoveRunning p t) = map_option (Pair RVoid) (fly_sched_move_to_running s p t)"
| "queue_step s (RemoveRunning p) = map_option (Pair RVoid) (fly_sched_remove_running s p)"
| "queue_step s (MoveDone p) = map_option (Pair RVoid) (fly_sched_move_to_done s p)"
| "queue_step s (Collect p) = map_option (map_prod RErr id) (fly_sched_job_collected s p)"

fun queue_run :: "fly_sched \<Rightarrow> queue_op list \<Rightarrow> (queue_result list \<times> fly_sched) option" where
  "queue_run s [] = Some ([], s)"
| "queue_run s (x # xs) = do { (r, s) \<leftarrow> queue_step s x; (rs, s) \<leftarrow> queue_run s xs; Some (r # rs, s) }"

text \<open>The specification: three lists; \<open>dn\<close> tells the complete jobs.\<close>

type_synonym queues = "ptr list \<times> ptr list \<times> ptr list"

fun spec_step :: "(ptr \<Rightarrow> bool) \<Rightarrow> queues \<Rightarrow> queue_op \<Rightarrow> queue_result \<times> queues" where
  "spec_step dn (R, U, D) (AddReady p) = (RErr 0, R @ [p], U, D)"
| "spec_step dn (R, U, D) (GetReady t) = (RJob (if R = [] then NULL else last R), butlast R, U, D)"
| "spec_step dn (R, U, D) (GetRunning t) = (RJob (running_pick dn U NULL), R, U, D)"
| "spec_step dn (R, U, D) (MoveRunning p t) = (RVoid, R, U @ [p], D)"
| "spec_step dn (R, U, D) (RemoveRunning p) = (RVoid, R, remove1 p U, D)"
| "spec_step dn (R, U, D) (MoveDone p) = (RVoid, R, U, D @ [p])"
| "spec_step dn (R, U, D) (Collect p) = (RErr 0, R, U, remove1 p D)"

fun spec_run :: "(ptr \<Rightarrow> bool) \<Rightarrow> queues \<Rightarrow> queue_op list \<Rightarrow> queue_result list \<times> queues" where
  "spec_run dn q [] = ([], q)"
| "spec_run dn q (x # xs) = (case spec_step dn q x of (r, q) \<Rightarrow> case spec_run dn q xs of (rs, q) \<Rightarrow> (r # rs, q))"

text \<open>What a call needs: its thread is a worker's, its job exists.\<close>

fun op_ok :: "fly_sched \<Rightarrow> queue_op \<Rightarrow> bool" where
  "op_ok s (GetReady t) \<longleftrightarrow> get_wt s t \<noteq> None"
| "op_ok s (GetRunning t) \<longleftrightarrow> get_wt s t \<noteq> None"
| "op_ok s (MoveRunning p t) \<longleftrightarrow> get_wt s t \<noteq> None \<and> get_job s p \<noteq> None"
| "op_ok s _ \<longleftrightarrow> True"

definition queue_frame :: "fly_sched \<Rightarrow> fly_sched \<Rightarrow> bool" where
  "queue_frame s s' \<longleftrightarrow> sched_frame s s' \<and> (\<forall>x. get_job s x \<noteq> None \<longrightarrow> get_job s' x \<noteq> None) \<and>
     complete s' = complete s"

lemma queue_frame_jobs: "sched_frame s s' \<Longrightarrow> jobs s' = jobs s \<Longrightarrow> queue_frame s s'"
  by (simp add: queue_frame_def get_job_def complete_def [abs_def])

lemma op_ok_frame: "queue_frame s s' \<Longrightarrow> op_ok s x \<Longrightarrow> op_ok s' x"
  using get_wt_frame unfolding queue_frame_def by (cases x) fastforce+

definition queues_rep :: "fly_sched \<Rightarrow> queues \<Rightarrow> bool" where
  "queues_rep s q \<longleftrightarrow> (case q of (R, U, D) \<Rightarrow>
     (\<exists>E. sched_rep s E R U D) \<and> (\<forall>x \<in> set U. get_job s x \<noteq> None) \<and> (\<forall>p. malloc_ok s p))"

lemma queues_repI:
  "sched_rep s' E R U D \<Longrightarrow> queue_frame s s' \<Longrightarrow> \<forall>x \<in> set U. get_job s x \<noteq> None \<Longrightarrow> \<forall>p. malloc_ok s p \<Longrightarrow>
    queues_rep s' (R, U, D)"
  unfolding queues_rep_def queue_frame_def using sched_frame_simps(1) [of s s'] by auto

lemma queue_step_refines:
  assumes "queues_rep s q" and "op_ok s x"
  shows "\<exists>s'. queue_step s x = Some (fst (spec_step (complete s) q x), s') \<and>
    queues_rep s' (snd (spec_step (complete s) q x)) \<and> queue_frame s s'"
proof -
  obtain R U D E where q: "q = (R, U, D)" "sched_rep s E R U D" "\<forall>x \<in> set U. get_job s x \<noteq> None"
    "\<forall>p. malloc_ok s p" using assms(1) by (cases q) (auto simp: queues_rep_def)
  have nf: "queue_frame s (s\<lparr>nodes := h\<rparr>)" "queue_frame s (s\<lparr>brk := b, nodes := h\<rparr>)" for h b
    by (rule queue_frame_jobs; simp add: heap_step_frame heap_step_nodes)+
  have tf: "queue_frame s ((touch s t)\<lparr>nodes := h\<rparr>)" "queue_frame s (touch s t)" for t h
    using sched_frame_trans [OF sched_frame_touch heap_step_frame [OF heap_step_nodes(1)]] sched_frame_touch
    by (intro queue_frame_jobs; simp)+
  show ?thesis
  proof (cases x)
    case (AddReady p)
    obtain h where h: "fly_sched_add_to_ready s p = Some (0, s\<lparr>brk := Suc (brk s), nodes := h\<rparr>)"
      "sched_rep (s\<lparr>brk := Suc (brk s), nodes := h\<rparr>) (E(ready_jobs s \<mapsto> R @ [p])) (R @ [p]) U D"
      using add_to_ready_run [OF q(2), of p] q(4) by auto
    from queues_repI [OF h(2) nf(2) q(3,4)] h(1) AddReady q(1) nf(2) show ?thesis by simp
  next
    case (GetReady t)
    then have "get_wt s t \<noteq> None" using assms(2) by simp
    then obtain h where h: "fly_sched_get_ready s t = Some (if R = [] then NULL else last R, (touch s t)\<lparr>nodes := h\<rparr>)"
      "sched_rep ((touch s t)\<lparr>nodes := h\<rparr>) (E(ready_jobs s \<mapsto> butlast R)) (butlast R) U D"
      using get_ready_run [OF q(2)] by blast
    from queues_repI [OF h(2) tf(1) q(3,4)] h(1) GetReady q(1) tf(1) show ?thesis by simp
  next
    case (GetRunning t)
    then have "get_wt s t \<noteq> None" using assms(2) by simp
    then have g: "fly_sched_get_running s t = Some (running_pick (complete s) U NULL, touch s t)"
      using get_running_run [OF q(2) _ q(3)] by simp
    have "sched_rep (touch s t) E R U D" using q(2) unfolding sched_rep_def by simp
    from queues_repI [OF this tf(2) q(3,4)] g GetRunning q(1) tf(2) show ?thesis by simp
  next
    case (MoveRunning p t)
    then obtain j where j: "get_wt s t \<noteq> None" "get_job s p = Some j" using assms(2) by auto
    let ?s = "\<lambda>h. (put_job (touch s t) p (j\<lparr>j_state := FLY_JOB_RUNNING\<rparr>))\<lparr>brk := Suc (brk s), nodes := h\<rparr>"
    obtain h where h: "fly_sched_move_to_running s p t = Some (?s h)"
      "sched_rep (?s h) (E(running_jobs s \<mapsto> U @ [p])) R (U @ [p]) D"
      using move_to_running_run [OF q(2) j] q(4) by (auto simp: Let_def)
    have "sched_frame s (?s h)"
      by (rule sched_frame_trans [OF sched_frame_touch sched_frame_trans [OF heap_step_frame heap_step_frame]],
          rule heap_step_nodes(3), rule heap_step_nodes(2))
    moreover have "complete (?s h) = complete s"
      using j(2) by (intro ext) (simp add: complete_def put_job_def get_job_iff)
    ultimately have qf: "queue_frame s (?s h)"
      using j(2) by (simp add: queue_frame_def get_job_def put_job_def)
    have "\<forall>x \<in> set (U @ [p]). get_job s x \<noteq> None" using q(3) j(2) by simp
    then have "queues_rep (?s h) (R, U @ [p], D)" by (rule queues_repI [OF h(2) qf _ q(4)])
    moreover have "queue_step s x = Some (RVoid, ?s h)" using h(1) MoveRunning by (simp only: queue_step.simps option.map)
    moreover have "spec_step (complete s) q x = (RVoid, R, U @ [p], D)" using MoveRunning q(1) by simp
    ultimately show ?thesis using qf by (intro exI [of _ "?s h"]) (simp only: fst_conv snd_conv simp_thms)
  next
    case (RemoveRunning p)
    obtain h where h: "fly_sched_remove_running s p = Some (s\<lparr>nodes := h\<rparr>)"
      "sched_rep (s\<lparr>nodes := h\<rparr>) (E(running_jobs s \<mapsto> remove1 p U)) R (remove1 p U) D"
      using remove_running_run [OF q(2), of p] by blast
    have "\<forall>x \<in> set (remove1 p U). get_job s x \<noteq> None" using q(3) set_remove1_subset [of p U] by blast
    from queues_repI [OF h(2) nf(1) this q(4)] h(1) RemoveRunning q(1) nf(1) show ?thesis by simp
  next
    case (MoveDone p)
    obtain h where h: "fly_sched_move_to_done s p = Some (s\<lparr>brk := Suc (brk s), nodes := h\<rparr>)"
      "sched_rep (s\<lparr>brk := Suc (brk s), nodes := h\<rparr>) (E(done_jobs s \<mapsto> D @ [p])) R U (D @ [p])"
      using move_to_done_run [OF q(2), of p] q(4) by (auto simp: Let_def)
    from queues_repI [OF h(2) nf(2) q(3,4)] h(1) MoveDone q(1) nf(2) show ?thesis by simp
  next
    case (Collect p)
    obtain h where h: "fly_sched_job_collected s p = Some (0, s\<lparr>nodes := h\<rparr>)"
      "sched_rep (s\<lparr>nodes := h\<rparr>) (E(done_jobs s \<mapsto> remove1 p D)) R U (remove1 p D)"
      using job_collected_run [OF q(2), of p] by blast
    from queues_repI [OF h(2) nf(1) q(3,4)] h(1) Collect q(1) nf(1) show ?thesis by simp
  qed
qed

lemma queue_frame_trans: "queue_frame s s1 \<Longrightarrow> queue_frame s1 s2 \<Longrightarrow> queue_frame s s2"
  unfolding queue_frame_def using sched_frame_trans by metis

lemma queue_run_implements:
  assumes "queues_rep s q" and "\<forall>x \<in> set xs. op_ok s x"
  shows "\<exists>s'. queue_run s xs = Some (fst (spec_run (complete s) q xs), s') \<and>
    queues_rep s' (snd (spec_run (complete s) q xs)) \<and> queue_frame s s'"
  using assms
proof (induction xs arbitrary: s q)
  case Nil
  then show ?case by (simp add: queue_frame_def)
next
  case (Cons x xs)
  obtain r q1 where q1: "spec_step (complete s) q x = (r, q1)" by (cases "spec_step (complete s) q x")
  then obtain s1 where s1: "queue_step s x = Some (r, s1)" "queues_rep s1 q1" "queue_frame s s1"
    using queue_step_refines [OF Cons.prems(1), of x] Cons.prems(2) by auto
  have "\<forall>x \<in> set xs. op_ok s1 x" using op_ok_frame [OF s1(3)] Cons.prems(2) by simp
  from Cons.IH [OF s1(2) this] obtain s2 where s2:
    "queue_run s1 xs = Some (fst (spec_run (complete s1) q1 xs), s2)"
    "queues_rep s2 (snd (spec_run (complete s1) q1 xs))" "queue_frame s1 s2" by blast
  have "complete s1 = complete s" using s1(3) by (simp add: queue_frame_def)
  moreover obtain rs q2 where "spec_run (complete s) q1 xs = (rs, q2)" by (cases "spec_run (complete s) q1 xs")
  ultimately show ?case
    using s1(1) s2 q1 queue_frame_trans [OF s1(3) s2(3)] by (intro exI [of _ s2]) simp
qed

section \<open>A small scheduler\<close>

text \<open>All lists of a heap empty.\<close>

lemma lists_rep_empty:
  assumes "nodes m = (\<lambda>p. if p \<in> P then Some \<lparr>l_next = NULL, l_prev = NULL, l_el = NULL\<rparr> else None)"
    and "P \<subseteq> {0<..<brk m}" and "0 < brk m"
  shows "lists_rep m (\<lambda>p. if p \<in> P then Some [] else None)"
proof (rule lists_repI)
  let ?F = "\<lambda>p. if p \<in> P then Some [] else (None :: (ptr \<times> ptr) list option)"
  show "heap_lists m ?F"
    using assms unfolding heap_lists_def node_mem_ok_def
    by (auto simp: dll_def footprint_def split: if_splits)
qed simp

text \<open>Two workers, nothing queued, a job at address 4 and a task at address 5.\<close>

definition small_sched :: "fly_job \<Rightarrow> fly_sched" where
  "small_sched j = \<lparr>brk = 6, malloc_ok = \<lambda>_. True,
     nodes = (\<lambda>p. if p \<in> {1, 2, 3, 4} then Some \<lparr>l_next = NULL, l_prev = NULL, l_el = NULL\<rparr> else None),
     jobs = [4 \<mapsto> j], batches = Map.empty,
     tasks = [5 \<mapsto> \<lparr>tk_func = 70, tk_param = 80, tk_result = None, tk_sched_data = NULL\<rparr>], sem_ok = \<lambda>_. True,
     workers_ptr = 100, workers = [zero_worker, zero_worker], nbworkers = 2, initialized = 1,
     ready_jobs = 1, running_jobs = 2, done_jobs = 3,
     ready_lock = Some (snd (fly_mrswlock_init FLY_SCHED_MAX_RLOCK)),
     running_lock = Some (snd (fly_mrswlock_init FLY_SCHED_MAX_RLOCK)),
     done_lock = Some (snd (fly_mrswlock_init FLY_SCHED_MAX_RLOCK)),
     sched_thread = NULL, sched_thread_obj = wt_thread zero_worker_thread, threadstate = FLY_SCHED_THREAD_RUNNING,
     s_os = lucky_os, calls = [], task_fun = \<lambda>f x. f + x, worker_size = 8, bthread_off = 4,
     worker_func = 200, sched_func = 300, sched_addr = 400\<rparr>"

definition small_lists :: "ptr \<rightharpoonup> ptr list" where
  "small_lists p = (if p \<in> {1, 2, 3, 4} then Some [] else None)"

lemma small_sched_rep: "sched_rep (small_sched j) small_lists [] [] []"
proof -
  have "lists_rep (small_sched j) (\<lambda>p. if p \<in> {1, 2, 3, 4} then Some [] else None)"
    by (rule lists_rep_empty) (auto simp: small_sched_def)
  moreover have "job_mem_ok (small_sched j)"
    by (auto simp: job_mem_ok_def node_mem_ok_def small_sched_def split: if_splits)
  moreover have "\<exists>l. get_lock (small_sched j) k = Some l \<and> lock_free l" for k
    by (cases k) (simp_all add: small_sched_def get_lock.simps fly_mrswlock_init_def lock_free_def
        FLY_SCHED_MAX_RLOCK_def)
  then have "locks_free (small_sched j)" by (simp add: locks_free_def)
  ultimately show ?thesis
    by (simp add: sched_rep_def small_lists_def [abs_def]) (simp add: small_sched_def)
qed

lemma small_sched_simps [simp]:
  "get_job (small_sched j) 4 = Some j" "malloc_ok (small_sched j) p" "calls (small_sched j) = []"
  "nbworkers (small_sched j) = 2" "ready_jobs (small_sched j) = 1" "running_jobs (small_sched j) = 2"
  "done_jobs (small_sched j) = 3" "workers (small_sched j) = [zero_worker, zero_worker]"
  by (simp_all add: small_sched_def get_job_def)

lemma small_threads: "i < 2 \<Longrightarrow> get_wt (small_sched j) (i, w) \<noteq> None"
  by (simp add: small_sched_def get_wt_def)

section \<open>Properties\<close>

text \<open>
  C12. A parallel loop from end to end: the client adds the job, worker threads take as many turns
  as there are workers (any threads, in any order), and the client waits.  Everything returns with
  success; the client's function has been called exactly for \<open>start, ..., end - 1\<close>, each index
  once and with its argument; the job is done with all its batches counted; the queues are as before.
\<close>

theorem parallel_for_runs_range:
  assumes "sched_rep s E [] [] D" and "addable s E job j js je" and "pfor_ok j f"
    and "j_batches_done j = 0" and "j_sem j = 0" and "\<forall>p. malloc_ok s p" and "job \<notin> set D"
    and "int (length ts) = nbworkers s" and "\<forall>t \<in> set ts. get_wt s t \<noteq> None" and "nbworkers s \<le> je - js"
  shows "\<exists>s1 s2 s3 E'. fly_sched_add_job s job = Some (0, s1) \<and> turns s1 ts = Some s2 \<and>
    fly_wait_job s2 job = Some (0, s3) \<and> sched_rep s3 E' [] [] D \<and>
    get_job s3 job = Some (j\<lparr>j_nbbatches := nbworkers s, j_batches_done := nbworkers s, j_state := FLY_JOB_DONE\<rparr>) \<and>
    calls s3 = calls s @ map (pfor_call j f) [js..je - 1]"
proof -
  have "js + max (je - js) (nbworkers s) - 1 = je - 1" using assms(10) by (simp add: max_def)
  with pfor_whole_run [OF assms(1-9)] show ?thesis by (auto simp: job_holds_def)
qed

text \<open>A loop over \<open>0, 1, 2\<close> on two workers.\<close>

theorem parallel_for_runs_range_witness:
  "\<exists>s1 s2 s3. fly_sched_add_job (small_sched (pfor_job 3 50 60)) 4 = Some (0, s1) \<and>
    turns s1 [(1, BThread), (0, MThread)] = Some s2 \<and> fly_wait_job s2 4 = Some (0, s3) \<and>
    calls s3 = [PForCall 50 0 60, PForCall 50 1 60, PForCall 50 2 60]"
proof -
  let ?s = "small_sched (pfor_job 3 50 60)"
  have a: "addable ?s small_lists 4 (pfor_job 3 50 60) 0 3" "pfor_ok (pfor_job 3 50 60) 50"
    by (simp_all add: addable_def small_lists_def not_queue_def pfor_job_def is_pfor_type_def
        batch_range_ok_def c_ok_iff pfor_ok_def jtype_defs)
  have f: "j_batches_done (pfor_job 3 50 60) = 0" "j_sem (pfor_job 3 50 60) = 0" by (simp_all add: pfor_job_def)
  have t: "\<forall>t \<in> set [(1, BThread), (0, MThread)]. get_wt ?s t \<noteq> None" by (simp add: small_threads del: not_None_eq)
  have "[0..3 - 1] = [0, 1, 2 :: int]" by (simp add: upto.simps)
  moreover have "map (pfor_call (pfor_job 3 50 60) 50) [0, 1, 2] = [PForCall 50 0 60, PForCall 50 1 60, PForCall 50 2 60]"
    by (simp add: pfor_call_def pfor_job_def)
  ultimately show ?thesis
    using parallel_for_runs_range [OF small_sched_rep a f _ _ _ t] unfolding small_sched_simps by fastforce
qed



text \<open>
  A worker looking for work takes the newest ready job, whatever waits before it.  It moves a
  parallel job to the end of the running queue, changes nothing in it but its state, and notifies
  the other workers.
\<close>

theorem newest_ready_job_taken:
  assumes "sched_rep s E (R @ [job]) U D" and "get_wt s t \<noteq> None" and "get_job s job = Some j"
    and "is_pfor_type (j_jtype j)" and "malloc_ok s (brk s)"
  shows "\<exists>s'. fly_sched_get_job s t = Some (job, s') \<and>
    sched_rep s' (E(ready_jobs s \<mapsto> R, running_jobs s \<mapsto> U @ [job])) R (U @ [job]) D \<and>
    jobs s' = (jobs s)(job \<mapsto> j\<lparr>j_state := FLY_JOB_RUNNING\<rparr>) \<and> batches s' = batches s \<and> calls s' = calls s"
  using get_job_ready_pfor [OF assms(1-4) refl] assms(5) by auto

theorem newest_ready_job_taken_witness:
  "\<exists>s s' E. sched_rep s E ([] @ [4]) [] [] \<and> fly_sched_get_job s (0, MThread) = Some (4, s') \<and>
    map_option j_state (jobs s' 4) = Some FLY_JOB_RUNNING"
proof -
  let ?s = "small_sched (pfor_job 3 50 60)"
  obtain h where h: "sched_rep (?s\<lparr>brk := Suc (brk ?s), nodes := h\<rparr>) (small_lists(1 \<mapsto> [] @ [4])) ([] @ [4]) [] []"
    using add_to_ready_run [OF small_sched_rep [of "pfor_job 3 50 60"], of 4] by auto
  let ?t = "?s\<lparr>brk := Suc (brk ?s), nodes := h\<rparr>"
  have "sched_frame ?s ?t" by (rule heap_step_frame [OF heap_step_nodes(2)])
  then have wt: "get_wt ?t (0, MThread) \<noteq> None" by (rule get_wt_frame) (rule small_threads, simp)
  have j: "get_job ?t 4 = Some (pfor_job 3 50 60)" by (simp add: small_sched_def get_job_def)
  have ty: "is_pfor_type (j_jtype (pfor_job 3 50 60))" "malloc_ok ?t (brk ?t)"
    by (simp_all add: pfor_job_def is_pfor_type_def)
  obtain s' where "fly_sched_get_job ?t (0, MThread) = Some (4, s')"
    "jobs s' = (jobs ?t)(4 \<mapsto> (pfor_job 3 50 60)\<lparr>j_state := FLY_JOB_RUNNING\<rparr>)"
    using newest_ready_job_taken [OF h wt j ty] by blast
  with h show ?thesis
    by (intro exI [of _ ?t] exI [of _ s'] exI [of _ "small_lists(1 \<mapsto> [] @ [4])"]) simp
qed

text \<open>
  Without a ready job a worker takes the first running job that is not complete.  If every
  running job is complete it takes the last of them all the same, not null, and so comes to execute
  a job that has nothing left to run.
\<close>

theorem running_search:
  assumes "sched_rep s E [] U D" and "get_wt s t \<noteq> None" and "\<forall>x \<in> set U. get_job s x \<noteq> None"
  shows "\<exists>p s'. fly_sched_get_job s t = Some (p, s') \<and> sched_rep s' E [] U D \<and> jobs s' = jobs s \<and>
    (if filter (Not \<circ> complete s) U \<noteq> [] then p = hd (filter (Not \<circ> complete s) U)
     else if U \<noteq> [] then p = last U else p = NULL)"
proof -
  have "running_pick (complete s) U NULL = (if filter (Not \<circ> complete s) U \<noteq> [] then hd (filter (Not \<circ> complete s) U)
      else if U \<noteq> [] then last U else NULL)"
    by (simp add: running_pick_def comp_def split: list.split)
  moreover obtain s' where "fly_sched_get_job s t = Some (running_pick (complete s) U NULL, s')"
    "sched_rep s' E [] U D" "jobs s' = jobs s" using get_job_running [OF assms] by blast
  ultimately show ?thesis
    by (intro exI [of _ "running_pick (complete s) U NULL"] exI [of _ s']) simp
qed

theorem running_search_witness:
  "\<exists>p s'. fly_sched_get_job (small_sched (pfor_job 3 50 60)) (0, MThread) = Some (p, s') \<and> p = NULL"
proof -
  have "get_wt (small_sched (pfor_job 3 50 60)) (0, MThread) \<noteq> None" by (rule small_threads) simp
  from running_search [OF small_sched_rep this] show ?thesis by auto
qed

text \<open>
  C29. A task may be run twice.  One worker takes the task job and marks its batch as done, which is
  meant to hide the job from the running queue's search; but the search returns the last complete
  job, so a second worker gets the same job.  Both call the client's function, the job is put on the
  done queue twice and the waiter's semaphore is posted twice.
\<close>

theorem task_run_twice:
  assumes "sched_rep s E [job] [] D" and "get_job s job = Some j" and "j_jtype j = FLY_TASK_TASK"
    and "get_task s (j_data j) = Some t" and "\<forall>p. malloc_ok s p"
    and "get_wt s a \<noteq> None" and "get_wt s b \<noteq> None"
  shows "\<exists>s1 s2 s3 s4 E'. fly_sched_get_job s a = Some (job, s1) \<and> fly_sched_get_job s1 b = Some (job, s2) \<and>
    fly_sched_exec_job s2 job = Some (0, s3) \<and> fly_sched_exec_job s3 job = Some (0, s4) \<and>
    calls s4 = calls s @ [TaskCall (tk_func t) (tk_param t), TaskCall (tk_func t) (tk_param t)] \<and>
    sched_rep s4 E' [] [] (D @ [job, job]) \<and> map_option j_sem (jobs s4 job) = Some (j_sem j + 2)"
  using assms by (rule task_twice_run)

definition task_job :: "ptr \<Rightarrow> ptr \<Rightarrow> fly_job" where
  "task_job func task = \<lparr>j_nbbatches = 1, j_batches_done = 0, j_func = TFunc func, j_data = task,
     j_elsize = None, j_start = None, j_end = None, j_jtype = FLY_TASK_TASK, j_recurse = 0,
     j_state = FLY_JOB_IDLE, j_sem = 0\<rparr>"

theorem task_run_twice_witness:
  "\<exists>s s1 s2 s3 s4. fly_sched_add_to_ready (small_sched (task_job 70 5)) 4 = Some (0, s) \<and>
    fly_sched_get_job s (0, MThread) = Some (4, s1) \<and> fly_sched_get_job s1 (1, MThread) = Some (4, s2) \<and>
    fly_sched_exec_job s2 4 = Some (0, s3) \<and> fly_sched_exec_job s3 4 = Some (0, s4) \<and>
    calls s4 = [TaskCall 70 80, TaskCall 70 80]"
proof -
  let ?s = "small_sched (task_job 70 5)"
  obtain h where h: "fly_sched_add_to_ready ?s 4 = Some (0, ?s\<lparr>brk := Suc (brk ?s), nodes := h\<rparr>)"
    "sched_rep (?s\<lparr>brk := Suc (brk ?s), nodes := h\<rparr>) (small_lists(1 \<mapsto> [4])) [4] [] []"
    using add_to_ready_run [OF small_sched_rep [of "task_job 70 5"], of 4] by auto
  let ?t = "?s\<lparr>brk := Suc (brk ?s), nodes := h\<rparr>"
  have "sched_frame ?s ?t" by (rule heap_step_frame [OF heap_step_nodes(2)])
  then have wt: "get_wt ?t (i, MThread) \<noteq> None" if "i < 2" for i
    using get_wt_frame small_threads [OF that] by blast
  have j: "get_job ?t 4 = Some (task_job 70 5)" "j_jtype (task_job 70 5) = FLY_TASK_TASK"
    "get_task ?t (j_data (task_job 70 5)) = Some \<lparr>tk_func = 70, tk_param = 80, tk_result = None, tk_sched_data = NULL\<rparr>"
    by (simp_all add: small_sched_def get_job_def get_task_def task_job_def)
  have m: "\<forall>p. malloc_ok ?t p" "calls ?t = []" by simp_all
  have w: "get_wt ?t (0, MThread) \<noteq> None" "get_wt ?t (1, MThread) \<noteq> None" by (rule wt; simp)+
  obtain s1 s2 s3 s4 where "fly_sched_get_job ?t (0, MThread) = Some (4, s1)"
    "fly_sched_get_job s1 (1, MThread) = Some (4, s2)" "fly_sched_exec_job s2 4 = Some (0, s3)"
    "fly_sched_exec_job s3 4 = Some (0, s4)" "calls s4 = [TaskCall 70 80, TaskCall 70 80]"
    using task_run_twice [OF h(2) j m(1) w] m(2) by auto
  with h(1) show ?thesis by blast
qed

text \<open>
  C30. A worker that found a job before another worker ran its last batch executes it after it is
  finished.  No index is run again, but the job goes onto the done queue and its waiter is posted
  once more.
\<close>

theorem finished_job_finished_again:
  assumes "sched_rep s E R U D" and "E job = Some es" and "job_holds s job j es bs" and "pfor_ok j f"
    and "unclaimed es bs = []" and "j_batches_done j = j_nbbatches j" and "malloc_ok s (brk s)"
  shows "\<exists>s' E'. fly_sched_exec_job s job = Some (1, s') \<and> calls s' = calls s \<and>
    sched_rep s' E' R (remove1 job U) (D @ [job]) \<and>
    jobs s' = (jobs s)(job \<mapsto> j\<lparr>j_state := FLY_JOB_DONE, j_sem := Suc (j_sem j)\<rparr>)"
  using exec_complete_run [OF assms] heap_step_simps(2) by blast

theorem finished_job_finished_again_witness:
  "\<exists>s'. fly_sched_exec_job (small_sched (pfor_job 3 50 60)) 4 = Some (1, s') \<and> calls s' = [] \<and>
    map_option j_sem (jobs s' 4) = Some 1"
proof -
  let ?s = "small_sched (pfor_job 3 50 60)"
  have "small_lists 4 = Some []" "job_holds ?s 4 (pfor_job 3 50 60) [] []" "pfor_ok (pfor_job 3 50 60) 50"
    "unclaimed [] [] = []" "j_batches_done (pfor_job 3 50 60) = j_nbbatches (pfor_job 3 50 60)"
    by (simp_all add: small_lists_def job_holds_def pfor_ok_def pfor_job_def is_pfor_type_def jtype_defs)
  from finished_job_finished_again [OF small_sched_rep this] show ?thesis
    by (auto simp: pfor_job_def)
qed

text \<open>
  C31. A job is lost when memory runs out.  The worker that takes the newest ready job ignores whether
  its entry in the running queue could be made; without memory the job is then in no queue, and every
  other worker finds nothing to do although batches are left.
\<close>

theorem job_lost_without_memory:
  assumes "sched_rep s E [job] [] D" and "get_wt s a \<noteq> None" and "get_wt s b \<noteq> None" and "get_job s job = Some j"
    and "is_pfor_type (j_jtype j)" and "\<not> malloc_ok s (brk s)"
  shows "\<exists>s1 s2. fly_sched_get_job s a = Some (job, s1) \<and>
    sched_rep s1 (E(ready_jobs s \<mapsto> [], running_jobs s \<mapsto> [])) [] [] D \<and> fly_sched_get_job s1 b = Some (NULL, s2)"
proof -
  have r: "sched_rep s E ([] @ [job]) [] D" using assms(1) by simp
  obtain s1 where s1: "fly_sched_get_job s a = Some (job, s1)" "sched_frame s s1"
    "sched_rep s1 (E(ready_jobs s \<mapsto> [], running_jobs s \<mapsto> [])) [] [] D"
    using get_job_ready_pfor [OF r assms(2,4,5) refl] assms(6) by auto
  obtain s2 where "fly_sched_get_job s1 b = Some (running_pick (complete s1) [] NULL, s2)"
    using get_job_running [OF s1(3) get_wt_frame [OF s1(2) assms(3)]] by auto
  with s1(1,3) show ?thesis by (intro exI [of _ s1] exI [of _ s2]) simp
qed

theorem job_lost_without_memory_witness:
  "\<exists>s s1 s2. fly_sched_add_to_ready ((small_sched (pfor_job 3 50 60))\<lparr>malloc_ok := \<lambda>p. p < 7\<rparr>) 4 = Some (0, s) \<and>
    fly_sched_get_job s (0, MThread) = Some (4, s1) \<and> fly_sched_get_job s1 (1, MThread) = Some (NULL, s2)"
proof -
  let ?s = "(small_sched (pfor_job 3 50 60))\<lparr>malloc_ok := \<lambda>p. p < 7\<rparr>"
  note d = sched_repD [OF small_sched_rep [of "pfor_job 3 50 60"]]
  have "lists_rep ?s small_lists" using d(1) by (rule lists_rep_cong) simp_all
  moreover have "job_mem_ok ?s" using d(3) by (simp add: job_mem_ok_def node_mem_ok_def)
  moreover have "get_lock ?s k = get_lock (small_sched (pfor_job 3 50 60)) k" for k
    by (cases k) (simp_all add: get_lock.simps)
  then have "locks_free ?s" using d(2) by (simp add: locks_free_def)
  ultimately have "sched_rep ?s small_lists [] [] []" using d(4-8) unfolding sched_rep_def by simp
  from add_to_ready_run [OF this, of 4] obtain h where
    h: "fly_sched_add_to_ready ?s 4 = Some (0, ?s\<lparr>brk := Suc (brk ?s), nodes := h\<rparr>)"
    "sched_rep (?s\<lparr>brk := Suc (brk ?s), nodes := h\<rparr>) (small_lists(1 \<mapsto> [4])) [4] [] []"
    by (auto simp: small_sched_def)
  let ?t = "?s\<lparr>brk := Suc (brk ?s), nodes := h\<rparr>"
  have wt: "get_wt ?t (i, MThread) \<noteq> None" if "i < 2" for i
    using small_threads [OF that] get_wt_cong [of ?t "small_sched (pfor_job 3 50 60)"] by simp
  have j: "get_job ?t 4 = Some (pfor_job 3 50 60)" "is_pfor_type (j_jtype (pfor_job 3 50 60))" "\<not> malloc_ok ?t (brk ?t)"
    by (simp_all add: small_sched_def get_job_def pfor_job_def is_pfor_type_def)
  have w: "get_wt ?t (0, MThread) \<noteq> None" "get_wt ?t (1, MThread) \<noteq> None" by (rule wt; simp)+
  from job_lost_without_memory [OF h(2) w j] h(1) show ?thesis by blast
qed

text \<open>
  A worker with nothing to do goes to sleep: it blocks if its semaphore is at zero, and
  otherwise uses up one notification; no queue and no job changes.
\<close>

theorem idle_worker_waits:
  assumes "sched_rep s E [] [] D" and "get_wt s t = Some wt"
  shows "case wt_sem wt of 0 \<Rightarrow> fly_schedule s t = None
    | Suc n \<Rightarrow> \<exists>s'. fly_schedule s t = Some s' \<and> sched_rep s' E [] [] D \<and> jobs s' = jobs s \<and> calls s' = calls s \<and>
        get_wt s' t = Some (wt\<lparr>wt_sem := n, wt_thread := (wt_thread wt)\<lparr>t_state := FLY_THREAD_RUNNING\<rparr>\<rparr>)"
proof -
  have touched: "get_wt (touch x t) t = Some (y\<lparr>wt_thread := (wt_thread y)\<lparr>t_state := FLY_THREAD_RUNNING\<rparr>\<rparr>)"
    if "get_wt x t = Some y" for x y
    using that by (cases t) (auto simp: touch_def get_wt_def put_wt_def split: if_splits which.splits)
  let ?wt = "wt\<lparr>wt_thread := (wt_thread wt)\<lparr>t_state := FLY_THREAD_RUNNING\<rparr>\<rparr>"
  have t: "get_wt s t \<noteq> None" using assms(2) by simp
  obtain s1 h where s1: "fly_sched_get_job s t = Some (NULL, s1)" "sched_rep s1 E [] [] D"
    "jobs s1 = jobs s" "calls s1 = calls s" "s1 = touch ((touch s t)\<lparr>nodes := h\<rparr>) t"
    using get_job_running [OF assms(1) t] by auto
  have "get_wt ((touch s t)\<lparr>nodes := h\<rparr>) t = Some ?wt"
    using touched [OF assms(2)] get_wt_cong [of "(touch s t)\<lparr>nodes := h\<rparr>" "touch s t"] by simp
  from touched [OF this] have g: "get_wt s1 t = Some ?wt" by (simp add: s1(5))
  have run: "fly_schedule s t = wait_work s1 t" using s1(1) by (simp add: fly_schedule_def)
  show ?thesis
  proof (cases "wt_sem wt")
    case 0
    with g run show ?thesis
      by (simp add: wait_work_def fly_worker_thread_wait_work_def fly_sem_wait_def fly_sem_notrack_wait_def)
  next
    case (Suc n)
    let ?w = "wt\<lparr>wt_sem := n, wt_thread := (wt_thread wt)\<lparr>t_state := FLY_THREAD_RUNNING\<rparr>\<rparr>"
    let ?s = "put_wt s1 t ?w"
    have "wait_work s1 t = Some ?s"
      using g Suc by (simp add: wait_work_def fly_worker_thread_wait_work_def fly_sem_wait_def
          fly_sem_notrack_wait_def fly_sem_wait_enter_def)
    moreover obtain i w where iw: "t = (i, w)" by (cases t)
    then obtain ws where ws: "?s = s1\<lparr>workers := ws\<rparr>" "length ws = length (workers s1)"
      by (simp add: put_wt_def)
    then have "sched_rep ?s E [] [] D" using sched_rep_workers [OF s1(2)] by simp
    moreover have "get_wt ?s t = Some ?w"
      using g iw by (auto simp: get_wt_def put_wt_def split: if_splits which.splits)
    ultimately show ?thesis using run Suc s1(3,4) ws(1) by simp
  qed
qed

theorem idle_worker_waits_witness:
  "fly_schedule (small_sched (pfor_job 3 50 60)) (0, MThread) = None"
proof -
  have "get_wt (small_sched (pfor_job 3 50 60)) (0, MThread) = Some zero_worker_thread"
    by (simp add: small_sched_def get_wt_def zero_worker_def)
  from idle_worker_waits [OF small_sched_rep this] show ?thesis by (simp add: zero_worker_thread_def)
qed

text \<open>
  C14. The scheduler's queue operations implement three lists.  Any sequence of the operations, by
  any worker threads, on a scheduler that is not out of memory returns (no lock is left taken), gives
  the results of the same operations on three HOL lists, and ends in a scheduler that holds those
  lists.  The ready queue is a stack: jobs are appended and taken at the same end.
\<close>

theorem queue_run_refines:
  assumes "queues_rep s q" and "\<forall>x \<in> set xs. op_ok s x"
  shows "\<exists>s'. queue_run s xs = Some (fst (spec_run (complete s) q xs), s') \<and>
    queues_rep s' (snd (spec_run (complete s) q xs))"
  using queue_run_implements [OF assms] by blast

theorem queue_run_refines_witness:
  "\<exists>s'. queue_run (small_sched (pfor_job 3 50 60))
      [AddReady 4, AddReady 5, GetReady (0, MThread), MoveRunning 4 (1, BThread), MoveDone 4, Collect 4] =
      Some ([RErr 0, RErr 0, RJob 5, RVoid, RVoid, RErr 0], s') \<and> queues_rep s' ([4], [4], [])"
proof -
  let ?s = "small_sched (pfor_job 3 50 60)"
  have "queues_rep ?s ([], [], [])" using small_sched_rep by (auto simp: queues_rep_def)
  moreover have "\<forall>x \<in> set [AddReady 4, AddReady 5, GetReady (0, MThread), MoveRunning 4 (1, BThread),
      MoveDone 4, Collect 4]. op_ok ?s x"
    by (simp add: small_threads del: not_None_eq)
  ultimately show ?thesis
    using queue_run_refines [of ?s "([], [], [])"] by fastforce
qed

end
