(* ===== verification/Fly_Init.thy ===== *)
theory Fly_Init
  imports Fly_Turns
begin

text \<open>
  Bringing the scheduler of \<^verbatim>\<open>src/fly_sched.c\<close> up and down: its locks and queues, the
  array of workers, and the thread that polls the workers' states.

  The array of workers and the scheduler's thread object are blocks of the operating system's
  allocator of \<open>Fly_Thread\<close>; \<open>workers s\<close> holds the workers of the array that have been
  initialised, and the memory behind them is not defined.  A call that joins a thread returns when
  that thread has returned.  The last section is the interleaving of the scheduler's thread with the
  thread that starts and stops it.
\<close>

section \<open>Locks and queues\<close>

definition FLY_SCHED_ONE_LOCKS :: int where "FLY_SCHED_ONE_LOCKS = 1"
definition FLY_SCHED_TWO_LOCKS :: int where "FLY_SCHED_TWO_LOCKS = 2"
definition FLY_SCHED_TREE_LOCKS :: int where "FLY_SCHED_TREE_LOCKS = 3"

lemmas nb_locks_defs = FLY_SCHED_ONE_LOCKS_def FLY_SCHED_TWO_LOCKS_def FLY_SCHED_TREE_LOCKS_def

definition fly_sched_uninit_locks :: "fly_sched \<Rightarrow> int \<Rightarrow> fly_sched" where
  "fly_sched_uninit_locks s nb =
     (let s = (if nb \<ge> FLY_SCHED_TREE_LOCKS then set_lock s DoneL None else s);
          s = (if nb \<ge> FLY_SCHED_TWO_LOCKS then set_lock s RunningL None else s)
      in if nb \<ge> FLY_SCHED_ONE_LOCKS then set_lock s ReadyL None else s)"

definition fly_sched_init_locks :: "fly_sched \<Rightarrow> int \<times> fly_sched" where
  "fly_sched_init_locks s =
     (case fly_mrswlock_init FLY_SCHED_MAX_RLOCK of (err, l) \<Rightarrow>
      let s = set_lock s ReadyL (Some l) in
      if err = 0 then
        (case fly_mrswlock_init FLY_SCHED_MAX_RLOCK of (err, l) \<Rightarrow>
         let s = set_lock s RunningL (Some l) in
         if err = 0 then
           (case fly_mrswlock_init FLY_SCHED_MAX_RLOCK of (err, l) \<Rightarrow>
            let s = set_lock s DoneL (Some l) in
            if err \<noteq> 0 then (fly_err FLYENORES, fly_sched_uninit_locks s FLY_SCHED_TWO_LOCKS)
            else (err, s))
         else (fly_err FLYENORES, fly_sched_uninit_locks s FLY_SCHED_ONE_LOCKS))
      else (err, s))"

definition fly_sched_init_lists :: "fly_sched \<Rightarrow> fly_sched" where
  "fly_sched_init_lists s =
     (let s = fly_list_init s (ready_jobs s);
          s = fly_list_init s (running_jobs s)
      in fly_list_init s (done_jobs s))"

text \<open>One round of a loop of \<^verbatim>\<open>fly_sched_uninit_lists\<close>, and the loop.\<close>

definition drop_tail :: "fly_sched \<Rightarrow> ptr \<Rightarrow> fly_sched option" where
  "drop_tail s l = do { n \<leftarrow> fly_list_tail s l; el \<leftarrow> get_el s n; fly_list_remove s l el }"

partial_function (option) drop_all :: "fly_sched \<Rightarrow> ptr \<Rightarrow> fly_sched option" where
  "drop_all s l = Option.bind (fly_list_is_empty s l) (\<lambda>e.
     if \<not> e then Option.bind (drop_tail s l) (\<lambda>s. drop_all s l) else Some s)"

definition fly_sched_uninit_lists :: "fly_sched \<Rightarrow> fly_sched option" where
  "fly_sched_uninit_lists s = do {
     s \<leftarrow> drop_all s (ready_jobs s);
     s \<leftarrow> drop_all s (running_jobs s);
     drop_all s (done_jobs s)
   }"

section \<open>The workers\<close>

fun workers_uninit_loop :: "fly_sched \<Rightarrow> int \<Rightarrow> nat list \<Rightarrow> (int \<times> fly_sched) option" where
  "workers_uninit_loop s err [] = Some (err, s)"
| "workers_uninit_loop s err (i # is) =
     (if i < length (workers s) then do {
        (e, w, os) \<leftarrow> fly_worker_uninit (s_os s) (workers s ! i);
        workers_uninit_loop (s\<lparr>workers := (workers s)[i := w], s_os := os\<rparr>) (err OR e) is
      } else None)"

definition fly_sched_workers_uninit :: "fly_sched \<Rightarrow> int \<Rightarrow> (int \<times> fly_sched) option" where
  "fly_sched_workers_uninit s nb = do {
     (err, s) \<leftarrow> workers_uninit_loop s (fly_err FLYESUCCESS) [0..<nat nb];
     os \<leftarrow> os_free (s_os s) (workers_ptr s);
     Some (err, s\<lparr>s_os := os, workers := []\<rparr>)
   }"

text \<open>
  The loop of \<^verbatim>\<open>fly_sched_workers_init\<close>: the error, and the index at which it was left
  early.
\<close>

fun workers_init_loop :: "fly_sched \<Rightarrow> int \<Rightarrow> nat list \<Rightarrow> (int \<times> nat option \<times> fly_sched) option" where
  "workers_init_loop s err [] = Some (err, None, s)"
| "workers_init_loop s err (i # is) = do {
     (err, w, os) \<leftarrow> fly_worker_init (s_os s) (worker_func s) (worker_addr s i) (worker_addr s i + bthread_off s);
     let s = s\<lparr>workers := workers s @ [w], s_os := os\<rparr>;
     (if \<not> FLY_SUCCEEDED err then Some (err, Some i, s)
      else do {
        (err, w, os) \<leftarrow> fly_worker_start (s_os s) w;
        let s = s\<lparr>workers := (workers s)[i := w], s_os := os\<rparr>;
        (if \<not> FLY_SUCCEEDED err then do {
           (_, w, os) \<leftarrow> fly_worker_uninit (s_os s) w;
           Some (err, Some i, s\<lparr>workers := (workers s)[i := w], s_os := os\<rparr>)
         } else workers_init_loop s err is)
      })
   }"

text \<open>A negative number of workers is an allocation larger than any object, which fails.\<close>

definition fly_sched_workers_init :: "fly_sched \<Rightarrow> (int \<times> fly_sched) option" where
  "fly_sched_workers_init s =
     (case (if nbworkers s < 0 then (NULL, s_os s) else os_malloc (s_os s)) of (p, os) \<Rightarrow>
      let s = s\<lparr>workers_ptr := p, workers := [], s_os := os\<rparr> in
      if p \<noteq> NULL then do {
        (err, left, s) \<leftarrow> workers_init_loop s (fly_err FLYESUCCESS) [0..<nat (nbworkers s)];
        (case left of None \<Rightarrow> Some (err, s)
         | Some i \<Rightarrow> do { (_, s) \<leftarrow> fly_sched_workers_uninit s (int i); Some (err, s) })
      } else Some (fly_err FLYENORES, s))"

section \<open>The scheduler's thread\<close>

text \<open>
  The loop that waits for the new thread ends when the thread has set \<open>threadstate\<close>, the first thing
  \<^verbatim>\<open>fly_sched_thread_func\<close> does.
\<close>

definition sched_thread_begin :: "fly_sched \<Rightarrow> fly_sched" where
  "sched_thread_begin s = s\<lparr>threadstate := FLY_SCHED_THREAD_RUNNING\<rparr>"

definition fly_sched_thread_init :: "fly_sched \<Rightarrow> (int \<times> fly_sched) option" where
  "fly_sched_thread_init s =
     (case os_malloc (s_os s) of (p, os) \<Rightarrow>
      let s = s\<lparr>sched_thread := p, s_os := os\<rparr> in
      if p = NULL then Some (fly_err FLYENORES, s)
      else do {
        (err, th, os) \<leftarrow> fly_thread_init (s_os s) (sched_thread_obj s) (sched_func s) (sched_addr s);
        let s = s\<lparr>sched_thread_obj := th, s_os := os\<rparr>;
        (if \<not> FLY_SUCCEEDED err then do {
           os \<leftarrow> os_free (s_os s) (sched_thread s);
           Some (err, s\<lparr>s_os := os\<rparr>)
         } else do {
           let s = s\<lparr>threadstate := FLY_SCHED_THREAD_IDLE\<rparr>;
           (err, th, os) \<leftarrow> fly_thread_start (s_os s) (sched_thread_obj s);
           let s = s\<lparr>sched_thread_obj := th, s_os := os\<rparr>;
           (if \<not> FLY_SUCCEEDED err then do {
              (_, os) \<leftarrow> fly_thread_uninit (s_os s) (sched_thread_obj s);
              os \<leftarrow> os_free os (sched_thread s);
              Some (err, s\<lparr>s_os := os, sched_thread := NULL\<rparr>)
            } else Some (err, sched_thread_begin s))
         })
      })"

text \<open>The thread object is read at \<open>sched_thread\<close>: undefined if that block has been freed.\<close>

definition fly_sched_thread_uninit :: "fly_sched \<Rightarrow> (int \<times> fly_sched) option" where
  "fly_sched_thread_uninit s =
     (if sched_thread s \<noteq> NULL then do {
        let s = s\<lparr>threadstate := FLY_SCHED_THREAD_STOPPING\<rparr>;
        (if sched_thread s \<in> os_blocks (s_os s) then do {
           (_, os) \<leftarrow> fly_thread_wait (s_os s) (sched_thread_obj s);
           (err, os) \<leftarrow> fly_thread_uninit os (sched_thread_obj s);
           os \<leftarrow> os_free os (sched_thread s);
           Some (err, s\<lparr>s_os := os\<rparr>)
         } else None)
      } else Some (fly_err FLYESUCCESS, s))"

section \<open>The scheduler\<close>

definition fly_set_nbworkers :: "fly_sched \<Rightarrow> int \<Rightarrow> fly_sched" where
  "fly_set_nbworkers s nb = s\<lparr>nbworkers := nb\<rparr>"

definition fly_sched_init :: "fly_sched \<Rightarrow> (int \<times> fly_sched) option" where
  "fly_sched_init s =
     (let s = s\<lparr>initialized := 0, sched_thread := NULL\<rparr> in
      case fly_sched_init_locks s of (err, s) \<Rightarrow>
      if FLY_SUCCEEDED err then do {
        let s = fly_sched_init_lists s;
        (err, s) \<leftarrow> fly_sched_workers_init s;
        (if FLY_SUCCEEDED err then do {
           (err, s) \<leftarrow> fly_sched_thread_init s;
           (if FLY_SUCCEEDED err then Some (err, s\<lparr>initialized := 1\<rparr>)
            else do {
              (_, s) \<leftarrow> fly_sched_workers_uninit s (nbworkers s);
              Some (err, fly_sched_uninit_locks s FLY_SCHED_TREE_LOCKS)
            })
         } else Some (err, fly_sched_uninit_locks s FLY_SCHED_TREE_LOCKS))
      } else Some (err, s))"

definition fly_sched_uninit :: "fly_sched \<Rightarrow> (int \<times> fly_sched) option" where
  "fly_sched_uninit s = do {
     (_, s) \<leftarrow> fly_sched_thread_uninit s;
     (_, s) \<leftarrow> fly_sched_workers_uninit s (nbworkers s);
     s \<leftarrow> fly_sched_uninit_lists s;
     Some (fly_err FLYESUCCESS, fly_sched_uninit_locks s FLY_SCHED_TREE_LOCKS)
   }"

section \<open>Emptying the queues\<close>

definition list_with :: "ptr \<Rightarrow> fly_sched \<Rightarrow> (ptr \<rightharpoonup> ptr list) \<Rightarrow> fly_sched \<Rightarrow> ptr list \<Rightarrow> bool" where
  "list_with l s0 E s es \<longleftrightarrow> (\<exists>h. s = s0\<lparr>nodes := h\<rparr>) \<and> lists_rep s (E(l \<mapsto> es))"

interpretation queue_drain: drain_loop "list_with l s0 E" "\<lambda>s. drop_tail s l" "\<lambda>s. drop_all s l"
  for l :: ptr and s0 :: fly_sched and E :: "ptr \<rightharpoonup> ptr list"
proof unfold_locales
  fix s :: fly_sched and es :: "ptr list"
  assume "list_with l s0 E s es"
  then obtain h where s: "s = s0\<lparr>nodes := h\<rparr>" and rep: "lists_rep s (E(l \<mapsto> es))"
    by (auto simp: list_with_def)
  show "\<exists>s' es'. drop_tail s l = Some s' \<and> list_with l s0 E s' es' \<and> length es' < length es"
    if "es \<noteq> []"
  proof -
    from that obtain as e where es: "es = as @ [e]" by (cases es rule: rev_cases) auto
    obtain n where n: "fly_list_tail s l = Some n" "get_el s n = Some e"
      using lists_tail [of s "E(l \<mapsto> es)" l as e] rep es by auto
    obtain h' where "fly_list_remove s l e = Some (s\<lparr>nodes := h'\<rparr>)"
      "lists_rep (s\<lparr>nodes := h'\<rparr>) (E(l \<mapsto> es, l \<mapsto> remove1 e es))"
      using lists_remove [OF rep, of l es e] by auto
    moreover have "length (remove1 e es) < length es" using es by (simp add: length_remove1)
    ultimately show ?thesis
      using n s by (intro exI [of _ "s\<lparr>nodes := h'\<rparr>"] exI [of _ "remove1 e es"])
        (auto simp: drop_tail_def list_with_def)
  qed
  show "drop_all s l = (if es = [] then Some s else Option.bind (drop_tail s l) (\<lambda>s. drop_all s l))"
    using lists_is_empty [OF rep, of l es] by (subst drop_all.simps) simp
qed

lemma drop_all_run:
  assumes "lists_rep s E" and "E l = Some es"
  shows "\<exists>h. drop_all s l = Some (s\<lparr>nodes := h\<rparr>) \<and> lists_rep (s\<lparr>nodes := h\<rparr>) (E(l \<mapsto> []))"
proof -
  have "E(l \<mapsto> es) = E" using assms(2) by auto
  then have "list_with l s E s es"
    using assms(1) by (auto simp: list_with_def intro: exI [of _ "nodes s"])
  from queue_drain.drains [OF this] show ?thesis by (auto simp: list_with_def)
qed

section \<open>A crew of started workers\<close>

text \<open>
  The workers \<open>ws\<close> hold one block and one running thread for each of their threads; besides
  these there are the blocks \<open>B\<close> and the threads \<open>T\<close>.
\<close>

definition crew :: "ptr set \<Rightarrow> nat set \<Rightarrow> fly_worker list \<Rightarrow> os \<Rightarrow> bool" where
  "crew B T ws os \<longleftrightarrow> os_ok os \<and> distinct (concat (map attrs ws)) \<and> B \<inter> set (concat (map attrs ws)) = {} \<and>
     os_blocks os = B \<union> set (concat (map attrs ws)) \<and>
     distinct (concat (map pthreads ws)) \<and> (insert None (Some ` T)) \<inter> set (concat (map pthreads ws)) = {} \<and>
     Some ` os_threads os = Some ` T \<union> set (concat (map pthreads ws))"

lemma crewD:
  assumes "crew B T ws os"
  shows "os_ok os" and "distinct (concat (map attrs ws))" and "B \<inter> set (concat (map attrs ws)) = {}"
    and "os_blocks os = B \<union> set (concat (map attrs ws))" and "distinct (concat (map pthreads ws))"
    and "insert None (Some ` T) \<inter> set (concat (map pthreads ws)) = {}"
    and "Some ` os_threads os = Some ` T \<union> set (concat (map pthreads ws))"
  using assms unfolding crew_def by iprover+

lemma crew_none: "crew B T [] os \<longleftrightarrow> os_ok os \<and> os_blocks os = B \<and> os_threads os = T"
  by (auto simp: crew_def)

text \<open>A worker that was initialised is started and joins the crew.\<close>

lemma crew_join:
  assumes "crew B T ws os0" and "os_ok os" and "worker_ready os0 os func self baddr w"
    and "os_answer os (os_calls os)" and "os_answer os (Suc (os_calls os))"
  shows "\<exists>w' os'. fly_worker_start os w = Some (0, w', os') \<and> crew B T (ws @ [w']) os' \<and>
    os_answer os' = os_answer os \<and> os_errno os' = os_errno os \<and> os_calls os' = os_calls os + 2"
proof -
  let ?n = "os_calls os" and ?a = "t_attr (wt_thread (mthread w))" and ?b = "t_attr (wt_thread (bthread w))"
  let ?os = "os\<lparr>os_calls := Suc (Suc ?n), os_threads := insert (Suc ?n) (insert ?n (os_threads os))\<rparr>"
  have r: "?a \<notin> os_blocks os0" "?b \<notin> os_blocks os0" "?a \<noteq> ?b" "os_threads os = os_threads os0"
    "os_blocks os = insert ?b (insert ?a (os_blocks os0))"
    using assms(3) by (simp_all add: worker_ready_def Let_def)
  have start: "fly_worker_start os w = Some (0, started w ?n, ?os)"
    by (rule worker_start_runs) (use r(5) assms(4,5) in auto)
  have w': "attrs (started w ?n) = [?a, ?b]" "pthreads (started w ?n) = [Some ?n, Some (Suc ?n)]"
    by (simp_all add: started_def attrs_def pthreads_def Let_def)
  have new: "?n \<notin> os_threads os" "Suc ?n \<notin> os_threads os" using assms(2) by (auto simp: os_ok_def)
  have "os_ok ?os" using assms(2) by (auto simp: os_ok_def less_Suc_eq)
  moreover have "Some ?n \<notin> Some ` os_threads os" "Some (Suc ?n) \<notin> Some ` os_threads os" using new by auto
  ultimately have "crew B T (ws @ [started w ?n]) ?os"
    using assms(1) r unfolding crew_def by (simp add: w') blast
  with start show ?thesis by (intro exI [of _ "started w ?n"] exI [of _ ?os]) simp
qed

text \<open>The first of the crew is stopped.\<close>

lemma crew_leave:
  assumes "crew B T (w # ws) os"
  shows "\<exists>w' os'. fly_worker_uninit os w = Some (0, w', os') \<and> crew B T ws os' \<and> os_answer os' = os_answer os"
proof -
  let ?a = "t_attr (wt_thread (mthread w))" and ?b = "t_attr (wt_thread (bthread w))"
  have c: "os_ok os" "?a \<noteq> ?b" "os_blocks os = B \<union> {?a, ?b} \<union> set (concat (map attrs ws))"
    "{?a, ?b} \<inter> (B \<union> set (concat (map attrs ws))) = {}"
    "distinct (concat (map attrs ws))" "B \<inter> set (concat (map attrs ws)) = {}"
    using assms by (auto simp: crew_def attrs_def)
  have t: "None \<notin> set (pthreads w)" "distinct (pthreads w @ concat (map pthreads ws))"
    "insert None (Some ` T) \<inter> set (pthreads w @ concat (map pthreads ws)) = {}"
    "Some ` os_threads os = Some ` T \<union> set (pthreads w @ concat (map pthreads ws))"
    using assms by (auto simp: crew_def)
  then obtain m n where mn: "t_pthread (wt_thread (mthread w)) = Some m" "t_pthread (wt_thread (bthread w)) = Some n"
    "pthreads w = [Some m, Some n]" by (auto simp: pthreads_def)
  let ?os = "os\<lparr>os_threads := os_threads os - {m, n}, os_blocks := os_blocks os - {?a, ?b}\<rparr>"
  have ab: "?a \<in> os_blocks os" "?b \<in> os_blocks os" using c(3) by auto
  have "Some m \<in> Some ` os_threads os" "Some n \<in> Some ` os_threads os" using t(4) mn(3) by auto
  then have mt: "{m, n} \<subseteq> os_threads os" "m \<noteq> n" using t(2) mn(3) by auto
  obtain w' where u: "fly_worker_uninit os w = Some (0, w', ?os)"
    using worker_uninit_runs [OF c(1) mn(1,2) mt ab c(2)] by blast
  have "os_ok ?os" using c(1) by (auto simp: os_ok_def)
  moreover have "os_blocks ?os = B \<union> set (concat (map attrs ws))" using c(3,4) by auto
  moreover have "Some ` os_threads ?os = Some ` os_threads os - {Some m, Some n}" by auto
  then have "Some ` os_threads ?os = Some ` T \<union> set (concat (map pthreads ws))"
    using t(2-4) mn(3) by auto
  ultimately have "crew B T ws ?os"
    using c(5,6) t(2,3) unfolding crew_def by auto
  with u show ?thesis by (intro exI [of _ w'] exI [of _ ?os]) simp
qed

text \<open>The loops over the workers.\<close>

lemma workers_uninit_loop_run:
  assumes "crew B T (drop k (take n (workers s))) (s_os s)" and "k \<le> n" and "n \<le> length (workers s)"
  shows "\<exists>ws os. workers_uninit_loop s 0 [k..<n] = Some (0, s\<lparr>workers := ws, s_os := os\<rparr>) \<and> crew B T [] os"
  using assms
proof (induction "n - k" arbitrary: s k)
  case 0
  then show ?case
    by (intro exI [of _ "workers s"] exI [of _ "s_os s"]) simp
next
  case (Suc d)
  then have k: "k < n" "[k..<n] = k # [Suc k..<n]" by (simp_all add: upt_conv_Cons)
  let ?ws = "workers s"
  have "drop k (take n ?ws) = ?ws ! k # drop (Suc k) (take n ?ws)"
    using k(1) Suc.prems(3) Cons_nth_drop_Suc [of k "take n ?ws"] by simp
  with Suc.prems(1) obtain w' os where u: "fly_worker_uninit (s_os s) (?ws ! k) = Some (0, w', os)"
    "crew B T (drop (Suc k) (take n ?ws)) os"
    using crew_leave [of B T "?ws ! k" "drop (Suc k) (take n ?ws)" "s_os s"] by auto
  let ?s = "s\<lparr>workers := ?ws[k := w'], s_os := os\<rparr>"
  have "crew B T (drop (Suc k) (take n (workers ?s))) (s_os ?s)"
    using u(2) by (simp add: take_update_swap)
  moreover have "d = n - Suc k" "Suc k \<le> n" "n \<le> length (workers ?s)"
    using Suc.hyps(2) Suc.prems(3) k(1) by simp_all
  ultimately obtain ws os' where
    "workers_uninit_loop ?s 0 [Suc k..<n] = Some (0, ?s\<lparr>workers := ws, s_os := os'\<rparr>)" "crew B T [] os'"
    using Suc.hyps(1) [of "Suc k" ?s] by auto
  with u(1) k Suc.prems(3) show ?case by (intro exI [of _ ws] exI [of _ os']) simp
qed

text \<open>
  The creation of the threads of worker \<open>i\<close> takes the answers \<open>8 i + 6\<close> and \<open>8 i + 7\<close> of
  the loop; when these are positive the loop ends with all workers started, or at one that could not
  be initialised.
\<close>

definition starts_granted :: "os \<Rightarrow> nat \<Rightarrow> bool" where
  "starts_granted os n \<longleftrightarrow> (\<forall>i < n. os_answer os (os_calls os + 8 * i + 6) \<and> os_answer os (os_calls os + 8 * i + 7))"

lemma workers_init_loop_run:
  assumes "crew B T (workers s) (s_os s)" and "length (workers s) = k" and "k \<le> n"
    and "starts_granted (s_os s) (n - k)"
  shows "\<exists>err left ws os. workers_init_loop s 0 [k..<n] = Some (err, left, s\<lparr>workers := ws, s_os := os\<rparr>) \<and>
    os_answer os = os_answer (s_os s) \<and> os_errno os = os_errno (s_os s) \<and>
    (case left of None \<Rightarrow> err = 0 \<and> length ws = n \<and> crew B T ws os
     | Some i \<Rightarrow> err \<noteq> 0 \<and> i < length ws \<and> crew B T (take i ws) os)"
  using assms
proof (induction "n - k" arbitrary: s k)
  case 0
  then show ?case
    by (intro exI [of _ 0] exI [of _ None] exI [of _ "workers s"] exI [of _ "s_os s"]) simp
next
  case (Suc d)
  then have k: "k < n" "[k..<n] = k # [Suc k..<n]" "d = n - Suc k" by (simp_all add: upt_conv_Cons)
  have "os_ok (s_os s)" using Suc.prems(1) by (simp add: crew_def)
  then show ?case
  proof (cases rule: worker_init_cases [where func = "worker_func s" and self = "worker_addr s k"
        and baddr = "worker_addr s k + bthread_off s"])
    case init: (ok w os)
    have g: "os_answer os (os_calls os)" "os_answer os (Suc (os_calls os))"
      using Suc.prems(4) [unfolded starts_granted_def, rule_format, of 0] k(1) init(4,6) by (simp_all add: add.commute)
    obtain w' os' where st: "fly_worker_start os w = Some (0, w', os')" "crew B T (workers s @ [w']) os'"
      "os_answer os' = os_answer os" "os_errno os' = os_errno os" "os_calls os' = os_calls os + 2"
      using crew_join [OF Suc.prems(1) init(2,3) g] by blast
    let ?s = "s\<lparr>workers := workers s @ [w'], s_os := os'\<rparr>"
    have "starts_granted os' (n - Suc k)"
      unfolding starts_granted_def
    proof (intro allI impI)
      fix i assume "i < n - Suc k"
      then have "Suc i < n - k" by simp
      then have "os_answer (s_os s) (os_calls (s_os s) + 8 * Suc i + 6) \<and> os_answer (s_os s) (os_calls (s_os s) + 8 * Suc i + 7)"
        using Suc.prems(4) unfolding starts_granted_def by blast
      then show "os_answer os' (os_calls os' + 8 * i + 6) \<and> os_answer os' (os_calls os' + 8 * i + 7)"
        using st(3,5) init(4,6) by (simp add: algebra_simps)
    qed
    then have "starts_granted (s_os ?s) (n - Suc k)" by simp
    moreover have "crew B T (workers ?s) (s_os ?s)" "length (workers ?s) = Suc k" "Suc k \<le> n"
      using st(2) Suc.prems(2) k(1) by simp_all
    ultimately obtain err left ws os2 where
      r: "workers_init_loop ?s 0 [Suc k..<n] = Some (err, left, ?s\<lparr>workers := ws, s_os := os2\<rparr>)"
      "os_answer os2 = os_answer (s_os ?s)" "os_errno os2 = os_errno (s_os ?s)"
      "case left of None \<Rightarrow> err = 0 \<and> length ws = n \<and> crew B T ws os2
       | Some i \<Rightarrow> err \<noteq> 0 \<and> i < length ws \<and> crew B T (take i ws) os2"
      using Suc.hyps(1) [of "Suc k" ?s] k(3) by blast
    have "(workers s @ [w])[k := w'] = workers s @ [w']" using Suc.prems(2) by (simp add: list_update_append)
    then have "workers_init_loop s 0 [k..<n] = workers_init_loop ?s 0 [Suc k..<n]"
      using k(2) init(1) st(1) by (simp add: Let_def)
    with r st(3,4) init(4,5) show ?thesis
      by (intro exI [of _ err] exI [of _ left] exI [of _ ws] exI [of _ os2]) simp
  next
    case init: (fail e w os)
    then have "workers_init_loop s 0 [k..<n] = Some (e, Some k, s\<lparr>workers := workers s @ [w], s_os := os\<rparr>)"
      using k(2) by (simp add: Let_def)
    moreover have "crew B T (take k (workers s @ [w])) os"
      using Suc.prems(1,2) init(2,4,5) by (simp add: crew_def)
    ultimately show ?thesis
      using init(3,6,7) Suc.prems(2)
      by (intro exI [of _ e] exI [of _ "Some k"] exI [of _ "workers s @ [w]"] exI [of _ os]) simp
  qed
qed

lemma workers_uninit_run:
  assumes "crew (insert (workers_ptr s) B) T (take (nat nb) (workers s)) (s_os s)" and "nb \<le> int (length (workers s))"
    and "workers_ptr s \<notin> B" and "workers_ptr s \<noteq> NULL"
  shows "\<exists>os. fly_sched_workers_uninit s nb = Some (0, s\<lparr>workers := [], s_os := os\<rparr>) \<and> crew B T [] os"
proof -
  obtain ws os where r: "workers_uninit_loop s 0 [0..<nat nb] = Some (0, s\<lparr>workers := ws, s_os := os\<rparr>)"
    "crew (insert (workers_ptr s) B) T [] os"
    using workers_uninit_loop_run [of "insert (workers_ptr s) B" T 0 "nat nb" s] assms(1,2)
    by (simp only: drop_0 le0 nat_le_iff) blast
  let ?os = "os\<lparr>os_blocks := os_blocks os - {workers_ptr s}\<rparr>"
  have "os_free os (workers_ptr s) = Some ?os" using r(2) assms(4) by (simp add: os_free_def crew_none)
  moreover have "crew B T [] ?os" using r(2) assms(3) by (auto simp: crew_none os_ok_def)
  ultimately show ?thesis using r(1) by (intro exI [of _ ?os]) (simp add: fly_sched_workers_uninit_def)
qed

text \<open>The workers are all started, or the error is passed on and nothing is left of them.\<close>

lemma workers_init_run:
  assumes "os_ok (s_os s)" and "0 \<le> nbworkers s" and "os_errno (s_os s) \<noteq> 0"
    and "starts_granted ((s_os s)\<lparr>os_calls := Suc (os_calls (s_os s))\<rparr>) (nat (nbworkers s))"
  shows "\<exists>err s' ws os p. fly_sched_workers_init s = Some (err, s') \<and>
    s' = s\<lparr>workers_ptr := p, workers := ws, s_os := os\<rparr> \<and>
    (if err = 0 then os_errno os = os_errno (s_os s) \<and> p \<noteq> NULL \<and> p \<notin> os_blocks (s_os s) \<and> int (length ws) = nbworkers s \<and>
       crew (insert p (os_blocks (s_os s))) (os_threads (s_os s)) ws os
     else ws = [] \<and> crew (os_blocks (s_os s)) (os_threads (s_os s)) [] os)"
proof -
  let ?o = "s_os s" and ?n = "os_calls (s_os s)"
  let ?s1 = "s\<lparr>workers_ptr := Suc ?n, workers := [], s_os := ?o\<lparr>os_calls := Suc ?n, os_blocks := insert (Suc ?n) (os_blocks ?o)\<rparr>\<rparr>"
  have fresh: "Suc ?n \<notin> os_blocks ?o" using assms(1) by (auto simp: os_ok_def)
  show ?thesis
  proof (cases "os_answer ?o ?n")
    case False
    let ?os = "?o\<lparr>os_calls := Suc ?n\<rparr>"
    have "crew (os_blocks ?o) (os_threads ?o) [] ?os" using assms(1) by (auto simp: crew_none os_ok_def)
    with False assms(2) show ?thesis
      by (intro exI [of _ "fly_err FLYENORES"] exI [of _ "s\<lparr>workers_ptr := NULL, workers := [], s_os := ?os\<rparr>"]
          exI [of _ "[]"] exI [of _ ?os] exI [of _ NULL])
        (simp add: fly_sched_workers_init_def os_malloc_def os_ask_def)
  next
    case True
    then have m: "os_malloc ?o = (Suc ?n, s_os ?s1)" by (simp add: os_malloc_def os_ask_def)
    have c: "crew (insert (Suc ?n) (os_blocks ?o)) (os_threads ?o) (workers ?s1) (s_os ?s1)"
      using assms(1) by (auto simp: crew_none os_ok_def)
    have g: "starts_granted (s_os ?s1) (nat (nbworkers s) - 0)" using assms(4) by (simp add: starts_granted_def)
    obtain err left ws os where r:
      "workers_init_loop ?s1 0 [0..<nat (nbworkers s)] = Some (err, left, ?s1\<lparr>workers := ws, s_os := os\<rparr>)"
      "os_errno os = os_errno (s_os ?s1)"
      "case left of None \<Rightarrow> err = 0 \<and> length ws = nat (nbworkers s) \<and>
          crew (insert (Suc ?n) (os_blocks ?o)) (os_threads ?o) ws os
       | Some i \<Rightarrow> err \<noteq> 0 \<and> i < length ws \<and> crew (insert (Suc ?n) (os_blocks ?o)) (os_threads ?o) (take i ws) os"
      using workers_init_loop_run [OF c _ _ g] by auto
    let ?s2 = "?s1\<lparr>workers := ws, s_os := os\<rparr>"
    show ?thesis
    proof (cases left)
      case None
      with r m assms(2) fresh show ?thesis
        by (intro exI [of _ 0] exI [of _ ?s2] exI [of _ ws] exI [of _ os] exI [of _ "Suc ?n"])
          (simp add: fly_sched_workers_init_def)
    next
      case (Some i)
      obtain os' where u: "fly_sched_workers_uninit ?s2 (int i) = Some (0, ?s2\<lparr>workers := [], s_os := os'\<rparr>)"
        "crew (os_blocks ?o) (os_threads ?o) [] os'"
        using workers_uninit_run [of ?s2 "os_blocks ?o" "os_threads ?o" "int i"] r(3) Some fresh by auto
      with r m assms(2) Some show ?thesis
        by (intro exI [of _ err] exI [of _ "?s2\<lparr>workers := [], s_os := os'\<rparr>"] exI [of _ "[]"] exI [of _ os'] exI [of _ "Suc ?n"])
          (simp add: fly_sched_workers_init_def)
    qed
  qed
qed

lemma disjoint_more: "insert a A \<inter> P = {} \<Longrightarrow> S = A \<union> P \<Longrightarrow> Z \<inter> S = {} \<Longrightarrow> insert a (Z \<union> A) \<inter> P = {}"
  by blast

lemma crew_extend:
  assumes "crew B T ws os" and "os_ok os'" and "os_blocks os' = X \<union> os_blocks os" and "X \<inter> os_blocks os = {}"
    and "os_threads os' = Y \<union> os_threads os" and "Y \<inter> os_threads os = {}"
  shows "crew (X \<union> B) (Y \<union> T) ws os'"
proof -
  let ?C = "set (concat (map attrs ws))" and ?P = "set (concat (map pthreads ws))"
  note c = crewD(2-7) [OF assms(1)]
  have "Some ` Y \<inter> Some ` os_threads os = {}" using assms(6) by auto
  from disjoint_more [OF c(5,6) this] have "insert None (Some ` (Y \<union> T)) \<inter> ?P = {}" by (simp only: image_Un)
  moreover have "(X \<union> B) \<inter> ?C = {}" using assms(4) c(2,3) by blast
  moreover have "os_blocks os' = (X \<union> B) \<union> ?C" using assms(3) c(3) by blast
  moreover have "Some ` os_threads os' = Some ` (Y \<union> T) \<union> ?P" unfolding assms(5) image_Un c(6) Un_assoc ..
  ultimately show ?thesis using assms(2) c(1,4) unfolding crew_def by iprover
qed

text \<open>The thread object is allocated and its thread runs, or the error is passed on and nothing is left.\<close>

lemma thread_init_run:
  assumes "os_ok (s_os s)" and "os_errno (s_os s) \<noteq> 0"
  shows "\<exists>err q th os st. fly_sched_thread_init s = Some (err, s\<lparr>sched_thread := q, sched_thread_obj := th,
      s_os := os, threadstate := st\<rparr>) \<and> os_ok os \<and>
    (if err = 0 then st = FLY_SCHED_THREAD_RUNNING \<and> distinct [NULL, q, t_attr th] \<and>
       {q, t_attr th} \<inter> os_blocks (s_os s) = {} \<and> os_blocks os = {q, t_attr th} \<union> os_blocks (s_os s) \<and>
       (\<exists>n. t_pthread th = Some n \<and> n \<notin> os_threads (s_os s) \<and> os_threads os = {n} \<union> os_threads (s_os s))
     else q \<notin> os_blocks os \<and> os_blocks os = os_blocks (s_os s) \<and> os_threads os = os_threads (s_os s))"
proof -
  let ?o = "s_os s" and ?n = "os_calls (s_os s)"
  let ?o1 = "?o\<lparr>os_calls := Suc ?n, os_blocks := insert (Suc ?n) (os_blocks ?o)\<rparr>"
  have fresh: "Suc ?n \<notin> os_blocks ?o" "NULL \<notin> os_blocks ?o" using assms(1) by (auto simp: os_ok_def)
  have ok1: "os_ok ?o1" using assms(1) by (auto simp: os_ok_def)
  show ?thesis
  proof (cases "os_answer ?o ?n")
    case False
    have "os_ok (?o\<lparr>os_calls := Suc ?n\<rparr>)" using assms(1) by (auto simp: os_ok_def)
    with False fresh show ?thesis
      by (intro exI [of _ "fly_err FLYENORES"] exI [of _ NULL] exI [of _ "sched_thread_obj s"]
          exI [of _ "?o\<lparr>os_calls := Suc ?n\<rparr>"] exI [of _ "threadstate s"])
        (simp add: fly_sched_thread_init_def os_malloc_def os_ask_def)
  next
    case True
    then have m: "os_malloc ?o = (Suc ?n, ?o1)" by (simp add: os_malloc_def os_ask_def)
    from ok1 show ?thesis
    proof (cases rule: thread_init_cases [where th = "sched_thread_obj s" and f = "sched_func s" and p = "sched_addr s"])
      case i: (fail e th os)
      let ?os = "os\<lparr>os_blocks := os_blocks ?o\<rparr>"
      have f: "os_free os (Suc ?n) = Some ?os" using i(4) fresh(1) by (simp add: os_free_def)
      have "e \<noteq> 0" using i(3) by auto
      with m i(1) f have "fly_sched_thread_init s = Some (e, s\<lparr>sched_thread := Suc ?n, sched_thread_obj := th,
          s_os := ?os, threadstate := threadstate s\<rparr>)"
        by (simp add: fly_sched_thread_init_def)
      moreover have "os_ok ?os" using i(2,4) by (auto simp: os_ok_def)
      ultimately show ?thesis
        using \<open>e \<noteq> 0\<close> i(5) fresh by (intro exI [of _ e] exI [of _ "Suc ?n"] exI [of _ th] exI [of _ ?os] exI [of _ "threadstate s"]) simp
    next
      case i: (ok th os)
      have a: "t_attr th \<in> os_blocks os" "t_attr th \<noteq> Suc ?n" "t_attr th \<notin> os_blocks ?o" "t_attr th \<noteq> NULL"
        using i(2-4) by (auto simp: os_ok_def)
      note st = thread_start_cases [OF i(2) a(1)]
      show ?thesis
      proof (cases "os_answer os (os_calls os)")
        case start: True
        let ?th = "th\<lparr>t_pthread := Some (os_calls os)\<rparr>"
        let ?os = "os\<lparr>os_calls := Suc (os_calls os), os_threads := insert (os_calls os) (os_threads os)\<rparr>"
        have "os_calls os \<notin> os_threads ?o" using i(2,5) by (auto simp: os_ok_def)
        moreover have "os_ok ?os" using i(2) by (auto simp: os_ok_def less_Suc_eq)
        moreover have "fly_sched_thread_init s = Some (0, s\<lparr>sched_thread := Suc ?n, sched_thread_obj := ?th,
            s_os := ?os, threadstate := FLY_SCHED_THREAD_RUNNING\<rparr>)"
          using m i(1) st start by (simp add: fly_sched_thread_init_def sched_thread_begin_def)
        ultimately show ?thesis
          using a(2-4) fresh i(4,5)
          by (intro exI [of _ 0] exI [of _ "Suc ?n"] exI [of _ ?th] exI [of _ ?os] exI [of _ FLY_SCHED_THREAD_RUNNING])
            (simp add: insert_commute)
      next
        case start: False
        let ?os = "os\<lparr>os_calls := Suc (os_calls os), os_blocks := os_blocks ?o\<rparr>"
        have e: "os_errno os \<noteq> 0" using i(7) assms(2) by simp
        have "os_blocks os - {t_attr th} - {Suc ?n} = os_blocks ?o" using i(4) a(3) fresh by auto
        moreover have "Suc ?n \<in> os_blocks os - {t_attr th}" using i(4) a(2) by auto
        ultimately have "fly_sched_thread_init s = Some (os_errno os, s\<lparr>sched_thread := NULL, sched_thread_obj := th,
            s_os := ?os, threadstate := FLY_SCHED_THREAD_IDLE\<rparr>)"
          using m i(1) st start e a by (simp add: fly_sched_thread_init_def fly_thread_uninit_def os_free_def)
        moreover have "os_ok ?os" using i(2,4) by (auto simp: os_ok_def)
        ultimately show ?thesis
          using e i(5) fresh by (intro exI [of _ "os_errno os"] exI [of _ NULL] exI [of _ th] exI [of _ ?os]
              exI [of _ FLY_SCHED_THREAD_IDLE]) simp
      qed
    qed
  qed
qed

section \<open>The scheduler as a whole\<close>

lemma lists_init:
  assumes "lists_rep m E" and "nodes m l = None" and "l \<noteq> NULL" and "l < brk m"
  shows "lists_rep (fly_list_init m l) (E(l \<mapsto> []))"
proof -
  obtain F where F: "heap_lists m F" "E = (\<lambda>l. map_option (map snd) (F l))"
    using assms(1) unfolding lists_rep_def by blast
  from heap_lists_init [OF F(1) assms(2-4)] show ?thesis
    by (rule lists_repI) (simp add: F(2))
qed

lemma list_init_nodes: "fly_list_init m l = m\<lparr>nodes := (nodes m)(l \<mapsto> \<lparr>l_next = NULL, l_prev = NULL, l_el = NULL\<rparr>)\<rparr>"
  by (simp add: fly_list_init_def put_node_def)

text \<open>The queues' heads are there, but not in use as list nodes.\<close>

definition heads_fresh :: "fly_sched \<Rightarrow> bool" where
  "heads_fresh s \<longleftrightarrow> distinct [NULL, ready_jobs s, running_jobs s, done_jobs s] \<and>
     (\<forall>l \<in> {ready_jobs s, running_jobs s, done_jobs s}. l < brk s \<and> nodes s l = None)"

lemma init_lists_run:
  assumes "lists_rep s E" and "heads_fresh s"
  shows "\<exists>h. fly_sched_init_lists s = s\<lparr>nodes := h\<rparr> \<and>
    lists_rep (s\<lparr>nodes := h\<rparr>) (E(ready_jobs s \<mapsto> [], running_jobs s \<mapsto> [], done_jobs s \<mapsto> []))"
proof -
  let ?s1 = "fly_list_init s (ready_jobs s)"
  let ?s2 = "fly_list_init ?s1 (running_jobs s)"
  have f: "distinct [NULL, ready_jobs s, running_jobs s, done_jobs s]"
    "ready_jobs s < brk s" "running_jobs s < brk s" "done_jobs s < brk s"
    "nodes s (ready_jobs s) = None" "nodes s (running_jobs s) = None" "nodes s (done_jobs s) = None"
    using assms(2) by (auto simp: heads_fresh_def)
  have 1: "lists_rep ?s1 (E(ready_jobs s \<mapsto> []))"
    using lists_init [OF assms(1) f(5)] f(1,2) by simp
  have 2: "lists_rep ?s2 (E(ready_jobs s \<mapsto> [], running_jobs s \<mapsto> []))"
    by (rule lists_init [OF 1]) (use f in \<open>auto simp: list_init_nodes\<close>)
  have "lists_rep (fly_list_init ?s2 (done_jobs s)) (E(ready_jobs s \<mapsto> [], running_jobs s \<mapsto> [], done_jobs s \<mapsto> []))"
    by (rule lists_init [OF 2]) (use f in \<open>auto simp: list_init_nodes\<close>)
  then show ?thesis
    by (simp add: fly_sched_init_lists_def Let_def list_init_nodes)
qed

lemma init_locks_run:
  "fly_sched_init_locks s =
    (0, set_lock (set_lock (set_lock s ReadyL (Some (snd (fly_mrswlock_init FLY_SCHED_MAX_RLOCK))))
      RunningL (Some (snd (fly_mrswlock_init FLY_SCHED_MAX_RLOCK))))
      DoneL (Some (snd (fly_mrswlock_init FLY_SCHED_MAX_RLOCK))))"
  by (simp add: fly_sched_init_locks_def fly_mrswlock_init_def Let_def)

lemma init_locks_free: "locks_free (snd (fly_sched_init_locks s))"
proof -
  have "\<exists>l. get_lock (snd (fly_sched_init_locks s)) k = Some l \<and> lock_free l" for k
    by (cases k) (simp_all add: init_locks_run get_lock.simps set_lock.simps fly_mrswlock_init_def
        lock_free_def FLY_SCHED_MAX_RLOCK_def)
  then show ?thesis by (simp add: locks_free_def)
qed

text \<open>A running scheduler: its array, its thread object and its workers, besides \<open>B\<close> and \<open>T\<close>.\<close>

definition sched_up :: "ptr set \<Rightarrow> nat set \<Rightarrow> fly_sched \<Rightarrow> bool" where
  "sched_up B T s \<longleftrightarrow> (let p = workers_ptr s; q = sched_thread s; a = t_attr (sched_thread_obj s) in
     distinct [NULL, p, q, a] \<and> {p, q, a} \<inter> B = {} \<and> nbworkers s = int (length (workers s)) \<and>
     (\<exists>n. t_pthread (sched_thread_obj s) = Some n \<and> n \<notin> T \<and>
       crew ({q, a} \<union> insert p B) ({n} \<union> T) (workers s) (s_os s)))"

text \<open>The scheduler's thread is stopped.\<close>

lemma thread_uninit_run:
  assumes "sched_up B T s"
  shows "\<exists>os. fly_sched_thread_uninit s = Some (0, s\<lparr>threadstate := FLY_SCHED_THREAD_STOPPING, s_os := os\<rparr>) \<and>
    crew (insert (workers_ptr s) B) T (workers s) os"
proof -
  let ?p = "workers_ptr s" and ?q = "sched_thread s" and ?a = "t_attr (sched_thread_obj s)" and ?o = "s_os s"
  obtain n where u: "distinct [NULL, ?p, ?q, ?a]" "{?p, ?q, ?a} \<inter> B = {}" "t_pthread (sched_thread_obj s) = Some n" "n \<notin> T"
    "crew ({?q, ?a} \<union> insert ?p B) ({n} \<union> T) (workers s) ?o"
    using assms unfolding sched_up_def Let_def by blast
  let ?C = "set (concat (map attrs (workers s)))" and ?P = "set (concat (map pthreads (workers s)))"
  note c = crewD [OF u(5)]
  let ?os = "?o\<lparr>os_threads := os_threads ?o - {n}, os_blocks := os_blocks ?o - {?a} - {?q}\<rparr>"
  have qa: "?q \<in> os_blocks ?o" "?a \<in> os_blocks ?o" "?q \<in> os_blocks ?o - {?a}" using c(4) u(1) by auto
  have "Some n \<in> Some ` os_threads ?o" using c(7) by (simp only: image_Un) blast
  then have n: "n \<in> os_threads ?o" by auto
  have run: "fly_sched_thread_uninit s = Some (0, s\<lparr>threadstate := FLY_SCHED_THREAD_STOPPING, s_os := ?os\<rparr>)"
    using u(1,3) qa n by (simp add: fly_sched_thread_uninit_def fly_thread_wait_def fly_thread_uninit_def os_free_def)
  have "os_ok ?os" using c(1) by (auto simp: os_ok_def)
  moreover have "insert ?p B \<inter> ?C = {}" using c(3) by blast
  moreover have "os_blocks ?os = insert ?p B \<union> ?C"
  proof -
    have "?q \<notin> insert ?p B \<union> ?C" "?a \<notin> insert ?p B \<union> ?C" using u(1,2) c(3) by auto
    then show ?thesis using c(4) by auto
  qed
  moreover have "insert None (Some ` T) \<inter> ?P = {}" using c(6) by blast
  moreover have "Some ` os_threads ?os = Some ` T \<union> ?P"
  proof -
    have "Some n \<notin> Some ` T" using u(4) by auto
    moreover have "Some n \<notin> ?P" using c(6) by blast
    moreover have "Some ` os_threads ?os = Some ` os_threads ?o - {Some n}" by auto
    ultimately show ?thesis unfolding c(7) image_Un by auto
  qed
  ultimately have "crew (insert ?p B) T (workers s) ?os"
    using c(2,5) unfolding crew_def by iprover
  with run show ?thesis by blast
qed

lemma uninit_locks_run:
  "get_lock (fly_sched_uninit_locks s FLY_SCHED_TREE_LOCKS) k = None"
  "lists_rep (fly_sched_uninit_locks s nb) E = lists_rep s E" "s_os (fly_sched_uninit_locks s nb) = s_os s"
  "jobs (fly_sched_uninit_locks s nb) = jobs s" "calls (fly_sched_uninit_locks s nb) = calls s"
  "sched_thread (fly_sched_uninit_locks s nb) = sched_thread s" "workers (fly_sched_uninit_locks s nb) = workers s"
  "nbworkers (fly_sched_uninit_locks s nb) = nbworkers s"
proof -
  show "get_lock (fly_sched_uninit_locks s FLY_SCHED_TREE_LOCKS) k = None"
    by (cases k) (simp_all add: fly_sched_uninit_locks_def nb_locks_defs Let_def set_lock.simps get_lock.simps)
  show "lists_rep (fly_sched_uninit_locks s nb) E = lists_rep s E"
    by (simp add: fly_sched_uninit_locks_def Let_def)
qed (simp_all add: fly_sched_uninit_locks_def Let_def set_lock.simps)

text \<open>What bringing the scheduler up or down leaves alone.\<close>

definition boot_frame :: "fly_sched \<Rightarrow> fly_sched \<Rightarrow> bool" where
  "boot_frame s s' \<longleftrightarrow> jobs s' = jobs s \<and> batches s' = batches s \<and> tasks s' = tasks s \<and> calls s' = calls s \<and>
     malloc_ok s' = malloc_ok s \<and> sem_ok s' = sem_ok s \<and> task_fun s' = task_fun s \<and> nbworkers s' = nbworkers s \<and>
     ready_jobs s' = ready_jobs s \<and> running_jobs s' = running_jobs s \<and> done_jobs s' = done_jobs s"

lemma boot_frame_locks: "boot_frame s (fly_sched_uninit_locks s' nb) = boot_frame s s'"
  by (simp add: boot_frame_def fly_sched_uninit_locks_def Let_def set_lock.simps)

lemma sched_uninit_run:
  assumes "sched_up B T s" and "sched_rep s E R U D"
  shows "\<exists>s'. fly_sched_uninit s = Some (0, s') \<and> os_blocks (s_os s') = B \<and> os_threads (s_os s') = T \<and>
    lists_rep s' (E(ready_jobs s \<mapsto> [], running_jobs s \<mapsto> [], done_jobs s \<mapsto> [])) \<and>
    (\<forall>k. get_lock s' k = None) \<and> boot_frame s s'"
proof -
  note d = sched_repD [OF assms(2)]
  have p: "workers_ptr s \<noteq> NULL" "workers_ptr s \<notin> B" using assms(1) by (auto simp: sched_up_def Let_def)
  obtain os where t: "fly_sched_thread_uninit s = Some (0, s\<lparr>threadstate := FLY_SCHED_THREAD_STOPPING, s_os := os\<rparr>)"
    "crew (insert (workers_ptr s) B) T (workers s) os" using thread_uninit_run [OF assms(1)] by blast
  let ?s1 = "s\<lparr>threadstate := FLY_SCHED_THREAD_STOPPING, s_os := os\<rparr>"
  obtain os' where w: "fly_sched_workers_uninit ?s1 (nbworkers s) = Some (0, ?s1\<lparr>workers := [], s_os := os'\<rparr>)"
    "crew B T [] os'" using workers_uninit_run [of ?s1 B T "nbworkers s"] t(2) p d(8) by auto
  let ?s2 = "?s1\<lparr>workers := [], s_os := os'\<rparr>"
  have l: "lists_rep ?s2 E" using d(1) by (rule lists_rep_cong) simp_all
  obtain h1 where h1: "drop_all ?s2 (ready_jobs s) = Some (?s2\<lparr>nodes := h1\<rparr>)"
    "lists_rep (?s2\<lparr>nodes := h1\<rparr>) (E(ready_jobs s \<mapsto> []))" using drop_all_run [OF l d(4)] by blast
  have "(E(ready_jobs s \<mapsto> [])) (running_jobs s) = Some U" using d(5,7) by simp
  from drop_all_run [OF h1(2) this] obtain h2 where h2:
    "drop_all (?s2\<lparr>nodes := h1\<rparr>) (running_jobs s) = Some (?s2\<lparr>nodes := h2\<rparr>)"
    "lists_rep (?s2\<lparr>nodes := h2\<rparr>) (E(ready_jobs s \<mapsto> [], running_jobs s \<mapsto> []))"
    by (auto simp del: fun_upd_apply)
  have "(E(ready_jobs s \<mapsto> [], running_jobs s \<mapsto> [])) (done_jobs s) = Some D" using d(6,7) by simp
  from drop_all_run [OF h2(2) this] obtain h3 where h3:
    "drop_all (?s2\<lparr>nodes := h2\<rparr>) (done_jobs s) = Some (?s2\<lparr>nodes := h3\<rparr>)"
    "lists_rep (?s2\<lparr>nodes := h3\<rparr>) (E(ready_jobs s \<mapsto> [], running_jobs s \<mapsto> [], done_jobs s \<mapsto> []))"
    by (auto simp del: fun_upd_apply)
  have "fly_sched_uninit s = Some (0, fly_sched_uninit_locks (?s2\<lparr>nodes := h3\<rparr>) FLY_SCHED_TREE_LOCKS)"
    using t(1) w(1) h1(1) h2(1) h3(1) by (simp add: fly_sched_uninit_def fly_sched_uninit_lists_def)
  moreover have "boot_frame s (fly_sched_uninit_locks (?s2\<lparr>nodes := h3\<rparr>) FLY_SCHED_TREE_LOCKS)"
    unfolding boot_frame_locks by (simp add: boot_frame_def)
  ultimately show ?thesis using h3(2) w(2)
    by (intro exI [of _ "fly_sched_uninit_locks (?s2\<lparr>nodes := h3\<rparr>) FLY_SCHED_TREE_LOCKS"])
      (simp add: uninit_locks_run crew_none)
qed

text \<open>
  The answers of the operating system to \<^verbatim>\<open>pthread_create\<close> for the workers: the first
  answer is for the array.
\<close>

definition workers_granted :: "os \<Rightarrow> nat \<Rightarrow> bool" where
  "workers_granted os n \<longleftrightarrow> starts_granted (os\<lparr>os_calls := Suc (os_calls os)\<rparr>) n"

lemma get_lock_fields:
  "ready_lock s = ready_lock s' \<Longrightarrow> running_lock s = running_lock s' \<Longrightarrow> done_lock s = done_lock s' \<Longrightarrow>
    get_lock s k = get_lock s' k"
  by (cases k) (simp_all add: get_lock.simps)

lemma sched_init_run:
  assumes "lists_rep s E" and "heads_fresh s" and "job_mem_ok s" and "os_ok (s_os s)" and "os_errno (s_os s) \<noteq> 0"
    and "0 \<le> nbworkers s" and "workers_granted (s_os s) (nat (nbworkers s))"
  shows "\<exists>err s'. fly_sched_init s = Some (err, s') \<and> boot_frame s s' \<and>
    (if FLY_SUCCEEDED err
     then initialized s' = 1 \<and> sched_up (os_blocks (s_os s)) (os_threads (s_os s)) s' \<and>
       sched_rep s' (E(ready_jobs s \<mapsto> [], running_jobs s \<mapsto> [], done_jobs s \<mapsto> [])) [] [] []
     else os_blocks (s_os s') = os_blocks (s_os s) \<and> os_threads (s_os s') = os_threads (s_os s) \<and>
       (\<forall>k. get_lock s' k = None) \<and> workers s' = [] \<and> nbworkers s' = nbworkers s \<and>
       sched_thread s' \<notin> os_blocks (s_os s'))"
proof -
  let ?E = "E(ready_jobs s \<mapsto> [], running_jobs s \<mapsto> [], done_jobs s \<mapsto> [])"
  let ?s0 = "s\<lparr>initialized := 0, sched_thread := NULL\<rparr>" and ?B = "os_blocks (s_os s)" and ?T = "os_threads (s_os s)"
  obtain s1 where s1: "fly_sched_init_locks ?s0 = (0, s1)" by (simp add: init_locks_run)
  have f: "nodes s1 = nodes s" "brk s1 = brk s" "ready_jobs s1 = ready_jobs s" "running_jobs s1 = running_jobs s"
    "done_jobs s1 = done_jobs s" "s_os s1 = s_os s" "nbworkers s1 = nbworkers s" "jobs s1 = jobs s"
    "batches s1 = batches s"
    using s1 by (auto simp: init_locks_run set_lock.simps)
  have bf: "boot_frame s s1" using s1 by (auto simp: boot_frame_def init_locks_run set_lock.simps)
  have lf: "locks_free s1" using init_locks_free [of ?s0] s1 by simp
  have "lists_rep s1 E" using assms(1) f(2,1) by (rule lists_rep_cong)
  moreover have "heads_fresh s1" using assms(2) by (simp add: heads_fresh_def f)
  ultimately obtain h where h: "fly_sched_init_lists s1 = s1\<lparr>nodes := h\<rparr>" "lists_rep (s1\<lparr>nodes := h\<rparr>) ?E"
    using init_lists_run [of s1 E] f by metis
  let ?s2 = "s1\<lparr>nodes := h\<rparr>"
  have o2: "s_os ?s2 = s_os s" "nbworkers ?s2 = nbworkers s" by (simp_all add: f)
  obtain err s3 ws os p where w: "fly_sched_workers_init ?s2 = Some (err, s3)"
    "s3 = ?s2\<lparr>workers_ptr := p, workers := ws, s_os := os\<rparr>"
    "if err = 0 then os_errno os = os_errno (s_os s) \<and> p \<noteq> NULL \<and> p \<notin> ?B \<and> int (length ws) = nbworkers s \<and>
       crew (insert p ?B) ?T ws os else ws = [] \<and> crew ?B ?T [] os"
    using workers_init_run [of ?s2] assms(4-7) unfolding o2 workers_granted_def by metis
  have c0: "fly_sched_init s = do {
      (err, s) \<leftarrow> fly_sched_workers_init ?s2;
      (if FLY_SUCCEEDED err then do {
         (err, s) \<leftarrow> fly_sched_thread_init s;
         (if FLY_SUCCEEDED err then Some (err, s\<lparr>initialized := 1\<rparr>)
          else do {
            (_, s) \<leftarrow> fly_sched_workers_uninit s (nbworkers s);
            Some (err, fly_sched_uninit_locks s FLY_SCHED_TREE_LOCKS)
          })
       } else Some (err, fly_sched_uninit_locks s FLY_SCHED_TREE_LOCKS)) }"
    using s1 h(1) by (simp add: fly_sched_init_def Let_def)
  show ?thesis
  proof (cases "err = 0")
    case False
    let ?s' = "fly_sched_uninit_locks s3 FLY_SCHED_TREE_LOCKS"
    have "fly_sched_init s = Some (err, ?s')" using c0 w(1) False by simp
    moreover have "s_os ?s' = os" "workers ?s' = ws" "nbworkers ?s' = nbworkers s" "sched_thread ?s' = NULL"
      using s1 by (auto simp: uninit_locks_run w(2) f init_locks_run set_lock.simps)
    moreover have "boot_frame s ?s'" unfolding boot_frame_locks using bf by (simp add: w(2) boot_frame_def)
    moreover have "NULL \<notin> ?B" using assms(4) by (auto simp: os_ok_def)
    ultimately show ?thesis
      using False w(3) by (intro exI [of _ err] exI [of _ ?s']) (simp add: uninit_locks_run crew_none)
  next
    case True
    have c: "os_errno os \<noteq> 0" "p \<noteq> NULL" "p \<notin> ?B" "int (length ws) = nbworkers s" "crew (insert p ?B) ?T ws os"
      using w(3) True assms(5) by simp_all
    have s3: "s_os s3 = os" "nbworkers s3 = nbworkers s" "workers s3 = ws" "workers_ptr s3 = p"
      by (simp_all add: w(2) f)
    obtain err' q th os' st where t:
      "fly_sched_thread_init s3 = Some (err', s3\<lparr>sched_thread := q, sched_thread_obj := th, s_os := os', threadstate := st\<rparr>)"
      "os_ok os'" "if err' = 0 then st = FLY_SCHED_THREAD_RUNNING \<and> distinct [NULL, q, t_attr th] \<and>
       {q, t_attr th} \<inter> os_blocks os = {} \<and> os_blocks os' = {q, t_attr th} \<union> os_blocks os \<and>
       (\<exists>n. t_pthread th = Some n \<and> n \<notin> os_threads os \<and> os_threads os' = {n} \<union> os_threads os)
     else q \<notin> os_blocks os' \<and> os_blocks os' = os_blocks os \<and> os_threads os' = os_threads os"
      using thread_init_run [of s3] crewD(1) [OF c(5)] c(1) unfolding s3 by blast
    let ?s4 = "s3\<lparr>sched_thread := q, sched_thread_obj := th, s_os := os', threadstate := st\<rparr>"
    show ?thesis
    proof (cases "err' = 0")
      case False
      have "crew (insert (workers_ptr ?s4) ?B) ?T (take (nat (nbworkers s)) (workers ?s4)) (s_os ?s4)"
        using crew_extend [OF c(5) t(2), of "{}" "{}"] t(3) False c(4) s3 by simp
      from workers_uninit_run [OF this] obtain os2 where u:
        "fly_sched_workers_uninit ?s4 (nbworkers s) = Some (0, ?s4\<lparr>workers := [], s_os := os2\<rparr>)" "crew ?B ?T [] os2"
        using c(2-4) s3 by auto
      let ?s' = "fly_sched_uninit_locks (?s4\<lparr>workers := [], s_os := os2\<rparr>) FLY_SCHED_TREE_LOCKS"
      have "fly_sched_init s = Some (err', ?s')"
        using c0 w(1) True t(1) u(1) s3(2) False by simp
      moreover have "s_os ?s' = os2" "workers ?s' = []" "nbworkers ?s' = nbworkers s" "sched_thread ?s' = q"
        using s3(2) by (simp_all add: uninit_locks_run)
      moreover have "boot_frame s ?s'" unfolding boot_frame_locks using bf by (simp add: w(2) boot_frame_def)
      moreover have "?B \<subseteq> os_blocks os" using crewD(4) [OF c(5)] by blast
      then have "q \<notin> ?B" using t(3) False by auto
      ultimately show ?thesis
        using u(2) False by (intro exI [of _ err'] exI [of _ ?s']) (simp add: uninit_locks_run crew_none)
    next
      case ok: True
      let ?s' = "?s4\<lparr>initialized := 1\<rparr>"
      have run: "fly_sched_init s = Some (0, ?s')" using c0 w(1) True t(1) ok by simp
      obtain n where n: "t_pthread th = Some n" "n \<notin> os_threads os" "os_threads os' = {n} \<union> os_threads os"
        "distinct [NULL, q, t_attr th]" "{q, t_attr th} \<inter> os_blocks os = {}"
        "os_blocks os' = {q, t_attr th} \<union> os_blocks os" using t(3) ok by auto
      have "crew ({q, t_attr th} \<union> insert p ?B) ({n} \<union> ?T) ws os'"
        by (rule crew_extend [OF c(5) t(2) n(6,5) n(3)]) (use n(2) in simp)
      moreover have "n \<notin> ?T" "{p, q, t_attr th} \<inter> ?B = {}" "distinct [NULL, p, q, t_attr th]"
      proof -
        have "Some ` ?T \<subseteq> Some ` os_threads os" using crewD(7) [OF c(5)] by blast
        then show "n \<notin> ?T" using n(2) by auto
        have "insert p ?B \<subseteq> os_blocks os" using crewD(4) [OF c(5)] by blast
        then show "{p, q, t_attr th} \<inter> ?B = {}" "distinct [NULL, p, q, t_attr th]"
          using n(4,5) c(2,3) by auto
      qed
      ultimately have up: "sched_up ?B ?T ?s'"
        using n(1) c(4) s3 by (simp add: sched_up_def Let_def)
      have r: "ready_jobs ?s' = ready_jobs s" "running_jobs ?s' = running_jobs s" "done_jobs ?s' = done_jobs s"
        "nbworkers ?s' = nbworkers s" "workers ?s' = ws" by (simp_all add: w(2) f)
      have L: "lists_rep ?s' ?E" using h(2) by (rule lists_rep_cong) (simp_all add: w(2))
      have "job_mem_ok ?s'"
        using assms(3) lists_rep_ok [OF L] by (simp add: job_mem_ok_def w(2) f)
      moreover have "get_lock ?s' k = get_lock s1 k" for k by (rule get_lock_fields) (simp_all add: w(2))
      then have "locks_free ?s'" using lf unfolding locks_free_def by metis
      ultimately have "sched_rep ?s' ?E [] [] []"
        using L assms(2) c(4) unfolding sched_rep_def r by (simp add: heads_fresh_def)
      moreover have "boot_frame s ?s'" using bf by (simp add: w(2) boot_frame_def)
      ultimately show ?thesis using run up by (intro exI [of _ 0] exI [of _ ?s']) simp
    qed
  qed
qed

section \<open>An operating system that grants everything\<close>

lemma worker_up:
  assumes "os_answer os = (\<lambda>_. True)"
  shows "\<exists>w os1 w' os'. fly_worker_init os f a b = Some (0, w, os1) \<and> fly_worker_start os1 w = Some (0, w', os') \<and>
    os_answer os' = (\<lambda>_. True)"
  using assms
  by (simp add: fly_worker_start_def fly_worker_thread_start_def fly_thread_start_def zero_worker_def zero_worker_thread_def
      fly_worker_init_def fly_worker_thread_init_def fly_thread_init_def os_malloc_def os_ask_def fly_sem_init_def Let_def)

lemma workers_up:
  assumes "os_answer (s_os s) = (\<lambda>_. True)" and "length (workers s) = k"
  shows "\<exists>ws os. workers_init_loop s 0 [k..<k + n] = Some (0, None, s\<lparr>workers := ws, s_os := os\<rparr>) \<and> os_answer os = (\<lambda>_. True)"
  using assms
proof (induction n arbitrary: k s)
  case 0
  then show ?case by (intro exI [of _ "workers s"] exI [of _ "s_os s"]) simp
next
  case (Suc n)
  obtain w os1 w' os' where w: "fly_worker_init (s_os s) (worker_func s) (worker_addr s k) (worker_addr s k + bthread_off s) = Some (0, w, os1)"
    "fly_worker_start os1 w = Some (0, w', os')" "os_answer os' = (\<lambda>_. True)"
    using worker_up [OF Suc.prems(1)] by metis
  let ?s = "s\<lparr>workers := workers s @ [w'], s_os := os'\<rparr>"
  have "[k..<k + Suc n] = k # [Suc k..<Suc k + n]" by (simp add: upt_conv_Cons)
  moreover obtain ws os where "workers_init_loop ?s 0 [Suc k..<Suc k + n] = Some (0, None, ?s\<lparr>workers := ws, s_os := os\<rparr>)"
    "os_answer os = (\<lambda>_. True)" using Suc.IH [of ?s "Suc k"] w(3) Suc.prems(2) by auto
  ultimately show ?case
    using w(1,2) Suc.prems(2) by (intro exI [of _ ws] exI [of _ os]) (simp add: Let_def list_update_append)
qed

lemma granted_init:
  assumes "os_answer (s_os s) = (\<lambda>_. True)" and "0 \<le> nbworkers s"
  shows "\<exists>s'. fly_sched_init s = Some (0, s')"
proof -
  obtain s1 where s1: "fly_sched_init_locks (s\<lparr>initialized := 0, sched_thread := NULL\<rparr>) = (0, s1)" "s_os s1 = s_os s" "nbworkers s1 = nbworkers s"
    by (simp add: init_locks_run set_lock.simps)
  let ?s = "fly_sched_init_lists s1"
  let ?o = "s_os s" and ?n = "os_calls (s_os s)"
  have f: "s_os ?s = ?o" "nbworkers ?s = nbworkers s"
    using s1 by (simp_all add: fly_sched_init_lists_def Let_def list_init_nodes)
  let ?t = "?s\<lparr>workers_ptr := Suc ?n, workers := [], s_os := ?o\<lparr>os_calls := Suc ?n, os_blocks := insert (Suc ?n) (os_blocks ?o)\<rparr>\<rparr>"
  obtain ws os where w: "workers_init_loop ?t 0 [0..<nat (nbworkers s)] = Some (0, None, ?t\<lparr>workers := ws, s_os := os\<rparr>)"
    "os_answer os = (\<lambda>_. True)" using workers_up [of ?t 0 "nat (nbworkers s)"] assms(1) by auto
  then have "fly_sched_workers_init ?s = Some (0, ?t\<lparr>workers := ws, s_os := os\<rparr>)"
    using assms f by (simp add: fly_sched_workers_init_def os_malloc_def os_ask_def)
  moreover have "\<exists>s'. fly_sched_thread_init x = Some (0, s')" if "os_answer (s_os x) = (\<lambda>_. True)" for x
    using that by (simp add: fly_sched_thread_init_def fly_thread_init_def fly_thread_start_def os_malloc_def os_ask_def Let_def)
  then obtain s' where "fly_sched_thread_init (?t\<lparr>workers := ws, s_os := os\<rparr>) = Some (0, s')" using w(2) by fastforce
  ultimately show ?thesis using s1(1) by (simp add: fly_sched_init_def Let_def)
qed

section \<open>The scheduler's thread and the thread that controls it\<close>

text \<open>
  The places of \<^verbatim>\<open>fly_sched_thread_func\<close>: not created; before it sets \<open>threadstate\<close>; at
  the loop's test; in the update and the sleep; returned.  The places of the controlling thread, in
  \<^verbatim>\<open>fly_sched_thread_init\<close> and \<^verbatim>\<open>fly_sched_thread_uninit\<close>.
\<close>

datatype spc = SNone | SBegin | STest | SUpdate | SReturned

datatype sctl = SInit | SIdleSet | SWaitRunning | SUp | SJoining | SJoined

record ssys =
  ss_threadstate :: int
  ss_pc :: spc
  ss_ctl :: sctl

inductive sched_thread_step :: "ssys \<Rightarrow> ssys \<Rightarrow> bool" where
  set_idle: "ss_ctl s = SInit \<Longrightarrow>
    sched_thread_step s (s\<lparr>ss_threadstate := FLY_SCHED_THREAD_IDLE, ss_ctl := SIdleSet\<rparr>)"
| start: "ss_ctl s = SIdleSet \<Longrightarrow> sched_thread_step s (s\<lparr>ss_pc := SBegin, ss_ctl := SWaitRunning\<rparr>)"
| seen_running: "ss_ctl s = SWaitRunning \<Longrightarrow> ss_threadstate s = FLY_SCHED_THREAD_RUNNING \<Longrightarrow>
    sched_thread_step s (s\<lparr>ss_ctl := SUp\<rparr>)"
| stop: "ss_ctl s = SUp \<Longrightarrow>
    sched_thread_step s (s\<lparr>ss_threadstate := FLY_SCHED_THREAD_STOPPING, ss_ctl := SJoining\<rparr>)"
| join: "ss_ctl s = SJoining \<Longrightarrow> ss_pc s = SReturned \<Longrightarrow> sched_thread_step s (s\<lparr>ss_ctl := SJoined\<rparr>)"
| begin_run: "ss_pc s = SBegin \<Longrightarrow>
    sched_thread_step s (s\<lparr>ss_threadstate := FLY_SCHED_THREAD_RUNNING, ss_pc := STest\<rparr>)"
| loop: "ss_pc s = STest \<Longrightarrow> ss_threadstate s = FLY_SCHED_THREAD_RUNNING \<Longrightarrow>
    sched_thread_step s (s\<lparr>ss_pc := SUpdate\<rparr>)"
| leave: "ss_pc s = STest \<Longrightarrow> ss_threadstate s \<noteq> FLY_SCHED_THREAD_RUNNING \<Longrightarrow>
    sched_thread_step s (s\<lparr>ss_pc := SReturned\<rparr>)"
| updated: "ss_pc s = SUpdate \<Longrightarrow> sched_thread_step s (s\<lparr>ss_pc := STest\<rparr>)"

definition sched_thread_start :: ssys where
  "sched_thread_start = \<lparr>ss_threadstate = FLY_SCHED_THREAD_IDLE, ss_pc = SNone, ss_ctl = SInit\<rparr>"

lemmas threadstate_defs = FLY_SCHED_THREAD_IDLE_def FLY_SCHED_THREAD_RUNNING_def FLY_SCHED_THREAD_STOPPING_def

definition handshake_inv :: "ssys \<Rightarrow> bool" where
  "handshake_inv s \<longleftrightarrow>
     (ss_ctl s \<in> {SInit, SIdleSet} \<longrightarrow> ss_pc s = SNone) \<and>
     (ss_ctl s = SIdleSet \<longrightarrow> ss_threadstate s = FLY_SCHED_THREAD_IDLE) \<and>
     (ss_ctl s = SWaitRunning \<longrightarrow> ss_pc s = SBegin \<and> ss_threadstate s = FLY_SCHED_THREAD_IDLE \<or>
        ss_pc s \<in> {STest, SUpdate} \<and> ss_threadstate s = FLY_SCHED_THREAD_RUNNING) \<and>
     (ss_ctl s = SUp \<longrightarrow> ss_pc s \<in> {STest, SUpdate} \<and> ss_threadstate s = FLY_SCHED_THREAD_RUNNING) \<and>
     (ss_ctl s \<in> {SJoining, SJoined} \<longrightarrow> ss_pc s \<in> {STest, SUpdate, SReturned} \<and>
        ss_threadstate s = FLY_SCHED_THREAD_STOPPING)"

interpretation handshake: invariant_system "\<lambda>s. s = sched_thread_start" sched_thread_step handshake_inv
proof unfold_locales
  fix s t
  show "handshake_inv s" if "s = sched_thread_start"
    using that by (simp add: handshake_inv_def sched_thread_start_def)
  show "handshake_inv t" if "handshake_inv s" "sched_thread_step s t"
    using that(2,1) by (cases rule: sched_thread_step.cases) (auto simp: handshake_inv_def threadstate_defs)
qed

definition sched_thread_moves :: "ssys \<Rightarrow> ssys \<Rightarrow> bool" where
  "sched_thread_moves s t \<longleftrightarrow> sched_thread_step s t \<and> ss_pc t \<noteq> ss_pc s"

fun stop_rank :: "spc \<Rightarrow> nat" where
  "stop_rank SUpdate = 2" | "stop_rank STest = 1" | "stop_rank _ = 0"

text \<open>Before its first store the thread can do nothing but set the state that the starter waits for.\<close>

lemma waiting_progress:
  assumes "handshake_inv s" and "ss_ctl s = SWaitRunning"
  shows "if ss_threadstate s = FLY_SCHED_THREAD_RUNNING then sched_thread_step s (s\<lparr>ss_ctl := SUp\<rparr>)
    else sched_thread_step s (s\<lparr>ss_threadstate := FLY_SCHED_THREAD_RUNNING, ss_pc := STest\<rparr>)"
  using assms by (auto simp: handshake_inv_def intro: sched_thread_step.intros)

lemma stopping_progress:
  assumes "handshake_inv s" and "ss_ctl s = SJoining" and "ss_pc s \<noteq> SReturned"
  shows "(\<exists>t. sched_thread_moves s t) \<and> (\<forall>t. sched_thread_moves s t \<longrightarrow> stop_rank (ss_pc t) < stop_rank (ss_pc s))"
proof
  have pc: "ss_pc s \<in> {STest, SUpdate}" "ss_threadstate s \<noteq> FLY_SCHED_THREAD_RUNNING"
    using assms by (auto simp: handshake_inv_def threadstate_defs)
  show "\<exists>t. sched_thread_moves s t"
  proof (cases "ss_pc s = STest")
    case True
    from leave [OF this pc(2)] True show ?thesis by (intro exI [of _ "s\<lparr>ss_pc := SReturned\<rparr>"]) (simp add: sched_thread_moves_def)
  next
    case False
    then have "ss_pc s = SUpdate" using pc(1) by simp
    from updated [OF this] this show ?thesis by (intro exI [of _ "s\<lparr>ss_pc := STest\<rparr>"]) (simp add: sched_thread_moves_def)
  qed
  show "\<forall>t. sched_thread_moves s t \<longrightarrow> stop_rank (ss_pc t) < stop_rank (ss_pc s)"
  proof (intro allI impI)
    fix t assume "sched_thread_moves s t"
    then have "sched_thread_step s t" "ss_pc t \<noteq> ss_pc s" by (simp_all add: sched_thread_moves_def)
    then show "stop_rank (ss_pc t) < stop_rank (ss_pc s)"
      using pc assms(2) by (cases rule: sched_thread_step.cases) auto
  qed
qed

section \<open>Properties\<close>

text \<open>A scheduler with two workers to be initialised on the operating system \<open>os\<close>.\<close>

definition fresh_sched :: "os \<Rightarrow> fly_sched" where
  "fresh_sched os = (small_sched (pfor_job 3 50 60))\<lparr>nodes := Map.empty, jobs := Map.empty, tasks := Map.empty,
     workers := [], nbworkers := 2, s_os := os\<rparr>"

lemma fresh_sched_ok:
  "lists_rep (fresh_sched os) (\<lambda>p. if p \<in> {} then Some [] else None)" "heads_fresh (fresh_sched os)"
  "job_mem_ok (fresh_sched os)" "s_os (fresh_sched os) = os" "nbworkers (fresh_sched os) = 2"
proof -
  show "lists_rep (fresh_sched os) (\<lambda>p. if p \<in> {} then Some [] else None)"
    by (rule lists_rep_empty) (auto simp: fresh_sched_def small_sched_def)
qed (simp_all add: heads_fresh_def job_mem_ok_def node_mem_ok_def fresh_sched_def small_sched_def)

lemma lucky_granted: "os_ok lucky_os" "os_errno lucky_os \<noteq> 0" "workers_granted lucky_os n"
  by (simp_all add: os_ok_def lucky_os_def workers_granted_def starts_granted_def)




text \<open>Two workers brought up, a job added, and all taken down again.\<close>

lemma lucky_init: "\<exists>s'. fly_sched_init (fresh_sched lucky_os) = Some (0, s') \<and> sched_up {} {} s' \<and>
    (\<exists>E. sched_rep s' E [] [] [])"
proof -
  have "\<exists>s'. fly_sched_init (fresh_sched lucky_os) = Some (0, s')"
    by (rule granted_init) (simp_all add: fresh_sched_ok lucky_os_def)
  then obtain s' where s': "fly_sched_init (fresh_sched lucky_os) = Some (0, s')" by blast
  obtain err s'' where r: "fly_sched_init (fresh_sched lucky_os) = Some (err, s'')"
    "if FLY_SUCCEEDED err then initialized s'' = 1 \<and> sched_up (os_blocks lucky_os) (os_threads lucky_os) s'' \<and>
       (\<exists>E. sched_rep s'' E [] [] []) else True"
    using sched_init_run [OF fresh_sched_ok(1-3) [of lucky_os]] lucky_granted unfolding fresh_sched_ok
    by (metis (no_types, lifting) zero_le_numeral)
  have "err = 0" "s'' = s'" using r(1) s' by simp_all
  with r have "sched_up {} {} s' \<and> (\<exists>E. sched_rep s' E [] [] [])" by (simp add: lucky_os_def)
  with s' show ?thesis by blast
qed


text \<open>
  C38. A failed \<^verbatim>\<open>fly_sched_init\<close> must not be followed by \<^verbatim>\<open>fly_sched_uninit\<close>:
  with at least one worker the second call reads workers that are not there (the flag
  \<^verbatim>\<open>initialized\<close> is never looked at).
\<close>

theorem uninit_after_failed_init_undefined:
  assumes "lists_rep s E" and "heads_fresh s" and "job_mem_ok s" and "os_ok (s_os s)" and "os_errno (s_os s) \<noteq> 0"
    and "0 < nbworkers s" and "workers_granted (s_os s) (nat (nbworkers s))"
    and "fly_sched_init s = Some (err, s')" and "\<not> FLY_SUCCEEDED err"
  shows "fly_sched_uninit s' = None"
proof -
  have f: "workers s' = []" "nbworkers s' = nbworkers s" "sched_thread s' \<notin> os_blocks (s_os s')"
    using sched_init_run [OF assms(1-5) _ assms(7)] assms(6,8,9) by auto
  have "[0..<nat (nbworkers s)] \<noteq> []" using assms(6) by simp
  then have "workers_uninit_loop x err [0..<nat (nbworkers s)] = None" if "workers x = []" for x err
    using that by (cases "[0..<nat (nbworkers s)]") simp_all
  then have w: "fly_sched_workers_uninit x (nbworkers s) = None" if "workers x = []" for x
    using that by (simp add: fly_sched_workers_uninit_def)
  show ?thesis
    using f(1,3) w by (simp add: fly_sched_uninit_def fly_sched_thread_uninit_def f(2))
qed

definition broke_os :: os where
  "broke_os = lucky_os\<lparr>os_answer := \<lambda>n. n \<noteq> 1 \<and> n \<noteq> 0\<rparr>"

theorem uninit_after_failed_init_undefined_witness:
  "\<exists>err s'. fly_sched_init (fresh_sched broke_os) = Some (err, s') \<and> \<not> FLY_SUCCEEDED err \<and> fly_sched_uninit s' = None"
proof -
  have os: "os_ok broke_os" "os_errno broke_os \<noteq> 0" "workers_granted broke_os (nat 2)"
    by (auto simp: os_ok_def broke_os_def lucky_os_def workers_granted_def starts_granted_def)
  obtain s' where s': "fly_sched_init (fresh_sched broke_os) = Some (fly_err FLYENORES, s')"
    by (simp add: fly_sched_init_def Let_def init_locks_run fly_sched_init_lists_def fly_sched_workers_init_def
        fresh_sched_def small_sched_def broke_os_def lucky_os_def os_malloc_def os_ask_def set_lock.simps list_init_nodes)
  have "\<not> FLY_SUCCEEDED (fly_err FLYENORES)" by simp
  from uninit_after_failed_init_undefined [OF fresh_sched_ok(1-3) [of broke_os] _ _ _ _ s' this] os
  have "fly_sched_uninit s' = None" unfolding fresh_sched_ok by simp
  with s' show ?thesis by (intro exI [of _ "fly_err FLYENORES"] exI [of _ s']) simp
qed

text \<open>
  C37. If the operating system does not grant the first worker its first thread,
  \<^verbatim>\<open>fly_sched_init\<close> is undefined: the worker is taken down by joining threads that were never
  created.
\<close>

theorem refused_thread_undefined:
  assumes "os_ok (s_os s)" and "os_errno (s_os s) \<noteq> 0" and "0 < nbworkers s"
    and "\<forall>i \<le> 6. os_answer (s_os s) (os_calls (s_os s) + i)"
    and "\<not> os_answer (s_os s) (os_calls (s_os s) + 7)"
  shows "fly_sched_init s = None"
proof -
  let ?o = "s_os s" and ?n = "os_calls (s_os s)"
  let ?o1 = "?o\<lparr>os_calls := Suc ?n, os_blocks := insert (Suc ?n) (os_blocks ?o)\<rparr>"
  have a: "os_answer ?o ?n" "os_answer ?o (Suc ?n)" "os_answer ?o (Suc (Suc ?n))" "os_answer ?o (Suc (Suc (Suc ?n)))"
    "os_answer ?o (Suc (Suc (Suc (Suc ?n))))" "os_answer ?o (Suc (Suc (Suc (Suc (Suc ?n)))))"
    "os_answer ?o (Suc (Suc (Suc (Suc (Suc (Suc ?n))))))" "\<not> os_answer ?o (Suc (Suc (Suc (Suc (Suc (Suc (Suc ?n)))))))"
    using assms(4) [rule_format, of 0] assms(4) [rule_format, of 1] assms(4) [rule_format, of 2]
      assms(4) [rule_format, of 3] assms(4) [rule_format, of 4] assms(4) [rule_format, of 5]
      assms(4) [rule_format, of 6] assms(5)
    by (simp_all add: eval_nat_numeral)
  have loop: "workers_init_loop x e (i # is) = None" if "s_os x = ?o1" for x e i "is"
    using a assms(2) that by (simp add: Let_def fly_worker_init_def fly_worker_thread_init_def fly_thread_init_def os_malloc_def
        os_ask_def fly_sem_init_def zero_worker_def zero_worker_thread_def fly_worker_start_def
        fly_worker_thread_start_def fly_thread_start_def fly_worker_uninit_def fly_worker_wait_def
        fly_worker_thread_wait_def fly_thread_wait_def fly_worker_request_exit_def fly_worker_thread_request_exit_def
        fly_sem_post_def)
  have idx: "[0..<nat (nbworkers s)] = 0 # [1..<nat (nbworkers s)]" using assms(3) by (simp add: upt_conv_Cons)
  have "fly_sched_workers_init x = None" if "s_os x = ?o" "nbworkers x = nbworkers s" for x
    using that assms(3) a(1) loop idx
    by (simp add: fly_sched_workers_init_def os_malloc_def os_ask_def Let_def del: workers_init_loop.simps)
  moreover obtain s1 where s1: "fly_sched_init_locks (s\<lparr>initialized := 0, sched_thread := NULL\<rparr>) = (0, s1)"
    "s_os s1 = ?o" "nbworkers s1 = nbworkers s" by (simp add: init_locks_run set_lock.simps)
  moreover have "s_os (fly_sched_init_lists s1) = ?o" "nbworkers (fly_sched_init_lists s1) = nbworkers s"
    using s1(2,3) by (simp_all add: fly_sched_init_lists_def Let_def list_init_nodes)
  ultimately show ?thesis by (simp add: fly_sched_init_def Let_def)
qed

theorem refused_thread_undefined_witness: "fly_sched_init (fresh_sched unlucky_os) = None"
proof -
  have "os_ok unlucky_os" "os_errno unlucky_os \<noteq> 0" "\<forall>i \<le> 6. os_answer unlucky_os (os_calls unlucky_os + i)"
    "\<not> os_answer unlucky_os (os_calls unlucky_os + 7)"
    by (auto simp: os_ok_def unlucky_os_def lucky_os_def)
  then show ?thesis
    using refused_thread_undefined [of "fresh_sched unlucky_os"] unfolding fresh_sched_ok by simp
qed

text \<open>
  C36. The scheduler's own thread starts and stops cleanly under every interleaving.  While the
  starter waits for \<^verbatim>\<open>FLY_SCHED_THREAD_RUNNING\<close>, either it is there or the thread's next step
  stores it; once the thread is asked to stop it is never without a step, and each of its steps
  brings it closer to its return: the store of the state cannot be lost, unlike that of a worker
  thread.
\<close>

theorem sched_thread_stops:
  assumes "reach (\<lambda>s. s = sched_thread_start) sched_thread_step s"
  shows "if ss_ctl s = SWaitRunning \<and> ss_threadstate s \<noteq> FLY_SCHED_THREAD_RUNNING
    then sched_thread_step s (s\<lparr>ss_threadstate := FLY_SCHED_THREAD_RUNNING, ss_pc := STest\<rparr>)
    else if ss_ctl s = SJoining \<and> ss_pc s \<noteq> SReturned
    then (\<exists>t. sched_thread_moves s t) \<and>
      {t. sched_thread_moves s t} \<subseteq> {t. stop_rank (ss_pc t) < stop_rank (ss_pc s)}
    else True"
proof -
  have inv: "handshake_inv s" using assms by (rule handshake.reach_inv)
  show ?thesis using waiting_progress [OF inv] stopping_progress [OF inv] by auto
qed

theorem sched_thread_stops_witness:
  "\<exists>t. sched_thread_moves \<lparr>ss_threadstate = FLY_SCHED_THREAD_STOPPING, ss_pc = SUpdate, ss_ctl = SJoining\<rparr> t"
proof -
  have "reach (\<lambda>s. s = sched_thread_start) sched_thread_step sched_thread_start" by (rule reach_init) simp
  from reach_step [OF this set_idle] have
    "reach (\<lambda>s. s = sched_thread_start) sched_thread_step (sched_thread_start\<lparr>ss_ctl := SIdleSet\<rparr>)"
    by (simp add: sched_thread_start_def)
  from reach_step [OF this start] have
    "reach (\<lambda>s. s = sched_thread_start) sched_thread_step (sched_thread_start\<lparr>ss_ctl := SWaitRunning, ss_pc := SBegin\<rparr>)"
    by (simp add: sched_thread_start_def)
  from reach_step [OF this begin_run] have
    "reach (\<lambda>s. s = sched_thread_start) sched_thread_step
      \<lparr>ss_threadstate = FLY_SCHED_THREAD_RUNNING, ss_pc = STest, ss_ctl = SWaitRunning\<rparr>"
    by (simp add: sched_thread_start_def)
  from reach_step [OF reach_step [OF this seen_running] loop] have
    "reach (\<lambda>s. s = sched_thread_start) sched_thread_step
      \<lparr>ss_threadstate = FLY_SCHED_THREAD_RUNNING, ss_pc = SUpdate, ss_ctl = SUp\<rparr>" by simp
  from reach_step [OF this stop] have
    "reach (\<lambda>s. s = sched_thread_start) sched_thread_step
      \<lparr>ss_threadstate = FLY_SCHED_THREAD_STOPPING, ss_pc = SUpdate, ss_ctl = SJoining\<rparr>" by simp
  from sched_thread_stops [OF this] show ?thesis by simp
qed

text \<open>
  The interval of the scheduler's thread: \<^verbatim>\<open>FLY_SCHED_UPDATE_INTERVAL_US\<close> is handed to a
  function that takes nanoseconds, so the pause asked for is 1000 nanoseconds, a thousandth of the
  1000 microseconds of its name.
\<close>

definition FLY_SCHED_UPDATE_INTERVAL_US :: "32 word" where
  "FLY_SCHED_UPDATE_INTERVAL_US = 1000"

theorem update_interval_in_nanoseconds:
  "fly_thread_sleep FLY_SCHED_UPDATE_INTERVAL_US = (0, 1000) \<and>
   fly_thread_sleep (FLY_SCHED_UPDATE_INTERVAL_US * 1000) = (0, 1000000)"
  by (simp add: fly_thread_sleep_def FLY_SCHED_UPDATE_INTERVAL_US_def)

end

