(* ===== verification/Fly_Api.thy ===== *)
theory Fly_Api
  imports Fly_Init
begin

text \<open>
  \<^verbatim>\<open>src/fly.c\<close>: the functions that the client calls.

  \<open>self\<close> is the calling thread.  Where the caller waits, the other threads run: \<open>ts\<close> is the
  schedule of the turns (calls of \<^verbatim>\<open>fly_schedule\<close>) that worker threads take between the
  call's own work and the return of its wait.  \<open>None\<close> is a call that has no defined result, or
  one that does not return under that schedule.
\<close>

section \<open>Memory management and initialisation\<close>

text \<open>The values of the function pointers \<^verbatim>\<open>fly_malloc\<close> and \<^verbatim>\<open>fly_free\<close>.\<close>

datatype alloc_func = DefaultFunc | ClientFunc ptr

record fly_lib =
  lib_malloc :: alloc_func
  lib_free :: alloc_func
  lib_sched :: fly_sched

definition fly_set_malloc :: "fly_lib \<Rightarrow> alloc_func \<Rightarrow> fly_lib" where
  "fly_set_malloc l func = l\<lparr>lib_malloc := func\<rparr>"

definition fly_set_free :: "fly_lib \<Rightarrow> alloc_func \<Rightarrow> fly_lib" where
  "fly_set_free l func = l\<lparr>lib_free := func\<rparr>"

definition fly_simple_init :: "fly_lib \<Rightarrow> int \<Rightarrow> (int \<times> fly_lib) option" where
  "fly_simple_init l nb = do {
     let l = fly_set_malloc l DefaultFunc;
     let l = fly_set_free l DefaultFunc;
     let l = l\<lparr>lib_sched := fly_set_nbworkers (lib_sched l) nb\<rparr>;
     (err, s) \<leftarrow> fly_sched_init (lib_sched l);
     Some (err, l\<lparr>lib_sched := s\<rparr>)
   }"

definition fly_uninit :: "fly_lib \<Rightarrow> (int \<times> fly_lib) option" where
  "fly_uninit l = do {
     (err, s) \<leftarrow> fly_sched_uninit (lib_sched l);
     Some (err, l\<lparr>lib_sched := s\<rparr>)
   }"

section \<open>Adding a job and waiting for it\<close>

text \<open>The loop \<^verbatim>\<open>while (!fly_job_is_done(job)) fly_schedule_for_job(wthread, job)\<close>.\<close>

partial_function (option) recurse_loop :: "fly_sched \<Rightarrow> ptr \<Rightarrow> fly_sched option" where
  "recurse_loop s job = Option.bind (fly_job_is_done s job) (\<lambda>(d, s).
     if \<not> d then Option.bind (fly_schedule_for_job s job) (\<lambda>s. recurse_loop s job) else Some s)"

definition fly_add_job_and_wait ::
  "fly_sched \<Rightarrow> nat \<Rightarrow> ptr \<Rightarrow> bool \<Rightarrow> wref list \<Rightarrow> (int \<times> fly_sched) option" where
  "fly_add_job_and_wait s self job wait ts = do {
     wthread \<leftarrow> fly_sched_get_wthread s self;
     (err, s) \<leftarrow> (case wthread of
         Some w \<Rightarrow> do {
           j \<leftarrow> get_job s job;
           r \<leftarrow> c_add (j_recurse j) 1;
           fly_sched_add_job_from_worker (put_job s job (j\<lparr>j_recurse := r\<rparr>)) job w
         }
       | None \<Rightarrow> fly_sched_add_job s job);
     (if FLY_SUCCEEDED err \<and> wait then do {
        s \<leftarrow> turns s ts;
        j \<leftarrow> get_job s job;
        s \<leftarrow> (if j_recurse j > 0 then recurse_loop s job else Some s);
        fly_wait_job s job
      } else Some (err, s))
   }"

section \<open>Parallel loops\<close>

definition fly_parallel_for ::
  "fly_sched \<Rightarrow> nat \<Rightarrow> int \<Rightarrow> ptr \<Rightarrow> ptr \<Rightarrow> wref list \<Rightarrow> (int \<times> fly_sched) option" where
  "fly_parallel_for s self count func p ts =
     (case fly_create_job_pfor s count func p of (job, s) \<Rightarrow>
      if job \<noteq> NULL then do {
        (err, s) \<leftarrow> fly_add_job_and_wait s self job True ts;
        s \<leftarrow> fly_destroy_job s job;
        Some (err, s)
      } else Some (fly_err FLYENORES, s))"

definition fly_parallel_for_arr ::
  "fly_sched \<Rightarrow> nat \<Rightarrow> int \<Rightarrow> int \<Rightarrow> ptr \<Rightarrow> ptr \<Rightarrow> nat \<Rightarrow> wref list \<Rightarrow> (int \<times> fly_sched) option" where
  "fly_parallel_for_arr s self start end' func arr elsize ts = do {
     (job, s) \<leftarrow> fly_create_job_pfarr s start end' func arr elsize;
     (if job \<noteq> NULL then do {
        (err, s) \<leftarrow> fly_add_job_and_wait s self job True ts;
        s \<leftarrow> fly_destroy_job s job;
        Some (err, s)
      } else Some (fly_err FLYENORES, s))
   }"

section \<open>Tasks\<close>

text \<open>The fields are written whatever the allocation returned.\<close>

definition fly_create_task :: "fly_sched \<Rightarrow> ptr \<Rightarrow> ptr \<Rightarrow> (ptr \<times> fly_sched) option" where
  "fly_create_task s func param =
     (case fly_malloc s of (task, s) \<Rightarrow>
      if task = NULL then None
      else Some (task, put_task s task
        \<lparr>tk_func = func, tk_param = param, tk_result = None, tk_sched_data = NULL\<rparr>))"

definition fly_destroy_task :: "fly_sched \<Rightarrow> ptr \<Rightarrow> fly_sched option" where
  "fly_destroy_task s task =
     (if task = NULL then Some s
      else do { _ \<leftarrow> get_task s task; Some (s\<lparr>tasks := (tasks s)(task := None)\<rparr>) })"

definition fly_push_task :: "fly_sched \<Rightarrow> nat \<Rightarrow> ptr \<Rightarrow> (int \<times> fly_sched) option" where
  "fly_push_task s self task = do {
     (job, s) \<leftarrow> fly_create_job_task s task;
     (if job \<noteq> NULL then do {
        t \<leftarrow> get_task s task;
        (err, s) \<leftarrow> fly_add_job_and_wait (put_task s task (t\<lparr>tk_sched_data := job\<rparr>)) self job False [];
        s \<leftarrow> (if \<not> FLY_SUCCEEDED err then fly_destroy_job s job else Some s);
        Some (err, s)
      } else Some (fly_err FLYENORES, s))
   }"

definition fly_wait_task :: "fly_sched \<Rightarrow> ptr \<Rightarrow> wref list \<Rightarrow> (int \<times> fly_sched) option" where
  "fly_wait_task s task ts = do {
     t \<leftarrow> get_task s task;
     (if tk_sched_data t \<noteq> NULL then do {
        let job = tk_sched_data t;
        s \<leftarrow> turns s ts;
        (err, s) \<leftarrow> fly_wait_job s job;
        s \<leftarrow> (if FLY_SUCCEEDED err then fly_destroy_job s job else Some s);
        Some (err, s)
      } else Some (fly_err FLYEATTR, s))
   }"

text \<open>The tasks in order, each with the turns taken while it is waited for.\<close>

fun wait_tasks_loop :: "fly_sched \<Rightarrow> int \<Rightarrow> (ptr \<times> wref list) list \<Rightarrow> (int \<times> fly_sched) option" where
  "wait_tasks_loop s err [] = Some (err, s)"
| "wait_tasks_loop s err ((task, ts) # rest) = do {
     (tmp, s) \<leftarrow> fly_wait_task s task ts;
     wait_tasks_loop s (if \<not> FLY_SUCCEEDED tmp then tmp else err) rest
   }"

definition fly_wait_tasks :: "fly_sched \<Rightarrow> (ptr \<times> wref list) list \<Rightarrow> (int \<times> fly_sched) option" where
  "fly_wait_tasks s tks = wait_tasks_loop s (fly_err FLYESUCCESS) tks"

text \<open>\<open>None\<close>: the result has not been written.\<close>

definition fly_get_task_result :: "fly_sched \<Rightarrow> ptr \<Rightarrow> ptr option" where
  "fly_get_task_result s task = do { t \<leftarrow> get_task s task; tk_result t }"

section \<open>Creating and destroying jobs of the scheduler\<close>

lemma lists_free:
  assumes "lists_rep m E" and "E l = Some []"
  shows "lists_rep (m\<lparr>nodes := (nodes m)(l := None)\<rparr>) (E(l := None))"
proof -
  obtain F where F: "heap_lists m F" "E = (\<lambda>l. map_option (map snd) (F l))"
    using assms(1) unfolding lists_rep_def by blast
  then have "F l = Some []" using assms(2) by auto
  from heap_lists_free [OF F(1) this] show ?thesis
    by (rule lists_repI) (simp add: F(2))
qed

lemma destroy_job_sched:
  assumes "sched_rep s E R U D" and "E job = Some es" and "job_holds s job j es bs" and "not_queue s job"
  shows "\<exists>h. let s' = s\<lparr>nodes := h, batches := batches s |` (- set es), jobs := (jobs s)(job := None)\<rparr> in
    fly_destroy_job s job = Some s' \<and> sched_rep s' (E(job := None)) R U D"
proof -
  note d = sched_repD [OF assms(1)]
  have g: "get_job s job \<noteq> None" "job \<noteq> NULL" "distinct es" "NULL \<notin> set es" "map (batches s) es = map Some bs"
    using assms(3) by (auto simp: job_holds_def get_job_iff)
  obtain h where h: "job_drop_batches s job = Some (s\<lparr>nodes := h, batches := batches s |` (- set es)\<rparr>)"
    "lists_rep (s\<lparr>nodes := h\<rparr>) (E(job \<mapsto> []))"
    using drop_batches_alone [OF d(1) assms(2) d(3) g(1,3-5)] by blast
  let ?s = "s\<lparr>nodes := h(job := None), batches := batches s |` (- set es), jobs := (jobs s)(job := None)\<rparr>"
  have "fly_destroy_job s job = Some ?s"
    using h(1) g(1,2) by (auto simp: fly_destroy_job_def fly_free_job_def get_job_def)
  moreover have "lists_rep (s\<lparr>nodes := h(job := None)\<rparr>) (E(job := None))"
    using lists_free [OF h(2), of job] by simp
  then have L: "lists_rep ?s (E(job := None))" by (rule lists_rep_cong) simp_all
  moreover have "job_mem_ok ?s"
    using d(3) lists_rep_ok [OF L] by (simp add: job_mem_ok_def restrict_map_def)
  moreover have "locks_free ?s"
    using d(2) get_lock_fields [of ?s s] by (simp add: locks_free_def)
  ultimately have "fly_destroy_job s job = Some ?s \<and> sched_rep ?s (E(job := None)) R U D"
    using d(4-8) assms(4) unfolding sched_rep_def not_queue_def by simp
  then show ?thesis unfolding Let_def by blast
qed

text \<open>Destroying a job that was added to a heap leaves the heap as it was before.\<close>

lemma destroy_restores:
  assumes "sched_rep s' (E(job \<mapsto> es)) R U D" and "E job = None" and "job_holds s' job j es bs"
    and "not_queue s' job" and "\<forall>p. p \<noteq> job \<longrightarrow> jobs s' p = jobs s p" and "jobs s job = None"
    and "batches s' |` (- set es) = batches s"
  shows "\<exists>s2. fly_destroy_job s' job = Some s2 \<and> sched_rep s2 E R U D \<and> jobs s2 = jobs s \<and>
    batches s2 = batches s \<and> calls s2 = calls s' \<and> workers s2 = workers s' \<and> tasks s2 = tasks s' \<and> sched_frame s' s2"
proof -
  let ?s2 = "\<lambda>h. s'\<lparr>nodes := h, batches := batches s' |` (- set es), jobs := (jobs s')(job := None)\<rparr>"
  have e: "(E(job \<mapsto> es)) job = Some es" "(E(job \<mapsto> es))(job := None) = E" using assms(2) by auto
  obtain h where h: "fly_destroy_job s' job = Some (?s2 h)" "sched_rep (?s2 h) E R U D"
    using destroy_job_sched [OF assms(1) e(1) assms(3,4)] e(2) unfolding Let_def by auto
  have "jobs (?s2 h) = jobs s" using assms(5,6) by (intro ext) simp
  moreover have "sched_frame s' (?s2 h)" by (rule sched_frameI) simp_all
  ultimately show ?thesis using h assms(7) by (intro exI [of _ "?s2 h"]) simp
qed

text \<open>A freshly allocated job record with its empty list of batches.\<close>

definition with_job :: "fly_sched \<Rightarrow> fly_job \<Rightarrow> fly_sched" where
  "with_job s j = s\<lparr>brk := Suc (brk s), jobs := (jobs s)(brk s \<mapsto> j),
     nodes := (nodes s)(brk s \<mapsto> \<lparr>l_next = NULL, l_prev = NULL, l_el = NULL\<rparr>)\<rparr>"

lemma with_job_rep:
  assumes "sched_rep s E R U D"
  shows "sched_rep (with_job s j) (E(brk s \<mapsto> [])) R U D" and "E (brk s) = None"
    and "not_queue (with_job s j) (brk s)" and "get_job (with_job s j) (brk s) = Some j"
    and "jobs s (brk s) = None"
proof -
  note d = sched_repD [OF assms]
  have brk: "0 < brk s" "nodes s (brk s) = None" "jobs s (brk s) = None"
    using d(3) by (auto simp: job_mem_ok_def node_mem_ok_def domIff)
  let ?m = "s\<lparr>brk := Suc (brk s), jobs := (jobs s)(brk s \<mapsto> j)\<rparr>"
  have low: "E l = Some xs \<Longrightarrow> l < brk s" for l xs using lists_rep_dom [OF d(1)] by blast
  show "E (brk s) = None" using low [of "brk s"] by (cases "E (brk s)") auto
  have q: "ready_jobs s < brk s" "running_jobs s < brk s" "done_jobs s < brk s" using low d(4-6) by blast+
  show nq: "not_queue (with_job s j) (brk s)" using q by (simp add: not_queue_def with_job_def)
  show "get_job (with_job s j) (brk s) = Some j" using brk(1) by (simp add: get_job_def with_job_def)
  show "jobs s (brk s) = None" by (rule brk(3))
  obtain F where F: "heap_lists s F" "E = (\<lambda>l. map_option (map snd) (F l))"
    using d(1) unfolding lists_rep_def by blast
  from heap_lists_brk [OF F(1)] have "heap_lists ?m F" by (rule heap_lists_cong) simp_all
  then have "lists_rep ?m E" using F(2) by (auto intro: lists_repI)
  from lists_init [OF this, of "brk s"] brk(1,2) have "lists_rep (fly_list_init ?m (brk s)) (E(brk s \<mapsto> []))" by simp
  then have L: "lists_rep (with_job s j) (E(brk s \<mapsto> []))" by (simp add: with_job_def list_init_nodes)
  have "job_mem_ok (with_job s j)"
    using d(3) lists_rep_ok [OF L] by (auto simp: job_mem_ok_def with_job_def)
  moreover have "locks_free (with_job s j)"
    using d(2) get_lock_fields [of "with_job s j" s] by (simp add: locks_free_def with_job_def)
  ultimately show "sched_rep (with_job s j) (E(brk s \<mapsto> [])) R U D"
    using L d(4-8) q unfolding sched_rep_def by (simp add: with_job_def)
qed

lemma create_pfor_sched:
  assumes "0 < brk s" and "malloc_ok s (brk s)" and "sem_ok s (brk s)"
  shows "fly_create_job_pfor s count f p = (brk s, with_job s (pfor_job count f p))"
  using assms by (simp add: fly_create_job_pfor_def fly_malloc_def with_job_def pfor_job_def list_init_nodes put_job_def)

text \<open>The record that \<^verbatim>\<open>fly_create_job_pfarr\<close> makes.\<close>

definition pfarr_job :: "int \<Rightarrow> int \<Rightarrow> ptr \<Rightarrow> ptr \<Rightarrow> nat \<Rightarrow> fly_job" where
  "pfarr_job start end' func data elsize = \<lparr>j_nbbatches = 0, j_batches_done = 0, j_func = PFor func, j_data = data,
     j_elsize = Some elsize, j_start = Some start, j_end = Some end', j_jtype = FLY_TASK_PARALLEL_FOR_ARR,
     j_recurse = 0, j_state = FLY_JOB_IDLE, j_sem = 0\<rparr>"

lemma create_pfarr_sched:
  assumes "0 < brk s" and "malloc_ok s (brk s)" and "sem_ok s (brk s)" and "c_ok (e - b)" and "b < e"
  shows "fly_create_job_pfarr s b e f arr el = Some (brk s, with_job s (pfarr_job b e f arr el))"
  using assms
  by (simp add: fly_create_job_pfarr_def fly_malloc_def with_job_def pfarr_job_def list_init_nodes put_job_def c_sub_def)

lemma wthread_none:
  assumes "nbworkers s = int (length (workers s))"
    and "\<forall>w \<in> set (workers s). fly_worker_get_curr_thread self w = None"
  shows "fly_sched_get_wthread s self = Some None"
proof -
  have "wthread_loop s self is = Some None" if "set is \<subseteq> {..<length (workers s)}" for "is"
    using that assms(2) by (induction "is") auto
  then show ?thesis using assms(1) by (simp add: fly_sched_get_wthread_def subset_eq)
qed

section \<open>A parallel loop of the client\<close>

definition client_thread :: "fly_sched \<Rightarrow> nat \<Rightarrow> bool" where
  "client_thread s self \<longleftrightarrow> (\<forall>w \<in> set (workers s). fly_worker_get_curr_thread self w = None)"

lemma sched_frame_with_job: "sched_frame s (with_job s j)"
  by (rule sched_frameI) (simp_all add: with_job_def)

lemma job_run_and_destroyed:
  assumes "sched_rep s E [] [] D" and "client_thread s self"
    and "is_pfor_type (j_jtype j)" and "pfor_ok j f" and "j_start j = Some js" and "j_end j = Some je"
    and "batch_range_ok js je (nbworkers s)" and "j_batches_done j = 0" and "j_sem j = 0" and "j_recurse j = 0"
    and "\<forall>p. malloc_ok s p" and "int (length ts) = nbworkers s" and "\<forall>t \<in> set ts. get_wt s t \<noteq> None"
    and "brk s \<notin> set D"
  shows "\<exists>s1 s2. fly_add_job_and_wait (with_job s j) self (brk s) True ts = Some (0, s1) \<and>
    fly_destroy_job s1 (brk s) = Some s2 \<and> sched_rep s2 E [] [] D \<and> jobs s2 = jobs s \<and> batches s2 = batches s \<and> sched_frame s s2 \<and>
    calls s2 = calls s @ map (pfor_call j f) [js..js + max (je - js) (nbworkers s) - 1]"
proof -
  let ?s = "with_job s j" and ?job = "brk s"
  note w = with_job_rep(1) [OF assms(1), of j] with_job_rep(2) [OF assms(1)] with_job_rep(3,4) [OF assms(1), of j]
    with_job_rep(5) [OF assms(1)]
  have f: "nbworkers ?s = nbworkers s" "workers ?s = workers s" "malloc_ok ?s = malloc_ok s" "calls ?s = calls s"
    "batches ?s = batches s" by (simp_all add: with_job_def)
  have a: "addable ?s (E(?job \<mapsto> [])) ?job j js je"
    using w(3,4) assms(3,5-7) f(1) by (simp add: addable_def)
  have t: "\<forall>t \<in> set ts. get_wt ?s t \<noteq> None" using assms(13) get_wt_cong [OF f(2)] by simp
  obtain s1 s2 s3 es bs where r: "fly_sched_add_job ?s ?job = Some (0, s1)" "turns s1 ts = Some s2"
    "fly_wait_job s2 ?job = Some (0, s3)" "map_option j_recurse (get_job s2 ?job) = Some (j_recurse j)" "sched_rep s3 ((E(?job \<mapsto> []))(?job \<mapsto> es)) [] [] D"
    "\<forall>p. p \<noteq> ?job \<longrightarrow> jobs s3 p = jobs ?s p" "batches s3 |` (- set es) = batches ?s"
    "job_holds s3 ?job (j\<lparr>j_nbbatches := nbworkers ?s, j_batches_done := nbworkers ?s, j_state := FLY_JOB_DONE\<rparr>) es bs"
    "calls s3 = calls ?s @ map (pfor_call j f) [js..js + max (je - js) (nbworkers ?s) - 1]"
    "sched_frame ?s s3"
    using pfor_whole_run [OF w(1) a assms(4,8,9) _ assms(14) _ t] assms(11,12) unfolding f by blast
  have "client_thread ?s self" using assms(2) by (simp add: client_thread_def f)
  then have "fly_sched_get_wthread ?s self = Some None"
    using wthread_none [OF sched_repD(8) [OF w(1)]] by (simp add: client_thread_def)
  moreover obtain j2 where "get_job s2 ?job = Some j2" "j_recurse j2 = 0" using r(4) assms(10) by auto
  ultimately have run: "fly_add_job_and_wait ?s self ?job True ts = Some (0, s3)"
    using r(1-3) by (simp add: fly_add_job_and_wait_def)
  have n3: "not_queue s3 ?job" using w(3) sched_frame_simps [OF r(10)] by (simp add: not_queue_def)
  have "sched_rep s3 (E(?job \<mapsto> es)) [] [] D" using r(5) by simp
  moreover have "\<forall>p. p \<noteq> ?job \<longrightarrow> jobs s3 p = jobs s p" using r(6) by (simp add: with_job_def)
  moreover have "batches s3 |` (- set es) = batches s" using r(7) f(5) by simp
  ultimately obtain s4 where "fly_destroy_job s3 ?job = Some s4" "sched_rep s4 E [] [] D" "jobs s4 = jobs s"
    "batches s4 = batches s" "calls s4 = calls s3" "sched_frame s3 s4"
    using destroy_restores [where E = E and s = s, OF _ w(2) r(8) n3 _ w(5)] by blast
  moreover from this have "sched_frame s s4"
    by (intro sched_frame_trans [OF sched_frame_trans [OF sched_frame_with_job r(10)]])
  ultimately show ?thesis using run r(9) f(1,4) by (intro exI [of _ s3] exI [of _ s4]) simp
qed

section \<open>A parallel loop inside a worker thread\<close>

text \<open>The caller runs the batches that are left, then finishes the job.\<close>

lemma recurse_loop_run:
  assumes "sched_rep s E R U D" and "E job = Some es" and "job_holds s job j es bs"
    and "pfor_ok j f" and "\<forall>b \<in> set bs. batch_ok b" and "length (unclaimed es bs) = Suc n"
    and "j_nbbatches j = j_batches_done j + 1 + int n" and "c_ok (j_batches_done j)" and "c_ok (j_nbbatches j)"
  shows "\<exists>s1 bs'. recurse_loop s job = finish_if_done s1 job \<and> exec_frame s s1 \<and>
    sched_rep s1 E R U D \<and> job_holds s1 job (j\<lparr>j_batches_done := j_nbbatches j\<rparr>) es bs' \<and>
    calls s1 = calls s @ concat (map (batch_calls j f) (todo bs)) \<and> keeps job es s s1"
  using assms
proof (induction n arbitrary: s j bs)
  case 0
  then obtain e where e: "unclaimed es bs = [e]" by (auto simp: length_Suc_conv)
  have ok: "c_ok (j_batches_done j + 1)" using 0(7,9) by simp
  have g: "get_job s job = Some j" using 0(3) by (simp add: job_holds_def)
  obtain s1 b bs1 where t: "fly_sched_exec_job s job = do { s \<leftarrow> finish_if_done s1 job; Some (0, s) }"
    "exec_frame s s1" "sched_rep s1 E R U D"
    "job_holds s1 job (j\<lparr>j_batches_done := j_batches_done j + 1\<rparr>) es bs1"
    "unclaimed es bs1 = []" "todo bs = b # todo bs1" "calls s1 = calls s @ batch_calls j f b" "keeps job es s s1"
    using exec_step [OF 0(1-5) e ok] by blast
  have g1: "get_job s1 job = Some (j\<lparr>j_batches_done := j_nbbatches j\<rparr>)" "job \<noteq> NULL"
    using t(4) 0(7) by (simp_all add: job_holds_def get_job_iff)
  have "length es = length bs1" using t(4) by (auto simp: job_holds_def dest: map_eq_imp_length_eq)
  then have none: "todo bs1 = []" using unclaimed_none t(5) unfolding todo_def by blast
  obtain s2 where s2: "finish_if_done s1 job = Some s2"
    "jobs s2 = (jobs s1)(job \<mapsto> j\<lparr>j_batches_done := j_nbbatches j, j_state := FLY_JOB_DONE, j_sem := Suc (j_sem j)\<rparr>)"
    using finish_done [OF t(3) g1(1)] by auto
  have "recurse_loop s2 job = Some s2"
    using is_done_run [of s2 job] s2(2) g1(2) by (subst recurse_loop.simps) (simp add: get_job_def)
  then have "recurse_loop s job = finish_if_done s1 job"
    using is_done_run [OF g] 0(7) t(1) s2(1) by (subst recurse_loop.simps) (simp add: fly_schedule_for_job_def)
  then show ?case
    using t(2-8) 0(7) none by (intro exI [of _ s1] exI [of _ bs1]) simp
next
  case (Suc n)
  then obtain e rest where e: "unclaimed es bs = e # rest" "length rest = Suc n" by (auto simp: length_Suc_conv)
  have ok: "c_ok (j_batches_done j + 1)"
    using Suc.prems(7-9) unfolding c_ok_iff by linarith
  let ?j = "j\<lparr>j_batches_done := j_batches_done j + 1\<rparr>"
  have g0: "get_job s job = Some j" using Suc.prems(3) by (simp add: job_holds_def)
  obtain s1 b bs1 where t: "fly_sched_exec_job s job = do { s \<leftarrow> finish_if_done s1 job; Some (0, s) }"
    "exec_frame s s1" "sched_rep s1 E R U D" "\<forall>b \<in> set bs1. batch_ok b" "job_holds s1 job ?j es bs1"
    "unclaimed es bs1 = rest" "todo bs = b # todo bs1" "calls s1 = calls s @ batch_calls j f b" "keeps job es s s1"
    using exec_step [OF Suc.prems(1-5) e(1) ok] by blast
  have g: "get_job s1 job = Some ?j" using t(5) by (simp add: job_holds_def)
  have "finish_if_done s1 job = Some s1"
    using finish_not_done [OF g] Suc.prems(7) by simp
  then have run: "recurse_loop s job = recurse_loop s1 job"
    using is_done_run [OF g0] Suc.prems(7) t(1) by (subst recurse_loop.simps) (simp add: fly_schedule_for_job_def)
  obtain s2 bs' where r: "recurse_loop s1 job = finish_if_done s2 job" "exec_frame s1 s2"
    "sched_rep s2 E R U D" "job_holds s2 job (?j\<lparr>j_batches_done := j_nbbatches ?j\<rparr>) es bs'"
    "calls s2 = calls s1 @ concat (map (batch_calls ?j f) (todo bs1))" "keeps job es s1 s2"
    using Suc.IH [OF t(3) Suc.prems(2) t(5)] Suc.prems(4,7,9) t(4,6) e(2) ok by auto
  from run r t(7,8) exec_frame_trans [OF t(2) r(2)] keeps_trans [OF t(9) r(6)] show ?case
    by (intro exI [of _ s2] exI [of _ bs']) simp
qed

lemma add_from_worker_run:
  assumes "sched_rep s E R U D" and "addable s E job j js je" and "get_wt s w \<noteq> None"
  shows "\<exists>err s'. fly_sched_add_job_from_worker s job w = Some (err, s') \<and> sched_frame s s' \<and> calls s' = calls s \<and>
    (\<forall>p. p \<noteq> job \<longrightarrow> jobs s' p = jobs s p) \<and>
    (if FLY_SUCCEEDED err
     then \<exists>es U'. (U' = U @ [job] \<or> U' = U) \<and> batches s' |` (- set es) = batches s \<and>
       sched_rep s' (E(job \<mapsto> es, running_jobs s \<mapsto> U')) R U' D \<and>
       job_holds s' job ((ready_job j (nbworkers s))\<lparr>j_state := FLY_JOB_RUNNING\<rparr>) es
         (batch_plan job js (je - js) (nbworkers s))
     else err = fly_err FLYENORES \<and> sched_rep s' E R U D \<and> batches s' = batches s \<and> get_job s' job \<noteq> None) \<and>
    ((\<forall>p. malloc_ok s p) \<longrightarrow> err = 0)"
proof -
  let ?plan = "batch_plan job js (je - js) (nbworkers s)" and ?r = "ready_job j (nbworkers s)"
  let ?j = "?r\<lparr>j_state := FLY_JOB_RUNNING\<rparr>"
  have a: "E job = Some []" "get_job s job = Some j" "is_pfor_type (j_jtype j)" "not_queue s job"
    using assms(2) by (simp_all add: addable_def)
  obtain err s1 where m: "fly_make_batches s job (nbworkers s) = Some (err, s1)" "heap_step s s1"
    "\<forall>p. p \<noteq> job \<longrightarrow> jobs s1 p = jobs s p"
    "if FLY_SUCCEEDED err
     then \<exists>es. sched_rep s1 (E(job \<mapsto> es)) R U D \<and> batches s1 |` (- set es) = batches s \<and> job_holds s1 job ?r es ?plan
     else err = fly_err FLYENORES \<and> sched_rep s1 E R U D \<and> batches s1 = batches s \<and>
       get_job s1 job = Some (j\<lparr>j_state := FLY_JOB_IDLE\<rparr>)"
    "(\<forall>p. malloc_ok s p) \<longrightarrow> err = fly_err FLYESUCCESS"
    using make_batches_sched [OF assms(1,2) refl] by blast
  note hs = heap_step_simps [OF m(2)]
  have f1: "sched_frame s s1" by (rule heap_step_frame [OF m(2)])
  show ?thesis
  proof (cases "err = 0")
    case False
    then have e: "err = fly_err FLYENORES" "sched_rep s1 E R U D" "batches s1 = batches s"
      "get_job s1 job = Some (j\<lparr>j_state := FLY_JOB_IDLE\<rparr>)" using m(4) by simp_all
    note d = sched_repD [OF e(2)]
    have job: "job \<noteq> NULL" "get_job s1 job \<noteq> None" using e(4) by (simp_all add: get_job_iff)
    obtain h where h: "job_drop_batches s1 job = Some (s1\<lparr>nodes := h, batches := batches s1 |` (- set [])\<rparr>)"
      "lists_rep (s1\<lparr>nodes := h\<rparr>) (E(job \<mapsto> []))"
      using drop_batches_alone [OF d(1) a(1) d(3) job(2), of "[]"] by auto
    let ?s = "s1\<lparr>nodes := h, batches := batches s1 |` (- set [])\<rparr>"
    have "E(job \<mapsto> []) = E" using a(1) by auto
    then have L: "lists_rep ?s E" using h(2) by (auto elim: lists_rep_cong)
    have b: "batches ?s = batches s" using e(3) by (simp add: restrict_map_def)
    have "job_mem_ok ?s" using d(3) lists_rep_ok [OF L] by (simp add: job_mem_ok_def restrict_map_def)
    then have "sched_rep ?s E R U D" using L d(2,4-8) by (simp add: sched_rep_def)
    moreover have "fly_sched_add_job_from_worker s job w = Some (err, ?s)"
      using a(2,3) m(1) False h(1) job(1) by (simp add: fly_sched_add_job_from_worker_def fly_destroy_batches_def)
    moreover have "sched_frame s ?s" by (rule sched_frame_trans [OF f1 heap_step_frame [OF heap_step_nodes(4)]])
    moreover have "get_job ?s job \<noteq> None" using e(4) by (simp add: get_job_iff)
    ultimately show ?thesis
      using e(1) b m(3,5) False hs(2) by (intro exI [of _ err] exI [of _ ?s]) simp
  next
    case True
    then obtain es where r: "sched_rep s1 (E(job \<mapsto> es)) R U D" "batches s1 |` (- set es) = batches s" "job_holds s1 job ?r es ?plan"
      using m(4) by auto
    have g1: "get_job s1 job = Some ?r" "job \<noteq> NULL" using r(3) by (simp_all add: job_holds_def get_job_iff)
    let ?s2 = "\<lambda>h. (put_job (touch s1 w) job ?j)\<lparr>brk := Suc (brk s1), nodes := h\<rparr>"
    let ?U = "if malloc_ok s1 (brk s1) then U @ [job] else U"
    obtain h where h: "fly_sched_move_to_running s1 job w = Some (?s2 h)"
      "sched_rep (?s2 h) (E(job \<mapsto> es, running_jobs s \<mapsto> ?U)) R ?U D"
      using move_to_running_run [OF r(1) get_wt_frame [OF f1 assms(3)] g1(1)] hs(7) by (auto simp: Let_def)
    have f2: "sched_frame s1 (?s2 h)"
      by (rule sched_frame_trans [OF sched_frame_touch sched_frame_trans [OF heap_step_frame heap_step_frame]],
          rule heap_step_nodes(3), rule heap_step_nodes(2))
    then obtain wt where wt: "get_wt (?s2 h) w = Some wt"
      using get_wt_frame [OF sched_frame_trans [OF f1 f2] assms(3)] by blast
    let ?s3 = "(?s2 h)\<lparr>workers := notified (?s2 h) (Some (wt_parent wt))\<rparr>"
    have n: "notify_workers (?s2 h) (Some (wt_parent wt)) = Some ?s3"
      by (rule notify_workers_run) (use sched_repD(8) [OF h(2)] in simp)
    have "sched_rep ?s3 (E(job \<mapsto> es, running_jobs s \<mapsto> ?U)) R ?U D"
      using h(2) by (rule sched_rep_workers) simp
    moreover have "?U = U @ [job] \<or> ?U = U" by simp
    moreover have "sched_frame s ?s3"
      by (rule sched_frame_trans [OF sched_frame_trans [OF f1 f2] sched_frame_workers]) (simp add: notified_crew)
    moreover have "fly_sched_add_job_from_worker s job w = Some (0, ?s3)"
      using a m(1) True h(1) wt n by (simp add: fly_sched_add_job_from_worker_def)
    moreover have "job_holds ?s3 job ?j es ?plan"
      using r(3) g1(2) by (simp add: job_holds_def get_job_def put_job_def)
    moreover have "\<forall>p. p \<noteq> job \<longrightarrow> jobs ?s3 p = jobs s p" "batches ?s3 |` (- set es) = batches s" "calls ?s3 = calls s"
      using m(3) r(2) hs(2) by (simp_all add: put_job_def)
    ultimately show ?thesis
      unfolding FLY_SUCCEEDED_0 by (intro exI [of _ 0] exI [of _ ?s3]) (simp; blast)
  qed
qed

lemma wthread_some:
  assumes "wthread_loop s self is = Some (Some w)"
  shows "get_wt s w \<noteq> None"
  using assms
  by (induction "is") (auto simp: get_wt_def split: if_splits option.splits)

lemma get_wthread_cong:
  assumes "workers s' = workers s" and "nbworkers s' = nbworkers s"
  shows "fly_sched_get_wthread s' self = fly_sched_get_wthread s self"
proof -
  have "wthread_loop s' self is = wthread_loop s self is" for "is"
    by (induction "is") (simp_all add: assms(1) split: option.splits)
  with assms(2) show ?thesis by (simp add: fly_sched_get_wthread_def)
qed

lemma with_job_put: "put_job (with_job s j) (brk s) j' = with_job s j'"
  by (simp add: put_job_def with_job_def)

lemma with_job_simps [simp]:
  "nbworkers (with_job s j) = nbworkers s" "workers (with_job s j) = workers s"
  "malloc_ok (with_job s j) = malloc_ok s" "calls (with_job s j) = calls s" "tasks (with_job s j) = tasks s"
  "batches (with_job s j) = batches s" "running_jobs (with_job s j) = running_jobs s"
  "task_fun (with_job s j) = task_fun s"
  by (simp_all add: with_job_def)

text \<open>
  Once the job is split the caller needs no memory: if the job's entry in the running queue cannot be
  made, no other worker sees the job, and the caller runs all of its batches.
\<close>

lemma nested_added:
  assumes "sched_rep s E R U' D" and "E job = Some es" and "job_holds s job j es (batch_plan job js (je - js) nb)"
    and "pfor_ok j f" and "batch_range_ok js je nb" and "j_batches_done j = 0" and "j_nbbatches j = nb" and "j_sem j = 0"
    and "not_queue s job" and "job \<notin> set D" and "remove1 job U' = U"
  shows "\<exists>s1 s2 j' bs. recurse_loop s job = Some s1 \<and> fly_wait_job s1 job = Some (0, s2) \<and> sched_frame s s2 \<and>
    sched_rep s2 (E(running_jobs s \<mapsto> U)) R U D \<and> keeps job es s s2 \<and> job_holds s2 job j' es bs \<and>
    calls s2 = calls s @ map (pfor_call j f) [js..js + max (je - js) nb - 1]"
proof -
  let ?plan = "batch_plan job js (je - js) nb"
  have nb: "0 < nb" "c_ok nb" "0 \<le> je - js" using assms(5) by (simp_all add: batch_range_ok_def)
  have "length es = length ?plan" using assms(3) by (auto simp: job_holds_def dest: map_eq_imp_length_eq)
  then have un: "length (unclaimed es ?plan) = Suc (nat (nb - 1))"
    using plan_unclaimed [OF nb(1)] plan_length [OF nb(1)] nb(1) by simp
  have cnt: "j_nbbatches j = j_batches_done j + 1 + int (nat (nb - 1))" "c_ok (j_batches_done j)" "c_ok (j_nbbatches j)"
    using assms(6,7) nb by (simp_all add: c_ok_iff)
  obtain s1 bs where s1: "recurse_loop s job = finish_if_done s1 job" "exec_frame s s1" "sched_rep s1 E R U' D"
    "job_holds s1 job (j\<lparr>j_batches_done := j_nbbatches j\<rparr>) es bs"
    "calls s1 = calls s @ concat (map (batch_calls j f) (todo ?plan))" "keeps job es s s1"
    using recurse_loop_run [OF assms(1-4) plan_batch_ok [OF assms(5)] un cnt] by blast
  have f1: "sched_frame s s1" by (rule exec_frame_frame [OF s1(2)])
  note f = sched_frame_simps [OF f1]
  have "not_queue s1 job" using f assms(9) by (simp add: not_queue_def)
  from finish_and_wait [OF s1(3) assms(2) s1(4) this _ _ assms(10,11)] assms(8)
  obtain s2 s3 where s3: "finish_if_done s1 job = Some s2" "fly_wait_job s2 job = Some (0, s3)" "sched_frame s1 s3"
    "sched_rep s3 (E(running_jobs s1 \<mapsto> U)) R U D" "calls s3 = calls s1" "keeps job es s1 s3"
    "job_holds s3 job (j\<lparr>j_batches_done := j_nbbatches j, j_state := FLY_JOB_DONE\<rparr>) es bs" by auto
  have "calls s3 = calls s @ map (pfor_call j f) [js..js + max (je - js) nb - 1]"
    unfolding s3(5) s1(5) batch_calls_plan plan_todo [OF nb(1)] plan_covers [OF nb(1,3)] by (rule refl)
  with s1(1) s3(1,2,4,7) f(2) sched_frame_trans [OF f1 s3(3)] keeps_trans [OF s1(6) s3(6)] show ?thesis
    by (intro exI [of _ s2] exI [of _ s3] exI [of _ "j\<lparr>j_batches_done := j_nbbatches j, j_state := FLY_JOB_DONE\<rparr>"]
        exI [of _ bs]) simp
qed

lemma nested_run:
  assumes "sched_rep s E R U D" and "fly_sched_get_wthread s self = Some (Some w)"
    and "pfor_ok j f" and "j_start j = Some js" and "j_end j = Some je"
    and "batch_range_ok js je (nbworkers s)" and "j_batches_done j = 0" and "j_sem j = 0" and "j_recurse j = 0"
    and "brk s \<notin> set U" and "brk s \<notin> set D"
  shows "\<exists>err s1 s2. fly_add_job_and_wait (with_job s j) self (brk s) True [] = Some (err, s1) \<and>
    fly_destroy_job s1 (brk s) = Some s2 \<and> sched_rep s2 E R U D \<and> jobs s2 = jobs s \<and> batches s2 = batches s \<and>
    (err = 0 \<and> calls s2 = calls s @ map (pfor_call j f) [js..js + max (je - js) (nbworkers s) - 1] \<or>
     err = fly_err FLYENORES \<and> calls s2 = calls s) \<and>
    ((\<forall>p. malloc_ok s p) \<longrightarrow> err = 0)"
proof -
  let ?k = "j\<lparr>j_recurse := 1\<rparr>" and ?nb = "nbworkers s" and ?job = "brk s"
  let ?s = "with_job s ?k" and ?plan = "batch_plan (brk s) js (je - js) (nbworkers s)"
  let ?c = "map (pfor_call j f) [js..js + max (je - js) (nbworkers s) - 1]"
  note w = with_job_rep(1) [OF assms(1), of ?k] with_job_rep(2) [OF assms(1)]
    with_job_rep(3,4) [OF assms(1), of ?k] with_job_rep(5) [OF assms(1)]
  have a: "addable ?s (E(?job \<mapsto> [])) ?job ?k js je"
    using w(3,4) assms(3-6) by (simp add: addable_def pfor_ok_def)
  have t: "get_wt ?s w \<noteq> None"
    using wthread_some assms(2) get_wt_cong [of ?s s] unfolding fly_sched_get_wthread_def by simp
  obtain err s1 where s1: "fly_sched_add_job_from_worker ?s ?job w = Some (err, s1)" "sched_frame ?s s1" "calls s1 = calls s"
    "\<forall>p. p \<noteq> ?job \<longrightarrow> jobs s1 p = jobs ?s p" "(\<forall>p. malloc_ok s p) \<longrightarrow> err = 0"
    "if FLY_SUCCEEDED err
     then \<exists>es U'. (U' = U @ [?job] \<or> U' = U) \<and> batches s1 |` (- set es) = batches s \<and>
       sched_rep s1 (E(?job \<mapsto> [], ?job \<mapsto> es, running_jobs s \<mapsto> U')) R U' D \<and>
       job_holds s1 ?job ((ready_job ?k ?nb)\<lparr>j_state := FLY_JOB_RUNNING\<rparr>) es ?plan
     else err = fly_err FLYENORES \<and> sched_rep s1 (E(?job \<mapsto> [])) R U D \<and> batches s1 = batches s \<and> get_job s1 ?job \<noteq> None"
    using add_from_worker_run [OF w(1) a t] unfolding with_job_simps by blast
  note f1 = sched_frame_simps [OF s1(2)]
  have nq: "not_queue s1 ?job" using w(3) f1 by (simp add: not_queue_def)
  have j1: "\<forall>p. p \<noteq> ?job \<longrightarrow> jobs s1 p = jobs s p" using s1(4) by (simp add: with_job_def)
  have g0: "get_job (with_job s j) ?job = Some j" by (rule with_job_rep(4) [OF assms(1)])
  have wt: "fly_sched_get_wthread (with_job s j) self = Some (Some w)"
    using get_wthread_cong [of "with_job s j" s] assms(2) by simp
  have restore: ?thesis
    if x: "fly_add_job_and_wait (with_job s j) self ?job True [] = Some (err, s2)" "sched_rep s2 (E(?job \<mapsto> es)) R U D"
      "job_holds s2 ?job j' es bs" "not_queue s2 ?job" "keeps ?job es s1 s2" "batches s1 |` (- set es) = batches s"
      "err = 0 \<and> calls s2 = calls s @ ?c \<or> err = fly_err FLYENORES \<and> calls s2 = calls s" for s2 es j' bs
  proof -
    have "\<forall>p. p \<noteq> ?job \<longrightarrow> jobs s2 p = jobs s p" using x(5) j1 by (simp add: keeps_def)
    moreover have "batches s2 |` (- set es) = batches s1 |` (- set es)"
      using x(5) by (intro ext) (simp add: keeps_def restrict_map_def)
    then have "batches s2 |` (- set es) = batches s" using x(6) by simp
    ultimately obtain s3 where s3: "fly_destroy_job s2 ?job = Some s3" "sched_rep s3 E R U D" "jobs s3 = jobs s"
      "batches s3 = batches s" "calls s3 = calls s2"
      using destroy_restores [where E = E and s = s, OF x(2) w(2) x(3,4) _ w(5)] by blast
    show ?thesis
      by (intro exI [of _ err] exI [of _ s2] exI [of _ s3]) (use x(1,7) s3 s1(5) in simp)
  qed
  show ?thesis
  proof (cases "err = 0")
    case False
    then have e: "err = fly_err FLYENORES" "sched_rep s1 (E(?job \<mapsto> [])) R U D" "batches s1 = batches s" "get_job s1 ?job \<noteq> None"
      using s1(6) by simp_all
    have "fly_add_job_and_wait (with_job s j) self ?job True [] = Some (err, s1)"
      using wt g0 s1(1) False assms(9) by (simp add: fly_add_job_and_wait_def c_add_def c_ok_iff with_job_put)
    moreover obtain j' where "job_holds s1 ?job j' [] []" using e(4) by (auto simp: job_holds_def)
    moreover have "keeps ?job [] s1 s1" "batches s1 |` (- set []) = batches s" using e(3) by (simp_all add: keeps_def restrict_map_def)
    ultimately show ?thesis using restore e(1,2) s1(3) nq by blast
  next
    case True
    then obtain es U' where es: "U' = U @ [?job] \<or> U' = U" "batches s1 |` (- set es) = batches s"
      "sched_rep s1 (E(?job \<mapsto> [], ?job \<mapsto> es, running_jobs s \<mapsto> U')) R U' D"
      "job_holds s1 ?job ((ready_job ?k ?nb)\<lparr>j_state := FLY_JOB_RUNNING\<rparr>) es ?plan" using s1(6) by auto
    let ?j = "(ready_job ?k ?nb)\<lparr>j_state := FLY_JOB_RUNNING\<rparr>" and ?E = "E(?job \<mapsto> [], ?job \<mapsto> es, running_jobs s \<mapsto> U')"
    have j: "pfor_ok ?j f" "j_batches_done ?j = 0" "j_nbbatches ?j = ?nb" "j_sem ?j = 0" "j_recurse ?j = 1"
      using assms(3,7,8) by (simp_all add: ready_job_def pfor_ok_def)
    have g1: "get_job s1 ?job = Some ?j" using es(4) by (simp add: job_holds_def)
    have E1: "?E ?job = Some es" using nq f1(2) by (simp add: not_queue_def)
    have u: "remove1 ?job U' = U" using es(1) assms(10) by (auto simp: remove1_append remove1_idem)
    obtain s2 s3 j' bs where s3: "recurse_loop s1 ?job = Some s2" "fly_wait_job s2 ?job = Some (0, s3)" "sched_frame s1 s3"
      "sched_rep s3 (?E(running_jobs s1 \<mapsto> U)) R U D" "keeps ?job es s1 s3" "job_holds s3 ?job j' es bs"
      "calls s3 = calls s1 @ map (pfor_call ?j f) [js..js + max (je - js) ?nb - 1]"
      using nested_added [OF es(3) E1 es(4) j(1) assms(6) j(2-4) nq assms(11) u] by blast
    have run: "fly_add_job_and_wait (with_job s j) self ?job True [] = Some (err, s3)"
      using wt g0 s1(1) g1 s3(1,2) j(5) assms(9) True
      by (simp add: fly_add_job_and_wait_def c_add_def c_ok_iff with_job_put)
    have "?E(running_jobs s1 \<mapsto> U) = E(?job \<mapsto> es)"
      using sched_repD(5) [OF assms(1)] w(2) f1(2) by (intro ext) auto
    with s3(4) have "sched_rep s3 (E(?job \<mapsto> es)) R U D" by (simp only:)
    moreover have "not_queue s3 ?job" using nq sched_frame_simps [OF s3(3)] by (simp add: not_queue_def)
    moreover have "pfor_call ?j f = pfor_call j f" by (rule ext) (simp add: pfor_call_def ready_job_def)
    then have "calls s3 = calls s @ ?c" using s3(7) s1(3) by simp
    ultimately show ?thesis using restore [OF run _ s3(6) _ s3(5) es(2)] True by blast
  qed
qed

section \<open>A parallel loop without memory\<close>

lemma sched_rep_brk:
  assumes "sched_rep s E R U D"
  shows "sched_rep (s\<lparr>brk := Suc (brk s)\<rparr>) E R U D"
proof -
  note d = sched_repD [OF assms]
  obtain F where F: "heap_lists s F" "E = (\<lambda>l. map_option (map snd) (F l))"
    using d(1) unfolding lists_rep_def by blast
  from heap_lists_brk [OF F(1)] have L: "lists_rep (s\<lparr>brk := Suc (brk s)\<rparr>) E"
    using F(2) by (auto intro: lists_repI)
  have "job_mem_ok (s\<lparr>brk := Suc (brk s)\<rparr>)"
    using d(3) lists_rep_ok [OF L] by (simp add: job_mem_ok_def)
  with L d(2,4-8) show ?thesis by (simp add: sched_rep_def)
qed

lemma create_pfor_fails:
  assumes "\<not> (malloc_ok s (brk s) \<and> sem_ok s (brk s))"
  shows "fly_create_job_pfor s count f p = (NULL, s\<lparr>brk := Suc (brk s)\<rparr>)"
  using assms by (auto simp: fly_create_job_pfor_def fly_malloc_def)

lemma wait_job_err: "fly_wait_job s job = Some (err, s') \<Longrightarrow> err = 0"
  by (auto simp: fly_wait_job_def fly_sem_notrack_wait_def Let_def split: bind_splits if_splits)

lemma failed_add_restores:
  assumes "sched_rep s E R U D" and "client_thread s self" and "is_pfor_type (j_jtype j)"
    and "j_start j = Some js" and "j_end j = Some je" and "batch_range_ok js je (nbworkers s)"
    and "fly_add_job_and_wait (with_job s j) self (brk s) True ts = Some (err, s1)" and "err \<noteq> 0"
  shows "err = fly_err FLYENORES \<and> (\<exists>s2. fly_destroy_job s1 (brk s) = Some s2 \<and> sched_rep s2 E R U D \<and>
    jobs s2 = jobs s \<and> batches s2 = batches s \<and> workers s2 = workers s \<and> calls s2 = calls s \<and> sched_frame s s2)"
proof -
  let ?s = "with_job s j" and ?job = "brk s"
  note w = with_job_rep(1) [OF assms(1), of j] with_job_rep(2) [OF assms(1)]
    with_job_rep(3,4) [OF assms(1), of j] with_job_rep(5) [OF assms(1)]
  have a: "addable ?s (E(?job \<mapsto> [])) ?job j js je"
    using w(3,4) assms(3-6) by (simp add: addable_def)
  obtain e s' where r: "fly_sched_add_job ?s ?job = Some (e, s')" "sched_frame ?s s'" "calls s' = calls s"
    "\<forall>p. p \<noteq> ?job \<longrightarrow> jobs s' p = jobs ?s p" "get_job s' ?job \<noteq> None"
    "\<not> FLY_SUCCEEDED e \<Longrightarrow> e = fly_err FLYENORES \<and> workers s' = workers s \<and>
      sched_rep s' (E(?job \<mapsto> [])) R U D \<and> batches s' = batches s"
    using add_job_run [OF w(1) a] by (auto split: if_splits)
  have "fly_sched_get_wthread ?s self = Some None"
    using wthread_none [OF sched_repD(8) [OF w(1)]] assms(2) by (simp add: client_thread_def)
  then have run: "FLY_SUCCEEDED e \<Longrightarrow> err = 0" "\<not> FLY_SUCCEEDED e \<Longrightarrow> err = e \<and> s1 = s'"
    using assms(7) r(1) by (auto simp: fly_add_job_and_wait_def split: bind_splits dest: wait_job_err)
  then have e: "\<not> FLY_SUCCEEDED e" "err = e" "s1 = s'" using assms(8) by blast+
  obtain j' where "job_holds s' ?job j' [] []" using r(5) by (auto simp: job_holds_def)
  moreover have "not_queue s' ?job" using w(3) sched_frame_simps [OF r(2)] by (simp add: not_queue_def)
  moreover have "\<forall>p. p \<noteq> ?job \<longrightarrow> jobs s' p = jobs s p" using r(4) by (simp add: with_job_def)
  moreover have "batches s' |` (- set []) = batches s" using r(6) [OF e(1)] by (simp add: restrict_map_def)
  ultimately obtain s2 where "fly_destroy_job s' ?job = Some s2" "sched_rep s2 E R U D" "jobs s2 = jobs s"
    "batches s2 = batches s" "calls s2 = calls s'" "workers s2 = workers s'" "sched_frame s' s2"
    using destroy_restores [where E = E and s = s, OF _ w(2) _ _ _ w(5)] r(6) [OF e(1)] by blast
  moreover from this have "sched_frame s s2"
    by (intro sched_frame_trans [OF sched_frame_trans [OF sched_frame_with_job r(2)]])
  ultimately show ?thesis using e r(3) r(6) [OF e(1)] by auto
qed

section \<open>A task's whole way\<close>

lemma create_task_sched:
  assumes "0 < brk s" and "malloc_ok s (brk s)" and "sem_ok s (brk s)" and "get_task s task = Some t"
  shows "fly_create_job_task s task = Some (brk s, with_job s (task_job (tk_func t) task))"
  using assms
  by (auto simp: fly_create_job_task_def fly_malloc_def with_job_def task_job_def list_init_nodes put_job_def
      get_task_def split: if_splits)

lemma push_task_any:
  assumes "sched_rep s E R U D" and "client_thread s self" and "get_task s task = Some t"
  shows "\<exists>err s'. fly_push_task s self task = Some (err, s') \<and> calls s' = calls s \<and> batches s' = batches s \<and> client_frame s s' \<and>
    (if FLY_SUCCEEDED err
     then sched_rep s' (E(brk s \<mapsto> [], ready_jobs s \<mapsto> R @ [brk s])) (R @ [brk s]) U D \<and>
       jobs s' = (jobs s)(brk s \<mapsto> task_job (tk_func t) task) \<and> tasks s' = (tasks s)(task \<mapsto> t\<lparr>tk_sched_data := brk s\<rparr>) \<and>
       workers s' = map fly_worker_work_available (workers s)
     else err = fly_err FLYENORES \<and> sched_rep s' E R U D \<and> jobs s' = jobs s \<and> workers s' = workers s \<and>
       (\<exists>d. tasks s' = (tasks s)(task \<mapsto> t\<lparr>tk_sched_data := d\<rparr>))) \<and>
    ((\<forall>p. malloc_ok s p) \<and> sem_ok s (brk s) \<longrightarrow> err = 0)"
proof (cases "malloc_ok s (brk s) \<and> sem_ok s (brk s)")
  case False
  let ?s = "s\<lparr>brk := Suc (brk s)\<rparr>"
  have "fly_create_job_task s task = Some (NULL, ?s)"
    using False by (auto simp: fly_create_job_task_def fly_malloc_def)
  then have "fly_push_task s self task = Some (fly_err FLYENORES, ?s)" by (simp add: fly_push_task_def)
  moreover have "tasks ?s = (tasks s)(task \<mapsto> t\<lparr>tk_sched_data := tk_sched_data t\<rparr>)"
    using assms(3) by (auto simp: get_task_iff)
  then have "\<exists>d. tasks ?s = (tasks s)(task \<mapsto> t\<lparr>tk_sched_data := d\<rparr>)" ..
  moreover have "sched_frame s ?s" by (rule sched_frameI) simp_all
  then have "client_frame s ?s" by (rule sched_client_frame)
  ultimately show ?thesis
    using sched_rep_brk [OF assms(1)] False by (intro exI [of _ 1] exI [of _ ?s]) (simp; blast)
next
  case True
  let ?j = "task_job (tk_func t) task" and ?job = "brk s"
  let ?T = "(tasks s)(task \<mapsto> t\<lparr>tk_sched_data := brk s\<rparr>)"
  let ?u = "with_job s ?j"
  let ?s = "(with_job s ?j)\<lparr>calls := calls s, tasks := ?T\<rparr>"
  note w = with_job_rep(1) [OF assms(1), of ?j] with_job_rep(2) [OF assms(1)] with_job_rep(3,4) [OF assms(1), of ?j]
    with_job_rep(5) [OF assms(1)]
  have rep: "sched_rep ?s (E(?job \<mapsto> [])) R U D" by (rule sched_rep_task [OF w(1)])
  have eq: "put_task ?u task (t\<lparr>tk_sched_data := brk s\<rparr>) = ?s" by (simp add: put_task_def with_job_def)
  have brk: "0 < brk s" "?job \<noteq> NULL" using sched_repD(3) [OF assms(1)] by (auto simp: job_mem_ok_def node_mem_ok_def)
  have sim: "malloc_ok ?s = malloc_ok s" "ready_jobs ?s = ready_jobs s" "workers ?s = workers s" "nbworkers ?s = nbworkers s"
    by (simp_all add: with_job_def)
  let ?s1 = "\<lambda>h. ?s\<lparr>brk := Suc (brk ?s), nodes := h\<rparr>"
  obtain h where h: "fly_sched_add_to_ready ?s ?job = Some (if malloc_ok s (brk ?s) then 0 else 1, ?s1 h)"
    "if malloc_ok s (brk ?s) then sched_rep (?s1 h) (E(?job \<mapsto> [], ready_jobs s \<mapsto> R @ [?job])) (R @ [?job]) U D
     else sched_rep (?s1 h) (E(?job \<mapsto> [])) R U D"
    using add_to_ready_run [OF rep, of ?job] unfolding sim by blast
  have g: "get_job ?s ?job = Some ?j" "j_jtype ?j = FLY_TASK_TASK" "\<not> is_pfor_type FLY_TASK_TASK"
    using w(4) brk by (simp_all add: get_job_iff task_job_def is_pfor_type_def jtype_defs)
  have wt: "fly_sched_get_wthread ?s self = Some None"
    using wthread_none [of ?s self] sched_repD(8) [OF assms(1)] assms(2) sim by (simp add: client_thread_def)
  have t: "get_task ?u task = Some t" using assms(3) by (simp add: get_task_iff)
  have c: "fly_create_job_task s task = Some (?job, ?u)"
    using create_task_sched [OF brk(1) _ _ assms(3)] True by blast
  have frame: "sched_frame (s\<lparr>tasks := ?T\<rparr>) (?s1 h)" by (rule sched_frameI) (simp_all add: with_job_def)
  show ?thesis
  proof (cases "malloc_ok s (brk ?s)")
    case True
    let ?s2 = "(?s1 h)\<lparr>workers := notified (?s1 h) None\<rparr>"
    have r: "sched_rep (?s1 h) (E(?job \<mapsto> [], ready_jobs s \<mapsto> R @ [?job])) (R @ [?job]) U D" using h(2) True by simp
    have n: "notify_workers (?s1 h) None = Some ?s2" by (rule notify_workers_run [OF sched_repD(8) [OF r]])
    have "fly_add_job_and_wait ?s self ?job False [] = Some (0, ?s2)"
      using wt g h(1) n True by (simp add: fly_add_job_and_wait_def fly_sched_add_job_def)
    then have "fly_push_task s self task = Some (0, ?s2)"
      unfolding fly_push_task_def c using brk(2) t eq by (simp del: put_job_sched)
    moreover have "sched_rep ?s2 (E(?job \<mapsto> [], ready_jobs s \<mapsto> R @ [?job])) (R @ [?job]) U D"
      using r by (rule sched_rep_workers) simp
    moreover have "notified (?s1 h) None = map fly_worker_work_available (workers s)"
      unfolding notified_all by (simp add: with_job_def)
    moreover have "client_frame s ?s2"
      using frame by (intro client_frameI [where T = ?T], elim sched_frame_trans, intro sched_frame_workers) (simp add: notified_crew)
    ultimately show ?thesis
      by (intro exI [of _ 0] exI [of _ ?s2]) (simp add: with_job_def)
  next
    case False
    have r: "sched_rep (?s1 h) (E(?job \<mapsto> [])) R U D" using h(2) False by simp
    have add: "fly_add_job_and_wait ?s self ?job False [] = Some (1, ?s1 h)"
      using wt g h(1) False by (simp add: fly_add_job_and_wait_def fly_sched_add_job_def)
    have holds: "job_holds (?s1 h) ?job ?j [] []" using g(1) by (simp add: job_holds_def get_job_iff)
    have nq: "not_queue (?s1 h) ?job" using w(3) by (simp add: not_queue_def)
    have j1: "\<forall>p. p \<noteq> ?job \<longrightarrow> jobs (?s1 h) p = jobs s p" by (simp add: with_job_def)
    have b1: "batches (?s1 h) |` (- set []) = batches s" by (simp add: restrict_map_def)
    obtain s2 where s2: "fly_destroy_job (?s1 h) ?job = Some s2" "sched_rep s2 E R U D" "jobs s2 = jobs s"
      "batches s2 = batches s" "calls s2 = calls (?s1 h)" "workers s2 = workers (?s1 h)" "tasks s2 = tasks (?s1 h)"
      "sched_frame (?s1 h) s2"
      using destroy_restores [where E = E and s = s, OF r w(2) holds nq j1 w(5) b1] by blast
    have "fly_push_task s self task = Some (1, s2)"
      unfolding fly_push_task_def c using brk(2) t eq add s2(1) by (simp del: put_job_sched)
    moreover have "client_frame s s2" by (rule client_frameI [OF sched_frame_trans [OF frame s2(8)]])
    ultimately show ?thesis
      using s2(2-7) False by (intro exI [of _ 1] exI [of _ s2]) auto
  qed
qed

lemma push_task_run:
  assumes "sched_rep s E R U D" and "client_thread s self" and "get_task s task = Some t"
    and "\<forall>p. malloc_ok s p" and "sem_ok s (brk s)"
  shows "\<exists>s' E'. fly_push_task s self task = Some (0, s') \<and> sched_rep s' E' (R @ [brk s]) U D \<and>
    E' = E(brk s \<mapsto> [], ready_jobs s \<mapsto> R @ [brk s]) \<and> jobs s' = (jobs s)(brk s \<mapsto> task_job (tk_func t) task) \<and>
    tasks s' = (tasks s)(task \<mapsto> t\<lparr>tk_sched_data := brk s\<rparr>) \<and> calls s' = calls s \<and> batches s' = batches s \<and>
    workers s' = map fly_worker_work_available (workers s) \<and> malloc_ok s' = malloc_ok s \<and> task_fun s' = task_fun s \<and>
    ready_jobs s' = ready_jobs s \<and> running_jobs s' = running_jobs s \<and> done_jobs s' = done_jobs s \<and> client_frame s s'"
proof -
  obtain s' where s': "fly_push_task s self task = Some (0, s')" "calls s' = calls s" "batches s' = batches s"
    "client_frame s s'" "sched_rep s' (E(brk s \<mapsto> [], ready_jobs s \<mapsto> R @ [brk s])) (R @ [brk s]) U D"
    "jobs s' = (jobs s)(brk s \<mapsto> task_job (tk_func t) task)" "tasks s' = (tasks s)(task \<mapsto> t\<lparr>tk_sched_data := brk s\<rparr>)"
    "workers s' = map fly_worker_work_available (workers s)"
    using push_task_any [OF assms(1-3)] assms(4,5) by auto
  with client_frame_simps(1,2,4-6) [OF s'(4)] show ?thesis by blast
qed

text \<open>One turn of any worker's thread runs a pushed task, and its waiter comes back, with or without memory.\<close>

lemma pushed_task_waited:
  assumes "sched_rep s (E(job \<mapsto> [], ready_jobs s \<mapsto> [job])) [job] [] D" and "jobs s = J(job \<mapsto> task_job (tk_func t) task)"
    and "get_task s task = Some t" and "tk_sched_data t = job" and "J job = None" and "E job = None" and "E (ready_jobs s) = Some []"
    and "job \<notin> set D" and "job \<noteq> NULL" and "not_queue s job" and "get_wt s w \<noteq> None"
  shows "\<exists>s2. fly_wait_task s task [w] = Some (0, s2) \<and> sched_rep s2 E [] [] D \<and> jobs s2 = J \<and> batches s2 = batches s \<and>
    client_frame s s2 \<and> calls s2 = calls s @ [TaskCall (tk_func t) (tk_param t)] \<and>
    tasks s2 = (tasks s)(task \<mapsto> t\<lparr>tk_result := Some (task_fun s (tk_func t) (tk_param t))\<rparr>)"
proof -
  let ?j = "task_job (tk_func t) task" and ?E = "E(job \<mapsto> [], ready_jobs s \<mapsto> [job])"
  have r: "sched_rep s ?E ([] @ [job]) [] D" using assms(1) by simp
  have g: "get_job s job = Some ?j" "j_jtype ?j = FLY_TASK_TASK" "task \<noteq> NULL"
    using assms(2,3,9) by (simp_all add: get_job_iff get_task_iff task_job_def)
  let ?j1 = "?j\<lparr>j_batches_done := j_nbbatches ?j, j_state := FLY_JOB_RUNNING\<rparr>"
  let ?U = "if malloc_ok s (brk s) then [] @ [job] else []"
  obtain s1 E1 where s1: "fly_sched_get_job s w = Some (job, s1)" "sched_frame s s1" "sched_rep s1 E1 [] ?U D"
    "jobs s1 = (jobs s)(job \<mapsto> ?j1)" "batches s1 = batches s" "calls s1 = calls s"
    "E1 = ?E(ready_jobs s \<mapsto> [], running_jobs s \<mapsto> ?U)"
    using get_job_ready_task_any [OF r assms(11) g(1,2) refl] by blast
  note f1 = sched_frame_simps [OF s1(2)]
  have g1: "get_job s1 job = Some ?j1" "j_jtype ?j1 = FLY_TASK_TASK" "j_batches_done ?j1 = j_nbbatches ?j1"
    "get_task s1 (j_data ?j1) = Some t"
    using s1(4) f1(6) assms(3,9) by (simp_all add: get_job_iff get_task_iff task_job_def)
  let ?j2 = "?j1\<lparr>j_state := FLY_JOB_DONE, j_sem := Suc (j_sem ?j1)\<rparr>"
  let ?D = "if malloc_ok s1 (brk s1) then D @ [job] else D"
  obtain s2 E2 where s2: "fly_sched_exec_job s1 job = Some (0, s2)" "sched_rep s2 E2 [] (remove1 job ?U) ?D"
    "calls s2 = calls s1 @ [TaskCall (tk_func t) (tk_param t)]"
    "tasks s2 = (tasks s1)(task \<mapsto> t\<lparr>tk_result := Some (task_fun s1 (tk_func t) (tk_param t))\<rparr>)"
    "jobs s2 = (jobs s1)(job \<mapsto> ?j2)" "batches s2 = batches s1"
    "ready_jobs s2 = ready_jobs s1" "running_jobs s2 = running_jobs s1" "done_jobs s2 = done_jobs s1"
    "E2 = E1(running_jobs s1 \<mapsto> remove1 job ?U, done_jobs s1 \<mapsto> ?D)" "client_frame s1 s2"
    using exec_task_run_any [OF s1(3) g1 refl] by (auto simp: task_job_def)
  have turn: "turns s [w] = Some s2" using s1(1) s2(1) assms(9) by (simp add: fly_schedule_def)
  have U: "remove1 job ?U = []" by simp
  have g2: "get_job s2 job = Some ?j2" "j_sem ?j2 = Suc 0" using s2(5) assms(9) by (simp_all add: get_job_iff task_job_def)
  let ?s3 = "\<lambda>h. (put_job s2 job (?j2\<lparr>j_sem := 0\<rparr>))\<lparr>nodes := h\<rparr>"
  obtain h where h: "fly_wait_job s2 job = Some (0, ?s3 h)"
    "sched_rep (?s3 h) (E2(done_jobs s2 \<mapsto> remove1 job ?D)) [] [] (remove1 job ?D)"
    using wait_job_run [OF s2(2) [unfolded U] g2] by blast
  have D: "remove1 job ?D = D" using assms(8) by (simp add: remove1_append remove1_idem)
  have nq: "job \<noteq> ready_jobs s" "job \<noteq> running_jobs s" "job \<noteq> done_jobs s" using assms(10) by (simp_all add: not_queue_def)
  have "E2(done_jobs s2 \<mapsto> D) = E(job \<mapsto> [])"
    using sched_repD(5-7) [OF assms(1)] nq f1 s2(9) assms(7) unfolding s2(10) s1(7) U by (intro ext) auto
  with h(2) D have rep: "sched_rep (?s3 h) (E(job \<mapsto> [])) [] [] D" by simp
  have holds: "job_holds (?s3 h) job (?j2\<lparr>j_sem := 0\<rparr>) [] []"
    using assms(9) by (simp add: job_holds_def get_job_def put_job_def)
  have n3: "not_queue (?s3 h) job" using nq f1 s2(7-9) by (simp add: not_queue_def)
  let ?s0 = "s\<lparr>jobs := J\<rparr>"
  have j3: "\<forall>p. p \<noteq> job \<longrightarrow> jobs (?s3 h) p = jobs ?s0 p" using s2(5) s1(4) assms(2) by (simp add: put_job_def)
  have b3: "batches (?s3 h) |` (- set []) = batches ?s0" using s2(6) s1(5) by (simp add: restrict_map_def)
  have n0: "jobs ?s0 job = None" using assms(5) by simp
  obtain s4 where s4: "fly_destroy_job (?s3 h) job = Some s4" "sched_rep s4 E [] [] D" "jobs s4 = jobs ?s0"
    "batches s4 = batches ?s0" "calls s4 = calls (?s3 h)" "tasks s4 = tasks (?s3 h)" "sched_frame (?s3 h) s4"
    using destroy_restores [where E = E and s = ?s0, OF rep assms(6) holds n3 j3 n0 b3] by blast
  have "fly_wait_task s task [w] = Some (0, s4)"
    using turn h(1) s4(1) assms(3,4,9) by (simp add: fly_wait_task_def del: turns.simps)
  moreover have "tasks s4 = (tasks s)(task \<mapsto> t\<lparr>tk_result := Some (task_fun s (tk_func t) (tk_param t))\<rparr>)"
    using s4(6) s2(4) f1(6,7) by (simp add: put_job_def)
  moreover have "sched_frame s2 s4"
    by (rule sched_frame_trans [OF sched_frame_trans [OF heap_step_frame heap_step_frame] s4(7)],
        rule heap_step_nodes(3), rule heap_step_nodes(1))
  then have "client_frame s s4"
    using sched_client_frame [OF s1(2)] s2(11) sched_client_frame client_frame_trans by metis
  moreover have "calls s4 = calls s @ [TaskCall (tk_func t) (tk_param t)]" using s4(5) s2(3) s1(6) by simp
  ultimately show ?thesis using s4(2-4) by (intro exI [of _ s4]) simp
qed

lemma task_round:
  assumes "sched_rep s E [] [] D" and "client_thread s self" and "get_task s task = Some t"
    and "\<forall>p. malloc_ok s p" and "sem_ok s (brk s)" and "get_wt s w \<noteq> None" and "brk s \<notin> set D"
  shows "\<exists>s1 s2. fly_push_task s self task = Some (0, s1) \<and> fly_wait_task s1 task [w] = Some (0, s2) \<and>
    sched_rep s2 E [] [] D \<and> jobs s2 = jobs s \<and> batches s2 = batches s \<and> client_frame s s2 \<and>
    calls s2 = calls s @ [TaskCall (tk_func t) (tk_param t)] \<and>
    tasks s2 = (tasks s)(task \<mapsto> t\<lparr>tk_sched_data := brk s, tk_result := Some (task_fun s (tk_func t) (tk_param t))\<rparr>) \<and>
    get_task s2 task = Some (t\<lparr>tk_sched_data := brk s, tk_result := Some (task_fun s (tk_func t) (tk_param t))\<rparr>)"
proof -
  let ?job = "brk s" and ?t = "t\<lparr>tk_sched_data := brk s\<rparr>"
  note w = with_job_rep(2) [OF assms(1)] with_job_rep(5) [OF assms(1)]
  have job: "?job \<noteq> NULL" "task \<noteq> NULL"
    using sched_repD(3) [OF assms(1)] assms(3) by (auto simp: job_mem_ok_def node_mem_ok_def get_task_iff)
  obtain s1 where s1: "fly_push_task s self task = Some (0, s1)"
    "sched_rep s1 (E(?job \<mapsto> [], ready_jobs s \<mapsto> [?job])) [?job] [] D" "jobs s1 = (jobs s)(?job \<mapsto> task_job (tk_func ?t) task)"
    "tasks s1 = (tasks s)(task \<mapsto> ?t)" "calls s1 = calls s" "batches s1 = batches s"
    "workers s1 = map fly_worker_work_available (workers s)" "client_frame s s1"
    using push_task_run [OF assms(1-5)] by auto
  note f1 = client_frame_simps [OF s1(8)]
  have wt: "get_wt s1 w \<noteq> None" using assms(6) s1(7) by (auto simp: get_wt_def split: prod.splits if_splits)
  have p: "sched_rep s1 (E(?job \<mapsto> [], ready_jobs s1 \<mapsto> [?job])) [?job] [] D" "get_task s1 task = Some ?t"
    "E (ready_jobs s1) = Some []" "not_queue s1 ?job" "tk_sched_data ?t = ?job"
    using s1(2,4) sched_repD(4-6) [OF assms(1)] w(1) job(2) f1(2,4,5) by (auto simp: get_task_iff not_queue_def)
  obtain s2 where s2: "fly_wait_task s1 task [w] = Some (0, s2)" "sched_rep s2 E [] [] D" "jobs s2 = jobs s"
    "batches s2 = batches s1" "client_frame s1 s2" "calls s2 = calls s1 @ [TaskCall (tk_func ?t) (tk_param ?t)]"
    "tasks s2 = (tasks s1)(task \<mapsto> ?t\<lparr>tk_result := Some (task_fun s1 (tk_func ?t) (tk_param ?t))\<rparr>)"
    using pushed_task_waited [OF p(1) s1(3) p(2,5) w(2,1) p(3) assms(7) job(1) p(4) wt] by blast
  have "tasks s2 = (tasks s)(task \<mapsto> t\<lparr>tk_sched_data := brk s, tk_result := Some (task_fun s (tk_func t) (tk_param t))\<rparr>)"
    unfolding s2(7) s1(4) f1(6) by simp
  moreover from this have "get_task s2 task = Some (t\<lparr>tk_sched_data := brk s, tk_result := Some (task_fun s (tk_func t) (tk_param t))\<rparr>)"
    using job(2) by (simp add: get_task_iff)
  moreover have "client_frame s s2" by (rule client_frame_trans [OF s1(8) s2(5)])
  ultimately show ?thesis using s1(1,5,6) s2(1-4,6) by (intro exI [of _ s1] exI [of _ s2]) simp
qed

section \<open>The parallel loops of a client\<close>

lemma parallel_for_run:
  assumes "sched_rep s E [] [] D" and "client_thread s self" and "batch_range_ok 0 count (nbworkers s)"
    and "\<forall>p. malloc_ok s p" and "sem_ok s (brk s)" and "brk s \<notin> set D"
    and "int (length ts) = nbworkers s" and "\<forall>t \<in> set ts. get_wt s t \<noteq> None"
  shows "\<exists>s'. fly_parallel_for s self count f p ts = Some (0, s') \<and> sched_rep s' E [] [] D \<and>
    jobs s' = jobs s \<and> batches s' = batches s \<and> sched_frame s s' \<and>
    calls s' = calls s @ map (\<lambda>i. PForCall f i p) [0..max count (nbworkers s) - 1]"
proof -
  have j: "is_pfor_type (j_jtype (pfor_job count f p))" "pfor_ok (pfor_job count f p) f"
    "j_start (pfor_job count f p) = Some 0" "j_end (pfor_job count f p) = Some count"
    "batch_range_ok 0 count (nbworkers s)"
    using assms(3) by (simp_all add: pfor_job_def is_pfor_type_def pfor_ok_def jtype_defs)
  have z: "j_batches_done (pfor_job count f p) = 0" "j_sem (pfor_job count f p) = 0" "j_recurse (pfor_job count f p) = 0"
    by (simp_all add: pfor_job_def)
  have brk: "0 < brk s" using sched_repD(3) [OF assms(1)] by (auto simp: job_mem_ok_def node_mem_ok_def)
  have "map (pfor_call (pfor_job count f p) f) is = map (\<lambda>i. PForCall f i p) is" for "is"
    by (simp add: pfor_call_def pfor_job_def)
  with job_run_and_destroyed [OF assms(1,2) j z assms(4,7,8,6)] create_pfor_sched [OF brk _ assms(5)] assms(4) brk
  show ?thesis by (auto simp: fly_parallel_for_def)
qed

lemma parallel_for_arr_run:
  assumes "sched_rep s E [] [] D" and "client_thread s self" and "b < e" and "batch_range_ok b e (nbworkers s)"
    and "\<forall>p. malloc_ok s p" and "sem_ok s (brk s)" and "brk s \<notin> set D"
    and "int (length ts) = nbworkers s" and "\<forall>t \<in> set ts. get_wt s t \<noteq> None"
  shows "\<exists>s'. fly_parallel_for_arr s self b e f arr el ts = Some (0, s') \<and> sched_rep s' E [] [] D \<and>
    jobs s' = jobs s \<and> batches s' = batches s \<and> sched_frame s s' \<and>
    calls s' = calls s @ map (\<lambda>i. PForCall f i (elem_addr arr i el)) [b..b + max (e - b) (nbworkers s) - 1]"
proof -
  let ?j = "pfarr_job b e f arr el"
  have j: "is_pfor_type (j_jtype ?j)" "pfor_ok ?j f" "j_start ?j = Some b" "j_end ?j = Some e"
    "batch_range_ok b e (nbworkers s)"
    using assms(4) by (simp_all add: pfarr_job_def is_pfor_type_def pfor_ok_def jtype_defs)
  have z: "j_batches_done ?j = 0" "j_sem ?j = 0" "j_recurse ?j = 0" by (simp_all add: pfarr_job_def)
  have brk: "0 < brk s" using sched_repD(3) [OF assms(1)] by (auto simp: job_mem_ok_def node_mem_ok_def)
  have "c_ok (e - b)" using assms(4) by (simp add: batch_range_ok_def)
  note c = create_pfarr_sched [OF brk _ assms(6) this assms(3)]
  have "map (pfor_call ?j f) is = map (\<lambda>i. PForCall f i (elem_addr arr i el)) is" for "is"
    by (simp add: pfor_call_def pfarr_job_def jtype_defs)
  with job_run_and_destroyed [OF assms(1,2) j z assms(5,8,9,7)] c assms(5) brk
  show ?thesis by (auto simp: fly_parallel_for_arr_def)
qed

section \<open>The small scheduler, with clients and with a worker's caller\<close>

lemma small_client: "client_thread (small_sched j) self"
  by (simp add: client_thread_def fly_worker_get_curr_thread_def fly_worker_thread_is_me_def
      fly_thread_is_me_def zero_worker_def zero_worker_thread_def)

lemma small_room:
  "\<forall>p. malloc_ok (small_sched j) p" "sem_ok (small_sched j) (brk (small_sched j))" "brk (small_sched j) \<notin> set []"
  "int (length [(0, MThread), (1, MThread)]) = nbworkers (small_sched j)"
  "\<forall>t \<in> set [(0, MThread), (1, MThread)]. get_wt (small_sched j) t \<noteq> None"
  by (simp_all add: small_threads del: not_None_eq) (simp add: small_sched_def)

text \<open>Thread 9 is the main thread of the first worker.\<close>

definition staffed_sched :: fly_sched where
  "staffed_sched = (small_sched (pfor_job 3 50 60))\<lparr>workers :=
     [zero_worker\<lparr>mthread := zero_worker_thread\<lparr>wt_thread := (wt_thread zero_worker_thread)\<lparr>t_pthread := Some 9\<rparr>\<rparr>\<rparr>,
      zero_worker]\<rparr>"

lemma staffed_rep: "sched_rep staffed_sched small_lists [] [] []"
  unfolding staffed_sched_def by (rule sched_rep_workers [OF small_sched_rep]) simp

section \<open>Properties\<close>



text \<open>
  \<^verbatim>\<open>fly_parallel_for_arr\<close> from a client thread: as above for the indices
  \<open>start, ..., end - 1\<close>, the function getting the address of each index's element.
\<close>

theorem parallel_for_arr_from_client:
  assumes "sched_rep s E [] [] D" and "client_thread s self" and "b < e" and "batch_range_ok b e (nbworkers s)"
    and "\<forall>p. malloc_ok s p" and "sem_ok s (brk s)" and "brk s \<notin> set D"
    and "int (length ts) = nbworkers s" and "\<forall>t \<in> set ts. get_wt s t \<noteq> None"
  shows "\<exists>s'. fly_parallel_for_arr s self b e f arr el ts = Some (0, s') \<and> sched_rep s' E [] [] D \<and>
    jobs s' = jobs s \<and> batches s' = batches s \<and>
    calls s' = calls s @ map (\<lambda>i. PForCall f i (elem_addr arr i el)) [b..b + max (e - b) (nbworkers s) - 1]"
  using parallel_for_arr_run [OF assms] by blast

theorem parallel_for_arr_from_client_witness:
  "\<exists>s'. fly_parallel_for_arr (small_sched (pfor_job 3 50 60)) 9 1 4 51 1000 8 [(0, MThread), (1, MThread)] = Some (0, s') \<and>
    calls s' = [PForCall 51 1 1008, PForCall 51 2 1016, PForCall 51 3 1024]"
proof -
  let ?s = "small_sched (pfor_job 3 50 60)"
  have r: "1 < (4 :: int)" "batch_range_ok 1 4 (nbworkers ?s)" by (simp_all add: batch_range_ok_def c_ok_iff)
  have "[1..1 + max 3 2 - 1] = [1, 2, 3 :: int]" by (simp add: upto.simps)
  then show ?thesis
    using parallel_for_arr_from_client [where self = 9 and f = 51 and arr = 1000 and el = 8, OF small_sched_rep small_client r small_room]
    by (auto simp: elem_addr_def)
qed



text \<open>
  A failing \<^verbatim>\<open>fly_parallel_for\<close>.  Whatever memory is missing, an answer other than
  success is \<^verbatim>\<open>FLYENORES\<close>; then the function has not been called, nothing is left
  allocated, the queues are as before and no worker has been notified.
\<close>

theorem parallel_for_failure:
  assumes "sched_rep s E R U D" and "client_thread s self" and "batch_range_ok 0 count (nbworkers s)"
    and "fly_parallel_for s self count f p ts = Some (err, s')" and "err \<noteq> 0"
  shows "err = fly_err FLYENORES \<and> calls s' = calls s \<and> sched_rep s' E R U D \<and> jobs s' = jobs s \<and>
    batches s' = batches s \<and> workers s' = workers s"
proof (cases "malloc_ok s (brk s) \<and> sem_ok s (brk s)")
  case False
  from create_pfor_fails [OF this] assms(4) sched_rep_brk [OF assms(1)] show ?thesis
    by (auto simp: fly_parallel_for_def)
next
  case True
  let ?j = "pfor_job count f p"
  have brk: "0 < brk s" using sched_repD(3) [OF assms(1)] by (auto simp: job_mem_ok_def node_mem_ok_def)
  have c: "fly_create_job_pfor s count f p = (brk s, with_job s ?j)" "brk s \<noteq> NULL"
    using create_pfor_sched [OF brk] True brk by auto
  then obtain s1 where s1: "fly_add_job_and_wait (with_job s ?j) self (brk s) True ts = Some (err, s1)"
    "fly_destroy_job s1 (brk s) = Some s'"
    using assms(4) by (auto simp: fly_parallel_for_def split: bind_splits)
  have j: "is_pfor_type (j_jtype ?j)" "j_start ?j = Some 0" "j_end ?j = Some count"
    by (simp_all add: pfor_job_def is_pfor_type_def jtype_defs)
  from failed_add_restores [OF assms(1,2) j assms(3) s1(1) assms(5)] s1(2) show ?thesis by auto
qed

theorem parallel_for_failure_witness:
  "\<exists>s'. fly_parallel_for ((small_sched (pfor_job 3 50 60))\<lparr>sem_ok := \<lambda>p. False\<rparr>) 9 3 51 61 [] = Some (fly_err FLYENORES, s') \<and>
    calls s' = []"
proof -
  let ?s = "(small_sched (pfor_job 3 50 60))\<lparr>sem_ok := \<lambda>p. False\<rparr>"
  note d = sched_repD [OF small_sched_rep [of "pfor_job 3 50 60"]]
  have "lists_rep ?s small_lists" using d(1) by (rule lists_rep_cong) simp_all
  moreover have "job_mem_ok ?s" using d(3) by (simp add: job_mem_ok_def node_mem_ok_def)
  moreover have "get_lock ?s k = get_lock (small_sched (pfor_job 3 50 60)) k" for k
    by (cases k) (simp_all add: get_lock.simps)
  then have "locks_free ?s" using d(2) by (simp add: locks_free_def)
  ultimately have rep: "sched_rep ?s small_lists [] [] []" using d(4-8) unfolding sched_rep_def by simp
  have c: "client_thread ?s 9" using small_client [of "pfor_job 3 50 60" 9] by (simp add: client_thread_def)
  have r: "batch_range_ok 0 3 (nbworkers ?s)" by (simp add: batch_range_ok_def c_ok_iff)
  obtain err s' where run: "fly_parallel_for ?s 9 3 51 61 [] = Some (err, s')" "err \<noteq> 0"
    using create_pfor_fails [of ?s 3 51 61] by (simp add: fly_parallel_for_def)
  from parallel_for_failure [OF rep c r run] run(1) show ?thesis by auto
qed

text \<open>
  A task from push to result.  The client pushes a task and waits for it; one turn of any worker
  thread runs it.  Both calls succeed; the task's function has been called once on its parameter and
  its value is the task's result; the job is freed and the queues are as before.
\<close>

theorem task_result_roundtrip:
  assumes "sched_rep s E [] [] D" and "client_thread s self" and "get_task s task = Some t"
    and "\<forall>p. malloc_ok s p" and "sem_ok s (brk s)" and "get_wt s w \<noteq> None" and "brk s \<notin> set D"
  shows "\<exists>s1 s2. fly_push_task s self task = Some (0, s1) \<and> fly_wait_task s1 task [w] = Some (0, s2) \<and>
    fly_get_task_result s2 task = Some (task_fun s (tk_func t) (tk_param t)) \<and>
    calls s2 = calls s @ [TaskCall (tk_func t) (tk_param t)] \<and>
    sched_rep s2 E [] [] D \<and> jobs s2 = jobs s \<and> batches s2 = batches s"
  using task_round [OF assms] by (fastforce simp: fly_get_task_result_def)

theorem task_result_roundtrip_witness:
  "\<exists>s1 s2. fly_push_task (small_sched (pfor_job 3 50 60)) 9 5 = Some (0, s1) \<and>
    fly_wait_task s1 5 [(1, BThread)] = Some (0, s2) \<and> fly_get_task_result s2 5 = Some 150"
proof -
  let ?s = "small_sched (pfor_job 3 50 60)"
  have t: "get_task ?s 5 = Some \<lparr>tk_func = 70, tk_param = 80, tk_result = None, tk_sched_data = NULL\<rparr>"
    "task_fun ?s 70 80 = 150" by (simp_all add: small_sched_def get_task_def)
  have w: "get_wt ?s (1, BThread) \<noteq> None" by (rule small_threads) simp
  from task_result_roundtrip [where self = 9, OF small_sched_rep small_client t(1) small_room(1,2) w small_room(3)] t(2)
  show ?thesis by auto
qed

text \<open>
  C32. Waiting for a task a second time is undefined: \<^verbatim>\<open>fly_wait_task\<close> frees the task's
  job and leaves \<^verbatim>\<open>sched_data\<close> pointing to it.
\<close>

theorem task_waited_twice_undefined:
  assumes "sched_rep s E [] [] D" and "client_thread s self" and "get_task s task = Some t"
    and "\<forall>p. malloc_ok s p" and "sem_ok s (brk s)" and "get_wt s w \<noteq> None" and "brk s \<notin> set D"
  shows "\<exists>s1 s2. fly_push_task s self task = Some (0, s1) \<and> fly_wait_task s1 task [w] = Some (0, s2) \<and>
    fly_wait_task s2 task [] = None"
proof -
  have brk: "brk s \<noteq> NULL" using sched_repD(3) [OF assms(1)] by (auto simp: job_mem_ok_def node_mem_ok_def)
  obtain s1 s2 where s: "fly_push_task s self task = Some (0, s1)" "fly_wait_task s1 task [w] = Some (0, s2)"
    "jobs s2 = jobs s"
    "get_task s2 task = Some (t\<lparr>tk_sched_data := brk s, tk_result := Some (task_fun s (tk_func t) (tk_param t))\<rparr>)"
    using task_round [OF assms] by blast
  have "get_job s2 (brk s) = None" using s(3) with_job_rep(5) [OF assms(1)] by (simp add: get_job_def)
  then have "fly_wait_task s2 task [] = None"
    using s(4) brk by (simp add: fly_wait_task_def fly_wait_job_def)
  with s(1,2) show ?thesis by blast
qed

theorem task_waited_twice_undefined_witness:
  "\<exists>s1 s2. fly_push_task (small_sched (pfor_job 3 50 60)) 9 5 = Some (0, s1) \<and>
    fly_wait_task s1 5 [(1, BThread)] = Some (0, s2) \<and> fly_wait_task s2 5 [] = None"
proof -
  let ?s = "small_sched (pfor_job 3 50 60)"
  have t: "get_task ?s 5 = Some \<lparr>tk_func = 70, tk_param = 80, tk_result = None, tk_sched_data = NULL\<rparr>"
    by (simp add: small_sched_def get_task_def)
  have w: "get_wt ?s (1, BThread) \<noteq> None" by (rule small_threads) simp
  from task_waited_twice_undefined [OF small_sched_rep small_client t small_room(1,2) w small_room(3)]
  show ?thesis .
qed

end
