(* ===== verification/Fly_Client.thy ===== *)
theory Fly_Client
  imports Fly_Api
begin

text \<open>
  A client's whole program: \<^verbatim>\<open>fly_simple_init\<close>, any sequence of parallel loops, array loops
  and tasks, and \<^verbatim>\<open>fly_uninit\<close>.  Each call carries the schedule of the turns that worker
  threads take while it waits.  The specification of a call is its result and the list of the client's
  functions it has called.
\<close>

section \<open>A client's calls\<close>

datatype client_call = ParallelFor int ptr ptr "wref list"
  | ParallelForArr int int ptr ptr nat "wref list"
  | RunTask ptr ptr wref

datatype client_res = Code int | Value ptr

text \<open>A task from its creation to its destruction; the client reads the result when the wait has succeeded.\<close>

definition run_task :: "fly_sched \<Rightarrow> nat \<Rightarrow> ptr \<Rightarrow> ptr \<Rightarrow> wref \<Rightarrow> (client_res \<times> fly_sched) option" where
  "run_task s self f p w = do {
     (task, s) \<leftarrow> fly_create_task s f p;
     (err, s) \<leftarrow> fly_push_task s self task;
     (err, s) \<leftarrow> (if FLY_SUCCEEDED err then fly_wait_task s task [w] else Some (err, s));
     r \<leftarrow> (if FLY_SUCCEEDED err then map_option Value (fly_get_task_result s task) else Some (Code err));
     s \<leftarrow> fly_destroy_task s task;
     Some (r, s)
   }"

fun client_step :: "fly_sched \<Rightarrow> nat \<Rightarrow> client_call \<Rightarrow> (client_res \<times> fly_sched) option" where
  "client_step s self (ParallelFor count f p ts) =
     map_option (map_prod Code id) (fly_parallel_for s self count f p ts)"
| "client_step s self (ParallelForArr b e f arr el ts) =
     map_option (map_prod Code id) (fly_parallel_for_arr s self b e f arr el ts)"
| "client_step s self (RunTask f p w) = run_task s self f p w"

fun client_run :: "fly_sched \<Rightarrow> nat \<Rightarrow> client_call list \<Rightarrow> (client_res list \<times> fly_sched) option" where
  "client_run s self [] = Some ([], s)"
| "client_run s self (x # xs) = do {
     (r, s) \<leftarrow> client_step s self x;
     (rs, s) \<leftarrow> client_run s self xs;
     Some (r # rs, s)
   }"

text \<open>The specification, from the client's task functions and the number of workers.\<close>

fun call_spec :: "(ptr \<Rightarrow> ptr \<Rightarrow> ptr) \<Rightarrow> int \<Rightarrow> client_call \<Rightarrow> client_res \<times> call list" where
  "call_spec tf nb (ParallelFor count f p ts) = (Code 0, map (\<lambda>i. PForCall f i p) [0..max count nb - 1])"
| "call_spec tf nb (ParallelForArr b e f arr el ts) =
     (if b < e then (Code 0, map (\<lambda>i. PForCall f i (elem_addr arr i el)) [b..b + max (e - b) nb - 1])
      else (Code (fly_err FLYENORES), []))"
| "call_spec tf nb (RunTask f p w) = (Value (tf f p), [TaskCall f p])"

text \<open>One turn for every worker, each taken by a thread of one of them.\<close>

definition turns_ok :: "int \<Rightarrow> wref list \<Rightarrow> bool" where
  "turns_ok nb ts \<longleftrightarrow> int (length ts) = nb \<and> (\<forall>t \<in> set ts. int (fst t) < nb)"

fun call_ok :: "int \<Rightarrow> client_call \<Rightarrow> bool" where
  "call_ok nb (ParallelFor count f p ts) \<longleftrightarrow> batch_range_ok 0 count nb \<and> turns_ok nb ts"
| "call_ok nb (ParallelForArr b e f arr el ts) \<longleftrightarrow>
     c_ok (e - b) \<and> (b < e \<longrightarrow> batch_range_ok b e nb \<and> turns_ok nb ts)"
| "call_ok nb (RunTask f p w) \<longleftrightarrow> int (fst w) < nb"

section \<open>What a call leaves behind\<close>

definition call_done :: "fly_sched \<Rightarrow> (ptr \<rightharpoonup> ptr list) \<Rightarrow> call list \<Rightarrow> fly_sched \<Rightarrow> bool" where
  "call_done s E c s' \<longleftrightarrow> sched_rep s' E [] [] [] \<and> jobs s' = jobs s \<and> batches s' = batches s \<and>
     tasks s' \<subseteq>\<^sub>m tasks s \<and> calls s' = calls s @ c \<and> client_frame s s'"

lemma call_done_trans:
  assumes "call_done s E c s1" and "call_done s1 E d s2"
  shows "call_done s E (c @ d) s2"
proof -
  have "client_frame s s2" using assms client_frame_trans unfolding call_done_def by blast
  moreover have "tasks s2 \<subseteq>\<^sub>m tasks s" using assms map_le_trans unfolding call_done_def by blast
  ultimately show ?thesis using assms unfolding call_done_def by simp
qed

lemma call_done_refl: "sched_rep s E [] [] [] \<Longrightarrow> call_done s E [] s"
  by (simp add: call_done_def)

text \<open>A client's thread with memory for everything, on a scheduler with empty queues.\<close>

definition client_ready :: "fly_sched \<Rightarrow> (ptr \<rightharpoonup> ptr list) \<Rightarrow> nat \<Rightarrow> bool" where
  "client_ready s E self \<longleftrightarrow> sched_rep s E [] [] [] \<and> client_thread s self \<and>
     (\<forall>p. malloc_ok s p) \<and> (\<forall>p. sem_ok s p)"

lemma client_thread_crew:
  assumes "same_crew (workers s) (workers s')"
  shows "client_thread s' self = client_thread s self"
proof -
  have "client_thread x self \<longleftrightarrow> Some self \<notin> set (concat (map pthreads (workers x)))" for x
    by (simp add: client_thread_def get_curr_none)
  then show ?thesis using assms by (simp only: same_crew_def)
qed

lemma call_done_ready:
  assumes "client_ready s E self" and "call_done s E c s'"
  shows "client_ready s' E self"
proof -
  have f: "client_frame s s'" using assms(2) by (simp add: call_done_def)
  note c = client_frame_simps [OF f]
  show ?thesis
    using assms client_thread_crew [OF c(8)] unfolding client_ready_def call_done_def c(1,13) by blast
qed

lemma turns_threads:
  assumes "sched_rep s E R U D" and "turns_ok (nbworkers s) ts"
  shows "int (length ts) = nbworkers s" and "\<forall>t \<in> set ts. get_wt s t \<noteq> None"
proof -
  show "int (length ts) = nbworkers s" using assms(2) by (simp add: turns_ok_def)
  show "\<forall>t \<in> set ts. get_wt s t \<noteq> None"
    using assms(2) sched_repD(8) [OF assms(1)] by (fastforce simp: turns_ok_def get_wt_def split: prod.splits)
qed

section \<open>Each call meets its specification\<close>

lemma run_task_run:
  assumes "client_ready s E self" and "int (fst w) < nbworkers s"
  shows "\<exists>s'. run_task s self f p w = Some (Value (task_fun s f p), s') \<and> call_done s E [TaskCall f p] s'"
proof -
  let ?k = "brk s" and ?t = "\<lparr>tk_func = f, tk_param = p, tk_result = None, tk_sched_data = NULL\<rparr>"
  let ?u = "s\<lparr>brk := Suc ?k\<rparr>" and ?T = "(tasks s)(brk s \<mapsto> \<lparr>tk_func = f, tk_param = p, tk_result = None, tk_sched_data = NULL\<rparr>)"
  let ?s = "?u\<lparr>calls := calls s, tasks := ?T\<rparr>"
  have a: "sched_rep s E [] [] []" "client_thread s self" "malloc_ok s q" "sem_ok s q" for q
    using assms(1) by (simp_all add: client_ready_def)
  have k: "?k \<noteq> NULL" using sched_repD(3) [OF a(1)] by (auto simp: job_mem_ok_def node_mem_ok_def)
  have c: "fly_create_task s f p = Some (?k, ?s)"
    using a(3) k by (simp add: fly_create_task_def fly_malloc_def put_task_def)
  have rep: "sched_rep ?s E [] [] []" by (rule sched_rep_task [OF sched_rep_brk [OF a(1)]])
  have r: "client_thread ?s self" "get_task ?s ?k = Some ?t" "\<forall>p. malloc_ok ?s p" "sem_ok ?s (brk ?s)"
    "get_wt ?s w \<noteq> None" "brk ?s \<notin> set []"
    using a k assms(2) sched_repD(8) [OF a(1)]
    by (auto simp: client_thread_def get_task_iff get_wt_def split: prod.splits)
  let ?r = "?t\<lparr>tk_sched_data := brk ?s, tk_result := Some (task_fun s f p)\<rparr>"
  obtain s1 s2 where s2: "fly_push_task ?s self ?k = Some (0, s1)" "fly_wait_task s1 ?k [w] = Some (0, s2)"
    "sched_rep s2 E [] [] []" "jobs s2 = jobs ?s" "batches s2 = batches ?s" "client_frame ?s s2"
    "calls s2 = calls ?s @ [TaskCall f p]" "tasks s2 = (tasks ?s)(?k \<mapsto> ?r)" "get_task s2 ?k = Some ?r"
    using task_round [OF rep r(1,2,3,4,5,6)] by auto
  let ?s' = "s2\<lparr>tasks := (tasks s2)(?k := None)\<rparr>"
  have d: "fly_destroy_task s2 ?k = Some ?s'" using s2(9) k by (simp add: fly_destroy_task_def)
  have "run_task s self f p w = Some (Value (task_fun s f p), ?s')"
    using c s2(1,2,9) d by (simp add: run_task_def fly_get_task_result_def)
  moreover have "sched_rep ?s' E [] [] []" using sched_rep_task [OF s2(3), where c = "calls s2"] by simp
  moreover have "tasks ?s' \<subseteq>\<^sub>m tasks s" unfolding s2(8) by (simp add: map_le_def)
  moreover have "sched_frame s ?u" by (rule sched_frameI) simp_all
  then have "client_frame s ?s" by (rule client_frame_trans [OF sched_client_frame client_frame_task(1)])
  then have "client_frame s ?s'"
    using client_frame_trans [OF client_frame_trans [OF _ s2(6)] client_frame_task(1) [where s = s2 and c = "calls s2"]] by simp
  ultimately show ?thesis using s2(4,5,7) by (intro exI [of _ ?s']) (simp add: call_done_def)
qed

lemma empty_arr_fails:
  assumes "c_ok (e - b)" and "\<not> b < e"
  shows "fly_parallel_for_arr s self b e f arr el ts = Some (fly_err FLYENORES, s)"
  using assms by (simp add: fly_parallel_for_arr_def fly_create_job_pfarr_def c_sub_def)

lemma client_step_run:
  assumes "client_ready s E self" and "call_ok (nbworkers s) x"
  shows "\<exists>s'. client_step s self x = Some (fst (call_spec (task_fun s) (nbworkers s) x), s') \<and>
    call_done s E (snd (call_spec (task_fun s) (nbworkers s) x)) s'"
proof -
  have a: "sched_rep s E [] [] []" "client_thread s self" "\<forall>p. malloc_ok s p" "sem_ok s (brk s)" "brk s \<notin> set []"
    using assms(1) by (simp_all add: client_ready_def)
  show ?thesis
  proof (cases x)
    case (ParallelFor count f p ts)
    then have c: "batch_range_ok 0 count (nbworkers s)" "turns_ok (nbworkers s) ts" using assms(2) by simp_all
    obtain s' where s': "fly_parallel_for s self count f p ts = Some (0, s')" "sched_rep s' E [] [] []"
      "jobs s' = jobs s" "batches s' = batches s" "sched_frame s s'"
      "calls s' = calls s @ map (\<lambda>i. PForCall f i p) [0..max count (nbworkers s) - 1]"
      using parallel_for_run [OF a(1,2) c(1) a(3-5) turns_threads [OF a(1) c(2)]] by blast
    then show ?thesis
      using ParallelFor sched_client_frame [OF s'(5)] sched_frame_simps(6) [OF s'(5)]
      by (intro exI [of _ s']) (simp add: call_done_def)
  next
    case (ParallelForArr b e f arr el ts)
    show ?thesis
    proof (cases "b < e")
      case True
      then have c: "batch_range_ok b e (nbworkers s)" "turns_ok (nbworkers s) ts"
        using assms(2) ParallelForArr by simp_all
      obtain s' where s': "fly_parallel_for_arr s self b e f arr el ts = Some (0, s')" "sched_rep s' E [] [] []"
        "jobs s' = jobs s" "batches s' = batches s" "sched_frame s s'"
        "calls s' = calls s @ map (\<lambda>i. PForCall f i (elem_addr arr i el)) [b..b + max (e - b) (nbworkers s) - 1]"
        using parallel_for_arr_run [OF a(1,2) True c(1) a(3-5) turns_threads [OF a(1) c(2)]] by blast
      then show ?thesis
        using ParallelForArr True sched_client_frame [OF s'(5)] sched_frame_simps(6) [OF s'(5)]
        by (intro exI [of _ s']) (simp add: call_done_def)
    next
      case False
      then show ?thesis
        using ParallelForArr assms(2) empty_arr_fails call_done_refl [OF a(1)] by (intro exI [of _ s]) simp
    qed
  next
    case (RunTask f p w)
    with run_task_run [OF assms(1)] assms(2) show ?thesis by simp
  qed
qed

lemma client_run_done:
  assumes "client_ready s E self" and "\<forall>x \<in> set xs. call_ok (nbworkers s) x"
  shows "\<exists>s'. client_run s self xs = Some (map (fst \<circ> call_spec (task_fun s) (nbworkers s)) xs, s') \<and>
    call_done s E (concat (map (snd \<circ> call_spec (task_fun s) (nbworkers s)) xs)) s'"
  using assms
proof (induction xs arbitrary: s)
  case Nil
  then show ?case using call_done_refl by (simp add: client_ready_def)
next
  case (Cons x xs)
  let ?f = "call_spec (task_fun s) (nbworkers s)"
  obtain s1 where s1: "client_step s self x = Some (fst (?f x), s1)" "call_done s E (snd (?f x)) s1"
    using client_step_run [OF Cons.prems(1)] Cons.prems(2) by auto
  have "client_frame s s1" using s1(2) by (simp add: call_done_def)
  note c = client_frame_simps(3,6) [OF this]
  obtain s2 where s2: "client_run s1 self xs = Some (map (fst \<circ> ?f) xs, s2)"
    "call_done s1 E (concat (map (snd \<circ> ?f) xs)) s2"
    using Cons.IH [OF call_done_ready [OF Cons.prems(1) s1(2)]] Cons.prems(2) unfolding c by (auto simp: comp_def)
  with s1(1) call_done_trans [OF s1(2) s2(2)] show ?case by (intro exI [of _ s2]) (simp add: comp_def)
qed

section \<open>A whole session\<close>

definition session :: "fly_lib \<Rightarrow> int \<Rightarrow> nat \<Rightarrow> client_call list \<Rightarrow> (int \<times> client_res list \<times> fly_lib) option" where
  "session l nb self xs = do {
     (err, l) \<leftarrow> fly_simple_init l nb;
     (if FLY_SUCCEEDED err then do {
        (rs, s) \<leftarrow> client_run (lib_sched l) self xs;
        (err, l) \<leftarrow> fly_uninit (l\<lparr>lib_sched := s\<rparr>);
        Some (err, rs, l)
      } else Some (err, [], l))
   }"

text \<open>A running scheduler stays one, and a thread that was there before it is a client's.\<close>

lemma sched_up_frame:
  assumes "sched_up B T s" and "client_frame s s'"
  shows "sched_up B T s'"
proof -
  note c = client_frame_simps [OF assms(2)]
  have "crew X Y (workers s') os = crew X Y (workers s) os" for X Y os
    using c(8) unfolding crew_def same_crew_def by simp
  then show ?thesis using assms(1) unfolding sched_up_def c(3,7,9-12) by simp
qed

lemma sched_up_client:
  assumes "sched_up B T s" and "self \<in> T"
  shows "client_thread s self"
proof -
  obtain X n where "crew X ({n} \<union> T) (workers s) (s_os s)" using assms(1) unfolding sched_up_def Let_def by blast
  from crewD(6) [OF this] assms(2) have "Some self \<notin> set (concat (map pthreads (workers s)))" by blast
  then show ?thesis by (simp add: client_thread_def get_curr_none)
qed

text \<open>What the program needs of the library before \<^verbatim>\<open>fly_simple_init\<close>; then, memory for every job.\<close>

definition startable :: "fly_sched \<Rightarrow> (ptr \<rightharpoonup> ptr list) \<Rightarrow> int \<Rightarrow> bool" where
  "startable s E nb \<longleftrightarrow> lists_rep s E \<and> heads_fresh s \<and> job_mem_ok s \<and> os_ok (s_os s) \<and> os_errno (s_os s) \<noteq> 0 \<and>
     0 \<le> nb \<and> workers_granted (s_os s) (nat nb)"

definition bootable :: "fly_sched \<Rightarrow> (ptr \<rightharpoonup> ptr list) \<Rightarrow> int \<Rightarrow> bool" where
  "bootable s E nb \<longleftrightarrow> startable s E nb \<and> (\<forall>p. malloc_ok s p) \<and> (\<forall>p. sem_ok s p)"

lemma simple_init_run:
  assumes "startable (lib_sched l) E nb" and "s = lib_sched l"
  shows "\<exists>err l' s'. fly_simple_init l nb = Some (err, l') \<and> s' = lib_sched l' \<and>
    boot_frame (s\<lparr>nbworkers := nb\<rparr>) s' \<and>
    (if FLY_SUCCEEDED err
     then sched_up (os_blocks (s_os s)) (os_threads (s_os s)) s' \<and>
       sched_rep s' (E(ready_jobs s \<mapsto> [], running_jobs s \<mapsto> [], done_jobs s \<mapsto> [])) [] [] []
     else os_blocks (s_os s') = os_blocks (s_os s) \<and> os_threads (s_os s') = os_threads (s_os s))"
proof -
  let ?s = "fly_set_nbworkers s nb"
  have b: "lists_rep s E" "heads_fresh s" "job_mem_ok s" "os_ok (s_os s)" "os_errno (s_os s) \<noteq> 0" "0 \<le> nb"
    "workers_granted (s_os s) (nat nb)" using assms by (simp_all add: startable_def)
  have "lists_rep ?s E" using b(1) by (rule lists_rep_cong) (simp_all add: fly_set_nbworkers_def)
  moreover have "heads_fresh ?s" "job_mem_ok ?s" "os_ok (s_os ?s)" "os_errno (s_os ?s) \<noteq> 0" "0 \<le> nbworkers ?s"
    "workers_granted (s_os ?s) (nat (nbworkers ?s))"
    using b(2-7) by (simp_all add: fly_set_nbworkers_def heads_fresh_def job_mem_ok_def node_mem_ok_def)
  ultimately obtain err s' where s': "fly_sched_init ?s = Some (err, s')" "boot_frame ?s s'"
    "if FLY_SUCCEEDED err
     then sched_up (os_blocks (s_os ?s)) (os_threads (s_os ?s)) s' \<and>
       sched_rep s' (E(ready_jobs ?s \<mapsto> [], running_jobs ?s \<mapsto> [], done_jobs ?s \<mapsto> [])) [] [] []
     else os_blocks (s_os s') = os_blocks (s_os ?s) \<and> os_threads (s_os s') = os_threads (s_os ?s)"
    using sched_init_run [of ?s E] by (metis (full_types))
  moreover have "s_os ?s = s_os s" "ready_jobs ?s = ready_jobs s" "running_jobs ?s = running_jobs s" "done_jobs ?s = done_jobs s"
    by (simp_all add: fly_set_nbworkers_def)
  ultimately show ?thesis
    by (intro exI [of _ err] exI [of _ "(fly_set_free (fly_set_malloc l DefaultFunc) DefaultFunc)\<lparr>lib_sched := s'\<rparr>"] exI [of _ s'])
      (simp add: fly_simple_init_def fly_set_malloc_def fly_set_free_def fly_set_nbworkers_def assms(2) Let_def split: if_splits)
qed

lemma session_run:
  assumes "bootable s E nb" and "s = lib_sched l" and "self \<in> os_threads (s_os s)" and "\<forall>x \<in> set xs. call_ok nb x"
  shows "\<exists>err rs l' s'. session l nb self xs = Some (err, rs, l') \<and> s' = lib_sched l' \<and>
    os_blocks (s_os s') = os_blocks (s_os s) \<and> os_threads (s_os s') = os_threads (s_os s) \<and>
    jobs s' = jobs s \<and> batches s' = batches s \<and> tasks s' \<subseteq>\<^sub>m tasks s \<and>
    (if FLY_SUCCEEDED err
     then rs = map (fst \<circ> call_spec (task_fun s) nb) xs \<and>
       calls s' = calls s @ concat (map (snd \<circ> call_spec (task_fun s) nb) xs)
     else rs = [] \<and> calls s' = calls s)"
proof -
  let ?B = "os_blocks (s_os s)" and ?T = "os_threads (s_os s)" and ?f = "call_spec (task_fun s) nb"
  obtain err l1 s1 E1 where i: "fly_simple_init l nb = Some (err, l1)" "s1 = lib_sched l1" "boot_frame (s\<lparr>nbworkers := nb\<rparr>) s1"
    "if FLY_SUCCEEDED err then sched_up ?B ?T s1 \<and> sched_rep s1 E1 [] [] []
     else os_blocks (s_os s1) = ?B \<and> os_threads (s_os s1) = ?T"
    using simple_init_run [of l E nb s] assms(1,2) unfolding bootable_def by blast
  have b: "jobs s1 = jobs s" "batches s1 = batches s" "tasks s1 = tasks s" "calls s1 = calls s" "malloc_ok s1 = malloc_ok s"
    "sem_ok s1 = sem_ok s" "task_fun s1 = task_fun s" "nbworkers s1 = nb" using i(3) by (simp_all add: boot_frame_def)
  show ?thesis
  proof (cases "FLY_SUCCEEDED err")
    case False
    with i b(1-4) show ?thesis
      by (intro exI [of _ err] exI [of _ "[]"] exI [of _ l1] exI [of _ s1]) (simp add: session_def)
  next
    case True
    then have up: "sched_up ?B ?T s1" "sched_rep s1 E1 [] [] []" using i(4) by simp_all
    then have "client_ready s1 E1 self"
      using sched_up_client [OF up(1) assms(3)] assms(1) b(5,6) by (simp add: client_ready_def bootable_def)
    from client_run_done [OF this] assms(4) obtain s2 where s2: "client_run s1 self xs = Some (map (fst \<circ> ?f) xs, s2)"
      "call_done s1 E1 (concat (map (snd \<circ> ?f) xs)) s2" unfolding b(7,8) by blast
    have d: "sched_rep s2 E1 [] [] []" "jobs s2 = jobs s1" "batches s2 = batches s1" "tasks s2 \<subseteq>\<^sub>m tasks s1"
      "calls s2 = calls s1 @ concat (map (snd \<circ> ?f) xs)" "client_frame s1 s2"
      using s2(2) unfolding call_done_def by simp_all
    obtain s3 where s3: "fly_sched_uninit s2 = Some (0, s3)" "os_blocks (s_os s3) = ?B" "os_threads (s_os s3) = ?T" "boot_frame s2 s3"
      using sched_uninit_run [OF sched_up_frame [OF up(1) d(6)] d(1)] by blast
    have "jobs s3 = jobs s2" "batches s3 = batches s2" "tasks s3 = tasks s2" "calls s3 = calls s2"
      using s3(4) by (simp_all add: boot_frame_def)
    then show ?thesis
      using i(1,2) True s2(1) s3(1-3) d(2-5) b(1-4)
      by (intro exI [of _ 0] exI [of _ "map (fst \<circ> ?f) xs"] exI [of _ "l1\<lparr>lib_sched := s3\<rparr>"] exI [of _ s3])
        (simp add: session_def fly_uninit_def)
  qed
qed

text \<open>A client on thread 9, and an operating system that grants everything.\<close>

definition home_os :: os where
  "home_os = lucky_os\<lparr>os_calls := 10, os_threads := {9}\<rparr>"

definition home_lib :: fly_lib where
  "home_lib = \<lparr>lib_malloc = DefaultFunc, lib_free = DefaultFunc, lib_sched = fresh_sched home_os\<rparr>"

lemma home_bootable: "bootable (fresh_sched home_os) (\<lambda>p. if p \<in> {} then Some [] else None) 2"
proof -
  have "os_ok home_os" "os_errno home_os \<noteq> 0" "workers_granted home_os (nat 2)"
    by (simp_all add: os_ok_def home_os_def lucky_os_def workers_granted_def starts_granted_def)
  moreover have "malloc_ok (fresh_sched home_os) p" "sem_ok (fresh_sched home_os) p" for p
    by (simp_all add: fresh_sched_def small_sched_def)
  ultimately show ?thesis using fresh_sched_ok [of home_os] by (simp add: bootable_def startable_def)
qed

lemma home_init: "\<exists>l'. fly_simple_init home_lib 2 = Some (0, l')"
proof -
  have "\<exists>s'. fly_sched_init (fly_set_nbworkers (fresh_sched home_os) 2) = Some (0, s')"
    by (rule granted_init) (simp_all add: fly_set_nbworkers_def fresh_sched_ok home_os_def lucky_os_def)
  then show ?thesis
    by (auto simp: fly_simple_init_def fly_set_malloc_def fly_set_free_def home_lib_def Let_def)
qed

section \<open>Properties\<close>





end
