(* ===== verification/Fly_Outcomes.thy ===== *)
theory Fly_Outcomes
  imports Fly_Client
begin

text \<open>
  What a client's calls come to when memory may be refused at every point and the workers take any
  turns.  \<open>Fly_Client\<close> shows that with memory, and one turn per worker, every call returns and meets its
  specification; here each call that returns has met it or has had no effect (\<open>call_allowed\<close>).  A call that
  does not return is one whose job no turn finished (\<open>job_lost_without_memory\<close> gives a case), or a
  task's creation without memory, which is undefined.  The invariant \<open>partway\<close> follows a loop's job from
  turn to turn.
\<close>

section \<open>A worker's turn, if it comes back\<close>

text \<open>With no ready job and no running job a turn goes to sleep.\<close>

lemma idle_turn:
  assumes "sched_rep s E [] [] D" and "fly_schedule s t = Some s'"
  shows "sched_rep s' E [] [] D \<and> sched_frame s s' \<and> jobs s' = jobs s \<and> batches s' = batches s \<and> calls s' = calls s"
proof -
  obtain s1 where s1: "fly_sched_get_job s t = Some (NULL, s1)" "sched_frame s s1" "sched_rep s1 E [] [] D"
    "jobs s1 = jobs s" "batches s1 = batches s" "calls s1 = calls s"
    using get_job_running [OF assms(1) schedule_thread [OF assms(2)]] by auto
  then have "wait_work s1 t = Some s'" using assms(2) by (simp add: fly_schedule_def)
  then have w: "sched_frame s1 s'" "s' = s1\<lparr>workers := workers s'\<rparr>" using wait_work_crew by blast+
  have "sched_rep (s1\<lparr>workers := workers s'\<rparr>) E [] [] D"
    by (rule sched_rep_workers [OF s1(3)]) (rule sched_frame_simps(8) [OF w(1)])
  then have "sched_rep s' E [] [] D" using w(2) by argo
  moreover have "jobs s' = jobs s1" "batches s' = batches s1" "calls s' = calls s1" by (subst w(2), simp)+
  ultimately show ?thesis using s1(4-6) sched_frame_trans [OF s1(2) w(1)] by simp
qed

section \<open>A loop's job part way\<close>

text \<open>
  The scheduler \<open>s\<close> reached from \<open>s0\<close>, where the job was added: the batches not yet run are the
  calls missing to \<open>c\<close>.
\<close>

definition holding :: "fly_sched \<Rightarrow> (ptr \<rightharpoonup> ptr list) \<Rightarrow> ptr \<Rightarrow> ptr list \<Rightarrow> fly_job \<Rightarrow> ptr \<Rightarrow> call list \<Rightarrow>
    ptr list \<Rightarrow> ptr list \<Rightarrow> ptr list \<Rightarrow> fly_job \<Rightarrow> fly_job_batch list \<Rightarrow> fly_sched \<Rightarrow> bool" where
  "holding s0 E job es j f c R U D jj bs s \<longleftrightarrow>
     sched_rep s (E(job \<mapsto> es, ready_jobs s0 \<mapsto> R, running_jobs s0 \<mapsto> U, done_jobs s0 \<mapsto> D)) R U D \<and>
     sched_frame s0 s \<and> keeps job es s0 s \<and> job_holds s job jj es bs \<and> (\<forall>b \<in> set bs. batch_ok b) \<and>
     pfor_ok jj f \<and> batch_calls jj f = batch_calls j f \<and> j_recurse jj = j_recurse j \<and> c_ok (j_nbbatches jj) \<and>
     0 \<le> j_batches_done jj \<and> j_batches_done jj + int (length (todo bs)) = j_nbbatches jj \<and>
     calls s @ concat (map (batch_calls j f) (todo bs)) = c"

lemma holdingD:
  assumes "holding s0 E job es j f c R U D jj bs s"
  shows "sched_rep s (E(job \<mapsto> es, ready_jobs s0 \<mapsto> R, running_jobs s0 \<mapsto> U, done_jobs s0 \<mapsto> D)) R U D"
    and "sched_frame s0 s" and "keeps job es s0 s" and "job_holds s job jj es bs" and "\<forall>b \<in> set bs. batch_ok b"
    and "pfor_ok jj f" and "batch_calls jj f = batch_calls j f" and "j_recurse jj = j_recurse j" and "c_ok (j_nbbatches jj)"
    and "0 \<le> j_batches_done jj" and "j_batches_done jj + int (length (todo bs)) = j_nbbatches jj"
    and "calls s @ concat (map (batch_calls j f) (todo bs)) = c"
  using assms unfolding holding_def by blast+

text \<open>
  The job is ready, running, or (no memory for its entry) in neither queue; once its batches have run
  it is in no queue but the done queue at most, and its waiter has been posted.
\<close>

definition partway :: "fly_sched \<Rightarrow> (ptr \<rightharpoonup> ptr list) \<Rightarrow> ptr list \<Rightarrow> ptr \<Rightarrow> ptr list \<Rightarrow> fly_job \<Rightarrow> ptr \<Rightarrow> call list \<Rightarrow>
    fly_sched \<Rightarrow> bool" where
  "partway s0 E D0 job es j f c s \<longleftrightarrow> (\<exists>R U D jj bs. holding s0 E job es j f c R U D jj bs s \<and>
     (if todo bs = [] then R = [] \<and> U = [] \<and> (D = D0 \<or> D = D0 @ [job]) \<and> j_sem jj = Suc 0
      else (R, U) \<in> {([job], []), ([], [job]), ([], [])} \<and> D = D0 \<and> j_sem jj = 0))"


text \<open>The maps of the lists under the scheduler's own queues.\<close>

lemma queues_upd:
  assumes "sched_rep s E R U D" and "sched_frame s0 s"
  shows "ready_jobs s = ready_jobs s0" and "running_jobs s = running_jobs s0" and "done_jobs s = done_jobs s0"
    and "distinct [ready_jobs s0, running_jobs s0, done_jobs s0]"
  using sched_frame_simps [OF assms(2)] sched_repD(7) [OF assms(1)] by simp_all

lemma exec_partway:
  assumes "holding s0 E job es j f c [] U D jj bs s" and "not_queue s0 job" and "U = [job] \<or> U = []"
    and "todo bs \<noteq> []" and "j_sem jj = 0"
  shows "\<exists>s'. fly_sched_exec_job s job = Some (0, s') \<and> partway s0 E D job es j f c s'"
proof -
  note h = holdingD [OF assms(1)]
  let ?E = "E(job \<mapsto> es, ready_jobs s0 \<mapsto> [], running_jobs s0 \<mapsto> U, done_jobs s0 \<mapsto> D)"
  let ?j = "jj\<lparr>j_batches_done := j_batches_done jj + 1\<rparr>"
  note q = queues_upd [OF h(1,2)]
  have e: "?E job = Some es" using assms(2) by (simp add: not_queue_def)
  have "length es = length bs" using h(4) by (auto simp: job_holds_def dest: map_eq_imp_length_eq)
  then have "unclaimed es bs \<noteq> []" using unclaimed_none assms(4) unfolding todo_def by blast
  then obtain b0 rest where un: "unclaimed es bs = b0 # rest" by (cases "unclaimed es bs") auto
  have "length (todo bs) \<noteq> 0" using assms(4) by simp
  then have ok: "c_ok (j_batches_done jj + 1)" using h(9-11) unfolding c_ok_iff by linarith
  obtain s1 b bs1 where x: "fly_sched_exec_job s job = do { s \<leftarrow> finish_if_done s1 job; Some (0, s) }"
    "exec_frame s s1" "sched_rep s1 ?E [] U D" "\<forall>b \<in> set bs1. batch_ok b" "job_holds s1 job ?j es bs1"
    "todo bs = b # todo bs1" "calls s1 = calls s @ batch_calls jj f b" "keeps job es s s1"
    using exec_step [OF h(1) e h(4,6,5) un ok] by blast
  have g: "get_job s1 job = Some ?j" "job \<noteq> NULL" using x(5) by (simp_all add: job_holds_def get_job_iff)
  have f1: "sched_frame s0 s1" by (rule sched_frame_trans [OF h(2) exec_frame_frame [OF x(2)]])
  have k1: "keeps job es s0 s1" by (rule keeps_trans [OF h(3) x(8)])
  have c1: "calls s1 @ concat (map (batch_calls j f) (todo bs1)) = c" using h(7,12) x(6,7) by simp
  have n1: "j_batches_done ?j + int (length (todo bs1)) = j_nbbatches ?j" using h(11) x(6) by simp
  have p: "pfor_ok (?j\<lparr>j_state := x, j_sem := n\<rparr>) f = pfor_ok jj f"
    "batch_calls (?j\<lparr>j_state := x, j_sem := n\<rparr>) f = batch_calls jj f"
    "pfor_ok ?j f = pfor_ok jj f" "batch_calls ?j f = batch_calls jj f" for x n
    by (auto simp: pfor_ok_def batch_calls.simps intro!: ext)
  show ?thesis
  proof (cases "todo bs1 = []")
    case True
    then have d: "j_batches_done ?j = j_nbbatches ?j" using n1 by simp
    let ?k = "?j\<lparr>j_state := FLY_JOB_DONE, j_sem := Suc (j_sem ?j)\<rparr>"
    obtain s2 D' where s2: "finish_if_done s1 job = Some s2" "heap_step s1 s2" "batches s2 = batches s1"
      "D' = (if malloc_ok s1 (brk s1) then D @ [job] else D)" "jobs s2 = (jobs s1)(job \<mapsto> ?k)"
      "sched_rep s2 (?E(running_jobs s1 \<mapsto> remove1 job U, done_jobs s1 \<mapsto> D')) [] (remove1 job U) D'"
      using finish_done [OF x(3) g(1) d] by blast
    have u: "remove1 job U = []" using assms(3) by auto
    have "?E(running_jobs s1 \<mapsto> [], done_jobs s1 \<mapsto> D') =
        E(job \<mapsto> es, ready_jobs s0 \<mapsto> [], running_jobs s0 \<mapsto> [], done_jobs s0 \<mapsto> D')"
      using queues_upd [OF x(3) f1] by (intro ext) auto
    with s2(6) u have r2: "sched_rep s2 (E(job \<mapsto> es, ready_jobs s0 \<mapsto> [], running_jobs s0 \<mapsto> [], done_jobs s0 \<mapsto> D')) [] [] D'"
      by simp
    have "job_holds s2 job ?k es bs1" using x(5) s2(3,5) g(2) by (simp add: job_holds_def get_job_def)
    moreover have "keeps job es s0 s2" using k1 s2(3,5) by (simp add: keeps_def)
    moreover have "sched_frame s0 s2" by (rule sched_frame_trans [OF f1 heap_step_frame [OF s2(2)]])
    moreover have "calls s2 = calls s1" by (rule heap_step_simps(2) [OF s2(2)])
    ultimately have "holding s0 E job es j f c [] [] D' ?k bs1 s2"
      unfolding holding_def using r2 x(4) p h(6-10) c1 n1 by simp
    moreover have "D' = D \<or> D' = D @ [job]" "j_sem ?k = Suc 0" using s2(4) assms(5) by (auto split: if_splits)
    ultimately have "partway s0 E D job es j f c s2"
      unfolding partway_def using True
      by (intro exI [of _ "[]"] exI [of _ D'] exI [of _ ?k] exI [of _ bs1]) simp
    with x(1) s2(1) show ?thesis by simp
  next
    case False
    then have "j_batches_done ?j \<noteq> j_nbbatches ?j" using n1 by (cases "todo bs1") auto
    then have "fly_sched_exec_job s job = Some (0, s1)" using x(1) finish_not_done [OF g(1)] by simp
    moreover have "holding s0 E job es j f c [] U D ?j bs1 s1"
      unfolding holding_def using x(3-5) f1 k1 p h(6-10) c1 n1 by simp
    then have "partway s0 E D job es j f c s1"
      unfolding partway_def using False assms(3,5)
      by (intro exI [of _ "[]"] exI [of _ U] exI [of _ D] exI [of _ ?j] exI [of _ bs1]) auto
    ultimately show ?thesis by blast
  qed
qed

lemma partway_turn:
  assumes "partway s0 E D0 job es j f c s" and "not_queue s0 job" and "fly_schedule s t = Some s'"
  shows "partway s0 E D0 job es j f c s'"
proof -
  obtain R U D jj bs where v: "holding s0 E job es j f c R U D jj bs s"
    "if todo bs = [] then R = [] \<and> U = [] \<and> (D = D0 \<or> D = D0 @ [job]) \<and> j_sem jj = Suc 0
     else (R, U) \<in> {([job], []), ([], [job]), ([], [])} \<and> D = D0 \<and> j_sem jj = 0"
    using assms(1) unfolding partway_def by blast
  note h = holdingD [OF v(1)]
  let ?E = "\<lambda>R U. E(job \<mapsto> es, ready_jobs s0 \<mapsto> R, running_jobs s0 \<mapsto> U, done_jobs s0 \<mapsto> D)"
  note q = queues_upd [OF h(1,2)]
  have t: "get_wt s t \<noteq> None" by (rule schedule_thread [OF assms(3)])
  have g: "get_job s job = Some jj" "job \<noteq> NULL" using h(4) by (simp_all add: job_holds_def get_job_iff)
  have run: "partway s0 E D0 job es j f c s'"
    if a: "fly_sched_get_job s t = Some (job, s1)" "sched_frame s s1" "sched_rep s1 (?E [] U1) [] U1 D" "U1 = [job] \<or> U1 = []"
      "jobs s1 = (jobs s)(job \<mapsto> jj\<lparr>j_state := x\<rparr>)" "batches s1 = batches s" "calls s1 = calls s" "todo bs \<noteq> []"
    for s1 U1 x
  proof -
    let ?j = "jj\<lparr>j_state := x\<rparr>"
    have "job_holds s1 job ?j es bs" using h(4) a(5,6) g(2) by (simp add: job_holds_def get_job_def)
    moreover have "keeps job es s0 s1" using h(3) a(5,6) by (simp add: keeps_def)
    moreover have "sched_frame s0 s1" by (rule sched_frame_trans [OF h(2) a(2)])
    moreover have "pfor_ok ?j f = pfor_ok jj f" "batch_calls ?j f = batch_calls jj f"
      by (auto simp: pfor_ok_def batch_calls.simps intro!: ext)
    ultimately have "holding s0 E job es j f c [] U1 D ?j bs s1"
      unfolding holding_def using a(3,7) h(5-12) by simp
    moreover have "D = D0" "j_sem ?j = 0" using v(2) a(8) by simp_all
    ultimately obtain s2 where "fly_sched_exec_job s1 job = Some (0, s2)" "partway s0 E D0 job es j f c s2"
      using exec_partway [OF _ assms(2) a(4,8)] by metis
    then show ?thesis using assms(3) a(1) g(2) by (simp add: fly_schedule_def)
  qed
  have idle: "partway s0 E D0 job es j f c s'" if a: "R = []" "U = []"
  proof -
    have "sched_rep s (?E [] []) [] [] D" using h(1) a by simp
    from idle_turn [OF this assms(3)] have i: "sched_rep s' (?E [] []) [] [] D" "sched_frame s s'" "jobs s' = jobs s"
      "batches s' = batches s" "calls s' = calls s" by simp_all
    have "sched_frame s0 s'" by (rule sched_frame_trans [OF h(2) i(2)])
    moreover have "job_holds s' job jj es bs" using job_holds_cong [OF h(4)] i(3,4) by simp
    moreover have "keeps job es s0 s'" using h(3) i(3,4) by (simp add: keeps_def)
    ultimately have "holding s0 E job es j f c R U D jj bs s'"
      unfolding holding_def using i(1,5) h(5-12) a by simp
    with v(2) show ?thesis unfolding partway_def by blast
  qed
  consider "R = []" "U = []" | "R = [job]" "U = []" "todo bs \<noteq> []" | "R = []" "U = [job]" "todo bs \<noteq> []"
    using v(2) by (auto split: if_splits)
  then show ?thesis
  proof cases
    case 1
    then show ?thesis by (rule idle)
  next
    case 2
    let ?U = "if malloc_ok s (brk s) then U @ [job] else U"
    have r: "sched_rep s (?E [job] []) ([] @ [job]) [] D" using h(1) 2 by simp
    have ty: "is_pfor_type (j_jtype jj)" using h(6) by (simp add: pfor_ok_def)
    obtain s1 where s1: "fly_sched_get_job s t = Some (job, s1)" "sched_frame s s1"
      "sched_rep s1 ((?E [job] [])(ready_jobs s \<mapsto> [], running_jobs s \<mapsto> ?U)) [] ?U D"
      "jobs s1 = (jobs s)(job \<mapsto> jj\<lparr>j_state := FLY_JOB_RUNNING\<rparr>)" "batches s1 = batches s" "calls s1 = calls s"
      using get_job_ready_pfor [OF r t g(1) ty refl] 2(2) by auto
    have "(?E [job] [])(ready_jobs s \<mapsto> [], running_jobs s \<mapsto> ?U) = ?E [] ?U"
      using q by (intro ext) auto
    with s1(3) have "sched_rep s1 (?E [] ?U) [] ?U D" by (simp only:)
    moreover have "?U = [job] \<or> ?U = []" using 2(2) by simp
    ultimately show ?thesis using run [OF s1(1,2) _ _ s1(4-6) 2(3)] by blast
  next
    case 3
    have r: "sched_rep s (?E [] [job]) [] [job] D" using h(1) 3 by simp
    have "\<forall>x \<in> set [job]. get_job s x \<noteq> None" using g(1) by simp
    then obtain s1 where s1: "fly_sched_get_job s t = Some (job, s1)" "sched_frame s s1"
      "sched_rep s1 (?E [] [job]) [] [job] D" "jobs s1 = jobs s" "batches s1 = batches s" "calls s1 = calls s"
      using get_job_running [OF r t] by auto
    have "jobs s1 = (jobs s)(job \<mapsto> jj\<lparr>j_state := j_state jj\<rparr>)" using s1(4) g by (auto simp: get_job_iff)
    then show ?thesis using run [OF s1(1-3) _ _ s1(5,6) 3(3)] by blast
  qed
qed

lemma partway_turns:
  "partway s0 E D0 job es j f c s \<Longrightarrow> not_queue s0 job \<Longrightarrow> turns s ts = Some s' \<Longrightarrow> partway s0 E D0 job es j f c s'"
proof (induction ts arbitrary: s)
  case Nil
  then show ?case by simp
next
  case (Cons t ts)
  from Cons.prems(3) obtain s1 where "fly_schedule s t = Some s1" "turns s1 ts = Some s'"
    by (auto split: bind_splits)
  then show ?case using Cons.IH [OF partway_turn [OF Cons.prems(1,2)]] Cons.prems(2) by blast
qed

text \<open>Only a finished job's waiter comes back; then every call has been made.\<close>

lemma partway_wait:
  assumes "partway s0 E D0 job es j f c s" and "job \<notin> set D0" and "fly_wait_job s job = Some (err, s')"
  shows "\<exists>jj bs. err = 0 \<and> sched_rep s' (E(job \<mapsto> es, ready_jobs s0 \<mapsto> [], running_jobs s0 \<mapsto> [], done_jobs s0 \<mapsto> D0)) [] [] D0 \<and>
    calls s' = c \<and> sched_frame s0 s' \<and> keeps job es s0 s' \<and> job_holds s' job jj es bs"
proof -
  obtain R U D jj bs where v: "holding s0 E job es j f c R U D jj bs s"
    "if todo bs = [] then R = [] \<and> U = [] \<and> (D = D0 \<or> D = D0 @ [job]) \<and> j_sem jj = Suc 0
     else (R, U) \<in> {([job], []), ([], [job]), ([], [])} \<and> D = D0 \<and> j_sem jj = 0"
    using assms(1) unfolding partway_def by blast
  note h = holdingD [OF v(1)]
  have g: "get_job s job = Some jj" "job \<noteq> NULL" using h(4) by (simp_all add: job_holds_def get_job_iff)
  have "j_sem jj \<noteq> 0" by (rule notI) (use assms(3) g(1) in \<open>simp add: fly_wait_job_def fly_sem_notrack_wait_def\<close>)
  with v(2) have w: "todo bs = []" "R = []" "U = []" "D = D0 \<or> D = D0 @ [job]" "j_sem jj = Suc 0"
    by (auto split: if_splits)
  let ?E = "\<lambda>D. E(job \<mapsto> es, ready_jobs s0 \<mapsto> [], running_jobs s0 \<mapsto> [], done_jobs s0 \<mapsto> D)"
  let ?s = "\<lambda>h. (put_job s job (jj\<lparr>j_sem := 0\<rparr>))\<lparr>nodes := h\<rparr>"
  have r: "sched_rep s (?E D) [] [] D" using h(1) w(2,3) by simp
  obtain x where x: "fly_wait_job s job = Some (0, ?s x)"
    "sched_rep (?s x) ((?E D)(done_jobs s \<mapsto> remove1 job D)) [] [] (remove1 job D)"
    using wait_job_run [OF r g(1) w(5)] by auto
  have D: "remove1 job D = D0" using w(4) assms(2) by (auto simp: remove1_append remove1_idem)
  have "(?E D)(done_jobs s \<mapsto> D0) = ?E D0" using queues_upd [OF h(1,2)] by simp
  with x(2) D have "sched_rep (?s x) (?E D0) [] [] D0" by simp
  moreover have "job_holds (?s x) job (jj\<lparr>j_sem := 0\<rparr>) es bs"
    using h(4) g(2) by (simp add: job_holds_def get_job_def put_job_def)
  moreover have "keeps job es s0 (?s x)" using h(3) by (simp add: keeps_def put_job_def)
  moreover have "sched_frame s (?s x)"
    by (rule sched_frame_trans [OF heap_step_frame heap_step_frame], rule heap_step_nodes(3), rule heap_step_nodes(1))
  then have "sched_frame s0 (?s x)" by (rule sched_frame_trans [OF h(2)])
  moreover have "calls (?s x) = c" using h(12) w(1) by simp
  ultimately show ?thesis using x(1) assms(3)
    by (intro exI [of _ "jj\<lparr>j_sem := 0\<rparr>"] exI [of _ bs]) simp
qed


section \<open>Adding a job and waiting for it, whatever happens\<close>

lemma added_partway:
  assumes "sched_rep s E [] [] D" and "addable s E job j js je" and "pfor_ok j f" and "j_batches_done j = 0" and "j_sem j = 0"
    and "fly_sched_add_job s job = Some (0, s1)"
  shows "\<exists>es. partway s1 E D job es j f (calls s @ map (pfor_call j f) [js..js + max (je - js) (nbworkers s) - 1]) s1 \<and>
    sched_frame s s1 \<and> (\<forall>p. p \<noteq> job \<longrightarrow> jobs s1 p = jobs s p) \<and> batches s1 |` (- set es) = batches s"
proof -
  let ?nb = "nbworkers s" and ?plan = "batch_plan job js (je - js) (nbworkers s)" and ?r = "ready_job j (nbworkers s)"
  have a: "not_queue s job" "batch_range_ok js je ?nb" using assms(2) by (simp_all add: addable_def)
  then have nb: "0 < ?nb" "c_ok ?nb" "0 \<le> je - js" by (simp_all add: batch_range_ok_def)
  obtain es where s1: "sched_frame s s1" "calls s1 = calls s" "\<forall>p. p \<noteq> job \<longrightarrow> jobs s1 p = jobs s p"
    "sched_rep s1 (E(job \<mapsto> es, ready_jobs s \<mapsto> [job])) [job] [] D" "job_holds s1 job ?r es ?plan"
    "batches s1 |` (- set es) = batches s"
    using add_job_run [OF assms(1,2)] assms(6) by auto
  note f = sched_frame_simps [OF s1(1)] and d = sched_repD [OF assms(1)]
  have "E(job \<mapsto> es, ready_jobs s \<mapsto> [job]) = E(job \<mapsto> es, ready_jobs s1 \<mapsto> [job], running_jobs s1 \<mapsto> [], done_jobs s1 \<mapsto> D)"
    using d(5-7) a(1) f(2,4,5) by (intro ext) (auto simp: not_queue_def)
  with s1(4) have r: "sched_rep s1 (E(job \<mapsto> es, ready_jobs s1 \<mapsto> [job], running_jobs s1 \<mapsto> [], done_jobs s1 \<mapsto> D)) [job] [] D"
    by simp
  have t: "todo ?plan = ?plan" by (rule plan_todo [OF nb(1)])
  have n: "int (length (todo ?plan)) = ?nb" "todo ?plan \<noteq> []" unfolding t using plan_length [OF nb(1), of job js "je - js"] nb(1) by auto
  have "calls s1 @ concat (map (batch_calls j f) (todo ?plan)) =
      calls s @ map (pfor_call j f) [js..js + max (je - js) ?nb - 1]"
    unfolding t batch_calls_plan plan_covers [OF nb(1,3)] s1(2) by (rule refl)
  moreover have "batch_calls ?r f = batch_calls j f" "pfor_ok ?r f = pfor_ok j f"
    by (auto simp: batch_calls.simps pfor_ok_def ready_job_def intro!: ext)
  moreover have "keeps job es s1 s1" by (simp add: keeps_def)
  ultimately have "holding s1 E job es j f (calls s @ map (pfor_call j f) [js..js + max (je - js) ?nb - 1]) [job] [] D ?r ?plan s1"
    unfolding holding_def using r s1(5) plan_batch_ok [OF a(2)] assms(3,4) nb(2) n(1) by (simp add: ready_job_def)
  moreover have "j_sem ?r = 0" using assms(5) by (simp add: ready_job_def)
  ultimately have "partway s1 E D job es j f (calls s @ map (pfor_call j f) [js..js + max (je - js) ?nb - 1]) s1"
    unfolding partway_def using n(2)
    by (intro exI [of _ "[job]"] exI [of _ "[]"] exI [of _ D] exI [of _ ?r] exI [of _ ?plan]) simp
  with s1(1,3,6) show ?thesis by blast
qed

text \<open>Success with every call made, or \<^verbatim>\<open>FLYENORES\<close> with none; the scheduler is as before.\<close>

definition all_or_none :: "fly_sched \<Rightarrow> (ptr \<rightharpoonup> ptr list) \<Rightarrow> ptr list \<Rightarrow> call list \<Rightarrow> int \<Rightarrow> fly_sched \<Rightarrow> bool" where
  "all_or_none s E D c err s' \<longleftrightarrow> sched_rep s' E [] [] D \<and> jobs s' = jobs s \<and> batches s' = batches s \<and> sched_frame s s' \<and>
     (err = 0 \<and> calls s' = calls s @ c \<or> err = fly_err FLYENORES \<and> calls s' = calls s)"

lemma add_job_outcomes:
  assumes "sched_rep s E [] [] D" and "client_thread s self"
    and "is_pfor_type (j_jtype j)" and "pfor_ok j f" and "j_start j = Some js" and "j_end j = Some je"
    and "batch_range_ok js je (nbworkers s)" and "j_batches_done j = 0" and "j_sem j = 0" and "j_recurse j = 0"
    and "brk s \<notin> set D"
    and "fly_add_job_and_wait (with_job s j) self (brk s) True ts = Some (err, s1)" and "fly_destroy_job s1 (brk s) = Some s2"
  shows "all_or_none s E D (map (pfor_call j f) [js..js + max (je - js) (nbworkers s) - 1]) err s2"
proof (cases "err = 0")
  case False
  from failed_add_restores [OF assms(1-3,5-7,12) this] assms(13) show ?thesis by (simp add: all_or_none_def)
next
  case True
  let ?s = "with_job s j" and ?job = "brk s" and ?c = "map (pfor_call j f) [js..js + max (je - js) (nbworkers s) - 1]"
  note w = with_job_rep(1) [OF assms(1), of j] with_job_rep(2) [OF assms(1)] with_job_rep(3,4) [OF assms(1), of j]
    with_job_rep(5) [OF assms(1)]
  have a: "addable ?s (E(?job \<mapsto> [])) ?job j js je"
    using w(3,4) assms(3,5-7) by (simp add: addable_def)
  have "fly_sched_get_wthread ?s self = Some None"
    using wthread_none [OF sched_repD(8) [OF w(1)]] assms(2) by (simp add: client_thread_def)
  then obtain e s3 where e: "fly_sched_add_job ?s ?job = Some (e, s3)"
    "if FLY_SUCCEEDED e then Option.bind (turns s3 ts) (\<lambda>s. Option.bind (get_job s ?job) (\<lambda>j.
       Option.bind (if j_recurse j > 0 then recurse_loop s ?job else Some s) (\<lambda>s. fly_wait_job s ?job))) = Some (err, s1)
     else e = err"
    using assms(12) by (auto simp: fly_add_job_and_wait_def split: bind_splits if_splits)
  then have e0: "e = 0" using True by (auto split: if_splits)
  obtain es where p: "partway s3 (E(?job \<mapsto> [])) D ?job es j f (calls s @ ?c) s3"
    "sched_frame ?s s3" "\<forall>p. p \<noteq> ?job \<longrightarrow> jobs s3 p = jobs ?s p" "batches s3 |` (- set es) = batches s"
    using added_partway [OF w(1) a assms(4,8,9)] e(1) e0 by auto
  have nq: "not_queue s3 ?job" using w(3) sched_frame_simps [OF p(2)] by (simp add: not_queue_def)
  obtain s4 j4 where s4: "turns s3 ts = Some s4" "get_job s4 ?job = Some j4"
    "Option.bind (if j_recurse j4 > 0 then recurse_loop s4 ?job else Some s4) (\<lambda>s. fly_wait_job s ?job) = Some (err, s1)"
    using e(2) e0 by (auto simp: bind_eq_Some_conv)
  note p4 = partway_turns [OF p(1) nq s4(1)]
  have "j_recurse j4 = 0"
    using p4 s4(2) assms(10) unfolding partway_def holding_def job_holds_def by auto
  then have "fly_wait_job s4 ?job = Some (err, s1)" using s4(3) by simp
  from partway_wait [OF p4 assms(11) this] obtain j5 bs where q:
    "sched_rep s1 (E(?job \<mapsto> [], ?job \<mapsto> es, ready_jobs s3 \<mapsto> [], running_jobs s3 \<mapsto> [], done_jobs s3 \<mapsto> D)) [] [] D"
    "calls s1 = calls s @ ?c" "sched_frame s3 s1" "keeps ?job es s3 s1" "job_holds s1 ?job j5 es bs" by blast
  have "E(?job \<mapsto> [], ?job \<mapsto> es, ready_jobs s3 \<mapsto> [], running_jobs s3 \<mapsto> [], done_jobs s3 \<mapsto> D) = E(?job \<mapsto> es)"
    using sched_repD(4-7) [OF w(1)] sched_frame_simps [OF p(2)] w(3)
    by (intro ext) (auto simp: not_queue_def)
  with q(1) have r1: "sched_rep s1 (E(?job \<mapsto> es)) [] [] D" by (simp only:)
  have n1: "not_queue s1 ?job" using nq sched_frame_simps [OF q(3)] by (simp add: not_queue_def)
  have j1: "\<forall>p. p \<noteq> ?job \<longrightarrow> jobs s1 p = jobs s p" using q(4) p(3) by (simp add: keeps_def with_job_def)
  have "batches s1 |` (- set es) = batches s3 |` (- set es)"
    using q(4) by (intro ext) (simp add: keeps_def restrict_map_def)
  with p(4) have b1: "batches s1 |` (- set es) = batches s" by simp
  obtain s2' where "fly_destroy_job s1 ?job = Some s2'" "sched_rep s2' E [] [] D" "jobs s2' = jobs s" "batches s2' = batches s"
    "calls s2' = calls s1" "sched_frame s1 s2'"
    using destroy_restores [where E = E and s = s, OF r1 w(2) q(5) n1 j1 w(5) b1] by blast
  moreover from this have "sched_frame s s2'"
    by (intro sched_frame_trans [OF sched_frame_trans [OF sched_frame_trans [OF sched_frame_with_job p(2)] q(3)]])
  ultimately show ?thesis using assms(13) True q(2) by (simp add: all_or_none_def)
qed


section \<open>Each call of the client\<close>

lemma refused_all_or_none:
  assumes "sched_rep s E [] [] D"
  shows "all_or_none s E D c (fly_err FLYENORES) (s\<lparr>brk := Suc (brk s)\<rparr>)" and "all_or_none s E D c (fly_err FLYENORES) s"
proof -
  have "sched_frame s (s\<lparr>brk := Suc (brk s)\<rparr>)" by (rule sched_frameI) simp_all
  then show "all_or_none s E D c (fly_err FLYENORES) (s\<lparr>brk := Suc (brk s)\<rparr>)"
    using sched_rep_brk [OF assms] by (simp add: all_or_none_def)
  show "all_or_none s E D c (fly_err FLYENORES) s" using assms by (simp add: all_or_none_def)
qed

lemma parallel_for_any:
  assumes "sched_rep s E [] [] D" and "client_thread s self" and "batch_range_ok 0 count (nbworkers s)" and "brk s \<notin> set D"
    and "fly_parallel_for s self count f p ts = Some (err, s')"
  shows "all_or_none s E D (map (\<lambda>i. PForCall f i p) [0..max count (nbworkers s) - 1]) err s'"
proof (cases "malloc_ok s (brk s) \<and> sem_ok s (brk s)")
  case False
  with assms(5) have "err = fly_err FLYENORES" "s' = s\<lparr>brk := Suc (brk s)\<rparr>"
    using create_pfor_fails [OF False] by (simp_all add: fly_parallel_for_def)
  then show ?thesis using refused_all_or_none(1) [OF assms(1)] by simp
next
  case True
  let ?j = "pfor_job count f p"
  have brk: "0 < brk s" using sched_repD(3) [OF assms(1)] by (auto simp: job_mem_ok_def node_mem_ok_def)
  have "fly_create_job_pfor s count f p = (brk s, with_job s ?j)" using create_pfor_sched [OF brk] True by blast
  then obtain s1 where s1: "fly_add_job_and_wait (with_job s ?j) self (brk s) True ts = Some (err, s1)"
    "fly_destroy_job s1 (brk s) = Some s'"
    using assms(5) brk by (auto simp: fly_parallel_for_def split: bind_splits)
  have j: "is_pfor_type (j_jtype ?j)" "pfor_ok ?j f" "j_start ?j = Some 0" "j_end ?j = Some count"
    by (simp_all add: pfor_job_def is_pfor_type_def pfor_ok_def jtype_defs)
  have z: "j_batches_done ?j = 0" "j_sem ?j = 0" "j_recurse ?j = 0" by (simp_all add: pfor_job_def)
  have "pfor_call ?j f = (\<lambda>i. PForCall f i p)" by (intro ext) (simp add: pfor_call_def pfor_job_def)
  with add_job_outcomes [OF assms(1,2) j assms(3) z assms(4) s1] show ?thesis by simp
qed

lemma create_pfarr_fails:
  assumes "c_ok (e - b)" and "\<not> (malloc_ok s (brk s) \<and> sem_ok s (brk s))"
  shows "\<exists>s'. fly_create_job_pfarr s b e f arr el = Some (NULL, s') \<and> (s' = s \<or> s' = s\<lparr>brk := Suc (brk s)\<rparr>)"
  using assms by (auto simp: fly_create_job_pfarr_def fly_malloc_def c_sub_def)

lemma parallel_for_arr_any:
  assumes "sched_rep s E [] [] D" and "client_thread s self" and "b < e" and "batch_range_ok b e (nbworkers s)" and "brk s \<notin> set D"
    and "fly_parallel_for_arr s self b e f arr el ts = Some (err, s')"
  shows "all_or_none s E D (map (\<lambda>i. PForCall f i (elem_addr arr i el)) [b..b + max (e - b) (nbworkers s) - 1]) err s'"
proof (cases "malloc_ok s (brk s) \<and> sem_ok s (brk s)")
  case False
  have "c_ok (e - b)" using assms(4) by (simp add: batch_range_ok_def)
  from create_pfarr_fails [OF this False, of f arr el] assms(6)
  have "err = fly_err FLYENORES" "s' = s \<or> s' = s\<lparr>brk := Suc (brk s)\<rparr>" by (auto simp: fly_parallel_for_arr_def)
  then show ?thesis using refused_all_or_none [OF assms(1)] by auto
next
  case True
  let ?j = "pfarr_job b e f arr el"
  have brk: "0 < brk s" using sched_repD(3) [OF assms(1)] by (auto simp: job_mem_ok_def node_mem_ok_def)
  have "c_ok (e - b)" using assms(4) by (simp add: batch_range_ok_def)
  then have "fly_create_job_pfarr s b e f arr el = Some (brk s, with_job s ?j)"
    using create_pfarr_sched [OF brk _ _ _ assms(3)] True by blast
  then obtain s1 where s1: "fly_add_job_and_wait (with_job s ?j) self (brk s) True ts = Some (err, s1)"
    "fly_destroy_job s1 (brk s) = Some s'"
    using assms(6) brk by (auto simp: fly_parallel_for_arr_def split: bind_splits)
  have j: "is_pfor_type (j_jtype ?j)" "pfor_ok ?j f" "j_start ?j = Some b" "j_end ?j = Some e"
    by (simp_all add: pfarr_job_def is_pfor_type_def pfor_ok_def jtype_defs)
  have z: "j_batches_done ?j = 0" "j_sem ?j = 0" "j_recurse ?j = 0" by (simp_all add: pfarr_job_def)
  have "pfor_call ?j f = (\<lambda>i. PForCall f i (elem_addr arr i el))"
    by (intro ext) (simp add: pfor_call_def pfarr_job_def jtype_defs)
  with add_job_outcomes [OF assms(1,2) j assms(4) z assms(5) s1] show ?thesis by simp
qed

lemma all_or_none_done:
  assumes "all_or_none s E [] c err s'"
  shows "call_done s E c s' \<and> err = 0 \<or> call_done s E [] s' \<and> err = fly_err FLYENORES"
proof -
  have f: "sched_frame s s'" using assms by (simp add: all_or_none_def)
  show ?thesis
    using assms sched_client_frame [OF f] sched_frame_simps(6) [OF f] by (auto simp: all_or_none_def call_done_def)
qed

text \<open>The job's allocation, its semaphore and its queue entry may each be refused; a turn then runs the task.\<close>

lemma run_task_any:
  assumes "sched_rep s E [] [] []" and "client_thread s self" and "run_task s self f p w = Some (r, s')"
  shows "r = Value (task_fun s f p) \<and> call_done s E [TaskCall f p] s' \<or> r = Code (fly_err FLYENORES) \<and> call_done s E [] s'"
proof -
  let ?k = "brk s" and ?t = "\<lparr>tk_func = f, tk_param = p, tk_result = None, tk_sched_data = NULL\<rparr>"
  let ?u = "s\<lparr>brk := Suc ?k\<rparr>" and ?T = "(tasks s)(brk s \<mapsto> \<lparr>tk_func = f, tk_param = p, tk_result = None, tk_sched_data = NULL\<rparr>)"
  let ?s = "?u\<lparr>calls := calls s, tasks := ?T\<rparr>"
  have k: "?k \<noteq> NULL" using sched_repD(3) [OF assms(1)] by (auto simp: job_mem_ok_def node_mem_ok_def)
  have c: "fly_create_task s f p = Some (?k, ?s)"
    using assms(3) k by (auto simp: run_task_def fly_create_task_def fly_malloc_def put_task_def split: if_splits)
  have rep: "sched_rep ?s E [] [] []" by (rule sched_rep_task [OF sched_rep_brk [OF assms(1)]])
  have q: "client_thread ?s self" "get_task ?s ?k = Some ?t"
    using assms(2) k by (simp_all add: client_thread_def get_task_iff)
  have fs: "client_frame s ?s"
    by (rule client_frame_trans [OF sched_client_frame client_frame_task(1)], rule sched_frameI) simp_all
  have gone: "call_done s E d (x\<lparr>tasks := (tasks x)(?k := None)\<rparr>)"
    if "sched_rep x E [] [] []" "jobs x = jobs ?s" "batches x = batches ?s" "client_frame ?s x" "calls x = calls s @ d"
      "tasks x = (tasks ?s)(?k \<mapsto> y)" for x y d
  proof -
    let ?x = "x\<lparr>tasks := (tasks x)(?k := None)\<rparr>"
    have "sched_rep ?x E [] [] []" using sched_rep_task [OF that(1), where c = "calls x"] by simp
    moreover have "client_frame s ?x"
      using client_frame_trans [OF client_frame_trans [OF fs that(4)] client_frame_task(1) [where s = x and c = "calls x"]] by simp
    moreover have "tasks ?x \<subseteq>\<^sub>m tasks s" using that(6) by (simp add: map_le_def)
    ultimately show ?thesis using that(2,3,5) by (simp add: call_done_def)
  qed
  obtain err s1 where s1: "fly_push_task ?s self ?k = Some (err, s1)" "calls s1 = calls ?s" "batches s1 = batches ?s"
    "client_frame ?s s1"
    "if FLY_SUCCEEDED err
     then sched_rep s1 (E(brk ?s \<mapsto> [], ready_jobs ?s \<mapsto> [] @ [brk ?s])) ([] @ [brk ?s]) [] [] \<and>
       jobs s1 = (jobs ?s)(brk ?s \<mapsto> task_job (tk_func ?t) ?k) \<and> tasks s1 = (tasks ?s)(?k \<mapsto> ?t\<lparr>tk_sched_data := brk ?s\<rparr>) \<and>
       workers s1 = map fly_worker_work_available (workers ?s)
     else err = fly_err FLYENORES \<and> sched_rep s1 E [] [] [] \<and> jobs s1 = jobs ?s \<and> workers s1 = workers ?s \<and>
       (\<exists>d. tasks s1 = (tasks ?s)(?k \<mapsto> ?t\<lparr>tk_sched_data := d\<rparr>))"
    using push_task_any [OF rep q] by blast
  show ?thesis
  proof (cases "err = 0")
    case False
    then obtain d where d: "err = fly_err FLYENORES" "sched_rep s1 E [] [] []" "jobs s1 = jobs ?s"
      "tasks s1 = (tasks ?s)(?k \<mapsto> ?t\<lparr>tk_sched_data := d\<rparr>)" using s1(5) by auto
    have "get_task s1 ?k \<noteq> None" using d(4) k by (simp add: get_task_iff)
    then have "run_task s self f p w = Some (Code err, s1\<lparr>tasks := (tasks s1)(?k := None)\<rparr>)"
      using c s1(1) False k by (auto simp: run_task_def fly_destroy_task_def)
    then show ?thesis using assms(3) d(1) gone [OF d(2,3) s1(3,4) _ d(4), of "[]"] s1(2) by simp
  next
    case True
    let ?job = "brk ?s" and ?u1 = "?t\<lparr>tk_sched_data := brk ?s\<rparr>"
    have v: "sched_rep s1 (E(?job \<mapsto> [], ready_jobs ?s \<mapsto> [?job])) [?job] [] []"
      "jobs s1 = (jobs ?s)(?job \<mapsto> task_job (tk_func ?u1) ?k)" "tasks s1 = (tasks ?s)(?k \<mapsto> ?u1)"
      using s1(5) True by simp_all
    note w = with_job_rep(2,5) [OF rep] and f1 = client_frame_simps [OF s1(4)]
    have x: "sched_rep s1 (E(?job \<mapsto> [], ready_jobs s1 \<mapsto> [?job])) [?job] [] []" "get_task s1 ?k = Some ?u1"
      "E (ready_jobs s1) = Some []" "not_queue s1 ?job" "tk_sched_data ?u1 = ?job" "?job \<notin> set []" "?job \<noteq> NULL"
      using v sched_repD(4-6) [OF rep] w(1) k f1(2,4,5) by (auto simp: get_task_iff not_queue_def)
    obtain e2 s2 where "fly_wait_task s1 ?k [w] = Some (e2, s2)"
      using assms(3) c s1(1) True by (auto simp: run_task_def split: bind_splits)
    then have "get_wt s1 w \<noteq> None"
      using x(2,5,7) by (auto simp: fly_wait_task_def dest: schedule_thread split: bind_splits)
    from pushed_task_waited [OF x(1) v(2) x(2,5) w(2,1) x(3,6,7,4) this] obtain s2 where
      s2: "fly_wait_task s1 ?k [w] = Some (0, s2)" "sched_rep s2 E [] [] []" "jobs s2 = jobs ?s" "batches s2 = batches s1"
      "client_frame s1 s2" "calls s2 = calls s1 @ [TaskCall (tk_func ?u1) (tk_param ?u1)]"
      "tasks s2 = (tasks s1)(?k \<mapsto> ?u1\<lparr>tk_result := Some (task_fun s1 (tk_func ?u1) (tk_param ?u1))\<rparr>)" by blast
    have tf: "task_fun s1 = task_fun s" using f1(6) by simp
    have t2: "tasks s2 = (tasks ?s)(?k \<mapsto> ?u1\<lparr>tk_result := Some (task_fun s f p)\<rparr>)" using s2(7) v(3) tf by simp
    then have "get_task s2 ?k = Some (?u1\<lparr>tk_result := Some (task_fun s f p)\<rparr>)" using k by (simp add: get_task_iff)
    then have "run_task s self f p w = Some (Value (task_fun s f p), s2\<lparr>tasks := (tasks s2)(?k := None)\<rparr>)"
      using c s1(1) True s2(1) k by (simp add: run_task_def fly_destroy_task_def fly_get_task_result_def)
    moreover have "call_done s E [TaskCall f p] (s2\<lparr>tasks := (tasks s2)(?k := None)\<rparr>)"
      by (rule gone [OF s2(2,3) _ _ _ t2]) (use s2(4,6) s1(2,3) client_frame_trans [OF s1(4) s2(5)] in simp_all)
    ultimately show ?thesis using assms(3) by simp
  qed
qed


section \<open>The client's program\<close>

text \<open>What a call may come to: what its specification says, or \<^verbatim>\<open>FLYENORES\<close> and no call.\<close>

definition call_allowed :: "(ptr \<Rightarrow> ptr \<Rightarrow> ptr) \<Rightarrow> int \<Rightarrow> client_call \<Rightarrow> client_res \<times> call list \<Rightarrow> bool" where
  "call_allowed tf nb x a \<longleftrightarrow> a = call_spec tf nb x \<or> a = (Code (fly_err FLYENORES), [])"

text \<open>The loops' bounds fit an \<^verbatim>\<open>int\<close>; nothing is asked of the turns.\<close>

fun call_fits :: "int \<Rightarrow> client_call \<Rightarrow> bool" where
  "call_fits nb (ParallelFor count f p ts) \<longleftrightarrow> batch_range_ok 0 count nb"
| "call_fits nb (ParallelForArr b e f arr el ts) \<longleftrightarrow> c_ok (e - b) \<and> (b < e \<longrightarrow> batch_range_ok b e nb)"
| "call_fits nb (RunTask f p w) \<longleftrightarrow> True"

lemma client_step_any:
  assumes "sched_rep s E [] [] []" and "client_thread s self" and "call_fits (nbworkers s) x"
    and "client_step s self x = Some (r, s')"
  shows "\<exists>c. call_allowed (task_fun s) (nbworkers s) x (r, c) \<and> call_done s E c s'"
proof (cases x)
  case (ParallelFor count f p ts)
  then obtain err where e: "fly_parallel_for s self count f p ts = Some (err, s')" "r = Code err" using assms(4) by auto
  have "brk s \<notin> set []" "batch_range_ok 0 count (nbworkers s)" using assms(3) ParallelFor by simp_all
  from all_or_none_done [OF parallel_for_any [OF assms(1,2) this(2,1) e(1)]] e(2) ParallelFor show ?thesis
    by (auto simp: call_allowed_def)
next
  case (ParallelForArr b e f arr el ts)
  then obtain err where e: "fly_parallel_for_arr s self b e f arr el ts = Some (err, s')" "r = Code err" using assms(4) by auto
  show ?thesis
  proof (cases "b < e")
    case True
    then have "brk s \<notin> set []" "batch_range_ok b e (nbworkers s)" using assms(3) ParallelForArr by simp_all
    from all_or_none_done [OF parallel_for_arr_any [OF assms(1,2) True this(2,1) e(1)]] e(2) ParallelForArr True show ?thesis
      by (auto simp: call_allowed_def)
  next
    case False
    then have "err = fly_err FLYENORES" "s' = s"
      using e(1) empty_arr_fails [OF _ False] assms(3) ParallelForArr by auto
    then show ?thesis
      using e(2) call_done_refl [OF assms(1)] by (intro exI [of _ "[]"]) (simp add: call_allowed_def)
  qed
next
  case (RunTask f p w)
  then have "run_task s self f p w = Some (r, s')" using assms(4) by simp
  from run_task_any [OF assms(1,2) this] RunTask show ?thesis by (auto simp: call_allowed_def)
qed

lemma client_run_any:
  assumes "sched_rep s E [] [] []" and "client_thread s self" and "\<forall>x \<in> set xs. call_fits (nbworkers s) x"
    and "client_run s self xs = Some (rs, s')"
  shows "\<exists>as. rs = map fst as \<and> list_all2 (call_allowed (task_fun s) (nbworkers s)) xs as \<and>
    call_done s E (concat (map snd as)) s'"
  using assms
proof (induction xs arbitrary: s rs)
  case Nil
  then show ?case using call_done_refl by (intro exI [of _ "[]"]) simp
next
  case (Cons x xs)
  then obtain r s1 rs' where x: "client_step s self x = Some (r, s1)" "client_run s1 self xs = Some (rs', s')" "rs = r # rs'"
    by (auto split: bind_splits)
  obtain c where c: "call_allowed (task_fun s) (nbworkers s) x (r, c)" "call_done s E c s1"
    using client_step_any [OF Cons.prems(1,2) _ x(1)] Cons.prems(3) by auto
  have f: "client_frame s s1" "sched_rep s1 E [] [] []" using c(2) by (simp_all add: call_done_def)
  note e = client_frame_simps [OF f(1)]
  have "client_thread s1 self" using Cons.prems(2) client_thread_crew [OF e(8)] by simp
  from Cons.IH [OF f(2) this _ x(2)] Cons.prems(3) obtain as where as: "rs' = map fst as"
    "list_all2 (call_allowed (task_fun s) (nbworkers s)) xs as" "call_done s1 E (concat (map snd as)) s'"
    unfolding e(3,6) by auto
  from call_done_trans [OF c(2) as(3)] x(3) c(1) as(1,2) show ?case
    by (intro exI [of _ "(r, c) # as"]) simp
qed

lemma session_any:
  assumes "startable s E nb" and "s = lib_sched l" and "self \<in> os_threads (s_os s)" and "\<forall>x \<in> set xs. call_fits nb x"
    and "session l nb self xs = Some (err, rs, l')" and "s' = lib_sched l'"
  shows "os_blocks (s_os s') = os_blocks (s_os s) \<and> os_threads (s_os s') = os_threads (s_os s) \<and>
    jobs s' = jobs s \<and> batches s' = batches s \<and> tasks s' \<subseteq>\<^sub>m tasks s \<and>
    (\<exists>as. rs = map fst as \<and> calls s' = calls s @ concat (map snd as) \<and>
      (if FLY_SUCCEEDED err then list_all2 (call_allowed (task_fun s) nb) xs as else as = []))"
proof -
  let ?B = "os_blocks (s_os s)" and ?T = "os_threads (s_os s)"
  obtain e l1 s1 E1 where i: "fly_simple_init l nb = Some (e, l1)" "s1 = lib_sched l1" "boot_frame (s\<lparr>nbworkers := nb\<rparr>) s1"
    "if FLY_SUCCEEDED e then sched_up ?B ?T s1 \<and> sched_rep s1 E1 [] [] []
     else os_blocks (s_os s1) = ?B \<and> os_threads (s_os s1) = ?T"
    using simple_init_run [of l E nb s] assms(1,2) by blast
  have b: "jobs s1 = jobs s" "batches s1 = batches s" "tasks s1 = tasks s" "calls s1 = calls s"
    "task_fun s1 = task_fun s" "nbworkers s1 = nb" using i(3) by (simp_all add: boot_frame_def)
  show ?thesis
  proof (cases "FLY_SUCCEEDED e")
    case False
    with assms(5) i(1) have "err = e" "rs = []" "l' = l1" by (simp_all add: session_def)
    then show ?thesis using False i(2,4) assms(6) b(1-4) by (intro conjI exI [of _ "[]"]) simp_all
  next
    case True
    then have up: "sched_up ?B ?T s1" "sched_rep s1 E1 [] [] []" using i(4) by simp_all
    obtain s2 l2 where s2: "client_run s1 self xs = Some (rs, s2)" "fly_uninit (l1\<lparr>lib_sched := s2\<rparr>) = Some (err, l')"
      using assms(5) i(1,2) True by (auto simp: session_def split: bind_splits)
    obtain as where as: "rs = map fst as" "list_all2 (call_allowed (task_fun s) nb) xs as" "call_done s1 E1 (concat (map snd as)) s2"
      using client_run_any [OF up(2) sched_up_client [OF up(1) assms(3)] _ s2(1)] assms(4) unfolding b(5,6) by blast
    have d: "sched_rep s2 E1 [] [] []" "jobs s2 = jobs s1" "batches s2 = batches s1" "tasks s2 \<subseteq>\<^sub>m tasks s1"
      "calls s2 = calls s1 @ concat (map snd as)" "client_frame s1 s2"
      using as(3) unfolding call_done_def by simp_all
    obtain s3 where s3: "fly_sched_uninit s2 = Some (0, s3)" "os_blocks (s_os s3) = ?B" "os_threads (s_os s3) = ?T" "boot_frame s2 s3"
      using sched_uninit_run [OF sched_up_frame [OF up(1) d(6)] d(1)] by blast
    have "jobs s3 = jobs s2" "batches s3 = batches s2" "tasks s3 = tasks s2" "calls s3 = calls s2"
      using s3(4) by (simp_all add: boot_frame_def)
    moreover have "err = 0" "s' = s3" using s2(2) s3(1) assms(6) by (auto simp: fly_uninit_def)
    ultimately show ?thesis
      using s3(2,3) d(2-5) b(1-4) as(1,2) by (intro conjI exI [of _ as]) simp_all
  qed
qed

section \<open>Properties\<close>


text \<open>The first loop's semaphore cannot be made; the second loop runs.\<close>

definition short_sched :: fly_sched where
  "short_sched = (small_sched (pfor_job 3 50 60))\<lparr>sem_ok := \<lambda>p. p \<noteq> brk (small_sched (pfor_job 3 50 60))\<rparr>"

lemma short_sched_rep: "sched_rep short_sched small_lists [] [] []" "client_thread short_sched self"
proof -
  note d = sched_repD [OF small_sched_rep [of "pfor_job 3 50 60"]]
  have "lists_rep short_sched small_lists" using d(1) by (rule lists_rep_cong) (simp_all add: short_sched_def)
  moreover have "job_mem_ok short_sched" using d(3) by (simp add: job_mem_ok_def node_mem_ok_def short_sched_def)
  moreover have "get_lock short_sched k = get_lock (small_sched (pfor_job 3 50 60)) k" for k
    by (cases k) (simp_all add: get_lock.simps short_sched_def)
  then have "locks_free short_sched" using d(2) by (simp add: locks_free_def)
  ultimately show "sched_rep short_sched small_lists [] [] []" using d(4-8) unfolding sched_rep_def by (simp add: short_sched_def)
  show "client_thread short_sched self"
    using small_client [of "pfor_job 3 50 60" self] by (simp add: client_thread_def short_sched_def)
qed

lemma short_sched_runs:
  "\<exists>s'. client_run short_sched 9 [ParallelFor 3 51 61 [], ParallelFor 3 51 61 [(0, MThread), (1, MThread)]] =
    Some ([Code (fly_err FLYENORES), Code 0], s')"
proof -
  let ?s = "short_sched\<lparr>brk := Suc (brk short_sched)\<rparr>"
  have f: "\<forall>p. malloc_ok ?s p" "sem_ok ?s (brk ?s)" "\<not> (malloc_ok short_sched (brk short_sched) \<and> sem_ok short_sched (brk short_sched))"
    by (simp_all add: short_sched_def)
  have "client_thread ?s 9" using short_sched_rep(2) [of 9] by (simp add: client_thread_def)
  moreover have "batch_range_ok 0 3 (nbworkers ?s)" "brk ?s \<notin> set []" "int (length [(0, MThread), (1, MThread)]) = nbworkers ?s"
    by (simp_all add: batch_range_ok_def c_ok_iff short_sched_def)
  moreover have "\<forall>t \<in> set [(0, MThread), (1, MThread)]. get_wt ?s t \<noteq> None"
    using small_room(5) [of "pfor_job 3 50 60"] get_wt_cong [of ?s "small_sched (pfor_job 3 50 60)"] by (simp add: short_sched_def)
  ultimately obtain s' where "fly_parallel_for ?s 9 3 51 61 [(0, MThread), (1, MThread)] = Some (0, s')"
    using parallel_for_run [OF sched_rep_brk [OF short_sched_rep(1)] _ _ f(1,2)] by blast
  then show ?thesis using create_pfor_fails [OF f(3)] by (simp add: fly_parallel_for_def [of short_sched])
qed



text \<open>A library for which no semaphore can be made.\<close>

definition poor_lib :: fly_lib where
  "poor_lib = home_lib\<lparr>lib_sched := (fresh_sched home_os)\<lparr>sem_ok := \<lambda>p. False\<rparr>\<rparr>"

lemma poor_startable: "startable (lib_sched poor_lib) (\<lambda>p. if p \<in> {} then Some [] else None) 2"
proof -
  let ?E = "\<lambda>p. if p \<in> {} then Some [] else (None :: ptr list option)"
  have h: "startable (fresh_sched home_os) ?E 2" using home_bootable by (simp add: bootable_def)
  then have "lists_rep (fresh_sched home_os) ?E" by (simp add: startable_def)
  then have "lists_rep (lib_sched poor_lib) ?E" by (rule lists_rep_cong) (simp_all add: poor_lib_def)
  with h show ?thesis
    by (simp add: startable_def poor_lib_def heads_fresh_def job_mem_ok_def node_mem_ok_def)
qed

lemma poor_session: "\<exists>l'. session poor_lib 2 9 [ParallelFor 2 51 61 []] = Some (0, [Code (fly_err FLYENORES)], l')"
proof -
  let ?s = "lib_sched poor_lib"
  have "\<exists>s'. fly_sched_init (fly_set_nbworkers ?s 2) = Some (0, s')"
    by (rule granted_init) (simp_all add: fly_set_nbworkers_def poor_lib_def fresh_sched_ok home_os_def lucky_os_def)
  then obtain l1 where i: "fly_simple_init poor_lib 2 = Some (0, l1)"
    by (auto simp: fly_simple_init_def fly_set_malloc_def fly_set_free_def Let_def)
  obtain B T E1 where s1: "sched_up B T (lib_sched l1)" "sched_rep (lib_sched l1) E1 [] [] []" "sem_ok (lib_sched l1) = sem_ok ?s"
    using simple_init_run [OF poor_startable refl] i by (auto simp: boot_frame_def)
  let ?s1 = "lib_sched l1"
  have "\<not> (malloc_ok ?s1 (brk ?s1) \<and> sem_ok ?s1 (brk ?s1))" unfolding s1(3) by (simp add: poor_lib_def)
  from create_pfor_fails [OF this] have run: "client_run ?s1 9 [ParallelFor 2 51 61 []] =
      Some ([Code (fly_err FLYENORES)], ?s1\<lparr>brk := Suc (brk ?s1)\<rparr>)"
    by (simp add: fly_parallel_for_def)
  have "sched_frame ?s1 (?s1\<lparr>brk := Suc (brk ?s1)\<rparr>)" by (rule sched_frameI) simp_all
  from sched_up_frame [OF s1(1) sched_client_frame [OF this]] sched_rep_brk [OF s1(2)] obtain s3 where
    "fly_sched_uninit (?s1\<lparr>brk := Suc (brk ?s1)\<rparr>) = Some (0, s3)" using sched_uninit_run by blast
  with i run show ?thesis by (simp add: session_def fly_uninit_def del: client_run.simps)
qed


end
