(* ===== verification/Fly_Tasks.thy ===== *)
theory Fly_Tasks
  imports Fly_Client
begin

text \<open>
  Many tasks of one client: \<^verbatim>\<open>fly_push_task\<close> for each of them and one
  \<^verbatim>\<open>fly_wait_tasks\<close> for all (\<^verbatim>\<open>src/fly.c\<close>).  The workers take the jobs
  from the tail of the ready queue, so the task functions run in the opposite order of the pushes.
\<close>

section \<open>Pushing a list of tasks\<close>

fun push_tasks :: "fly_sched \<Rightarrow> nat \<Rightarrow> ptr list \<Rightarrow> (int list \<times> fly_sched) option" where
  "push_tasks s self [] = Some ([], s)"
| "push_tasks s self (task # rest) = do {
     (err, s) \<leftarrow> fly_push_task s self task;
     (errs, s) \<leftarrow> push_tasks s self rest;
     Some (err # errs, s)
   }"

section \<open>Tasks on their way\<close>

text \<open>A task, its record before the push, and its job.\<close>

datatype entry = Entry (e_task: ptr) (e_rec: fly_task) (e_job: ptr)

definition e_call :: "entry \<Rightarrow> call" where
  "e_call x = TaskCall (tk_func (e_rec x)) (tk_param (e_rec x))"

text \<open>A task whose job is ready, one that has run and is not yet waited for, one that has been waited for.\<close>

definition queued :: "fly_sched \<Rightarrow> entry \<Rightarrow> bool" where
  "queued s x \<longleftrightarrow> tasks s (e_task x) = Some ((e_rec x)\<lparr>tk_sched_data := e_job x\<rparr>) \<and>
     jobs s (e_job x) = Some (task_job (tk_func (e_rec x)) (e_task x))"

definition has_result :: "fly_sched \<Rightarrow> entry \<Rightarrow> bool" where
  "has_result s x \<longleftrightarrow> tasks s (e_task x) = Some ((e_rec x)\<lparr>tk_sched_data := e_job x,
     tk_result := Some (task_fun s (tk_func (e_rec x)) (tk_param (e_rec x)))\<rparr>)"

definition finished :: "fly_sched \<Rightarrow> entry \<Rightarrow> bool" where
  "finished s x \<longleftrightarrow> has_result s x \<and> jobs s (e_job x) = Some ((task_job (tk_func (e_rec x)) (e_task x))
     \<lparr>j_batches_done := 1, j_state := FLY_JOB_DONE, j_sem := 1\<rparr>)"

definition crowd_lists :: "fly_sched \<Rightarrow> (ptr \<rightharpoonup> ptr list) \<Rightarrow> ptr list \<Rightarrow> ptr list \<Rightarrow> ptr \<rightharpoonup> ptr list" where
  "crowd_lists s0 E R D l = (if l = ready_jobs s0 then Some R else if l = done_jobs s0 then Some D
     else if l \<in> set (R @ D) then Some [] else E l)"

text \<open>
  \<open>crowd s0 E xs ys zs s\<close>: since the idle scheduler \<open>s0\<close> with the lists \<open>E\<close>, the tasks
  \<open>xs\<close> have been pushed, \<open>ys\<close> have run as well and \<open>zs\<close> have also been waited for.
\<close>

definition crowd :: "fly_sched \<Rightarrow> (ptr \<rightharpoonup> ptr list) \<Rightarrow> entry list \<Rightarrow> entry list \<Rightarrow> entry list \<Rightarrow> fly_sched \<Rightarrow> bool" where
  "crowd s0 E xs ys zs s \<longleftrightarrow>
     sched_rep s0 E [] [] [] \<and> client_frame s0 s \<and> batches s = batches s0 \<and>
     sched_rep s (crowd_lists s0 E (map e_job xs) (map e_job ys)) (map e_job xs) [] (map e_job ys) \<and>
     distinct (map e_job (xs @ ys)) \<and> distinct (map e_task (xs @ ys @ zs)) \<and>
     (\<forall>x \<in> set (xs @ ys). E (e_job x) = None \<and> e_job x \<noteq> NULL \<and> jobs s0 (e_job x) = None) \<and>
     (\<forall>x \<in> set (xs @ ys @ zs). e_task x \<noteq> NULL) \<and>
     (\<forall>p. p \<notin> set (map e_job (xs @ ys)) \<longrightarrow> jobs s p = jobs s0 p) \<and>
     (\<forall>p. p \<notin> set (map e_task (xs @ ys @ zs)) \<longrightarrow> tasks s p = tasks s0 p) \<and>
     list_all (queued s) xs \<and> list_all (finished s) ys \<and> list_all (has_result s) zs"

lemma crowdD:
  assumes "crowd s0 E xs ys zs s"
  shows "sched_rep s0 E [] [] []" and "client_frame s0 s" and "batches s = batches s0"
    and "sched_rep s (crowd_lists s0 E (map e_job xs) (map e_job ys)) (map e_job xs) [] (map e_job ys)"
    and "distinct (map e_job (xs @ ys))" and "distinct (map e_task (xs @ ys @ zs))"
    and "\<forall>x \<in> set (xs @ ys). E (e_job x) = None \<and> e_job x \<noteq> NULL \<and> jobs s0 (e_job x) = None"
    and "\<forall>x \<in> set (xs @ ys @ zs). e_task x \<noteq> NULL"
    and "\<forall>p. p \<notin> set (map e_job (xs @ ys)) \<longrightarrow> jobs s p = jobs s0 p"
    and "\<forall>p. p \<notin> set (map e_task (xs @ ys @ zs)) \<longrightarrow> tasks s p = tasks s0 p"
    and "list_all (queued s) xs" and "list_all (finished s) ys" and "list_all (has_result s) zs"
  using assms unfolding crowd_def by blast+

lemma crowd_lists_none:
  assumes "sched_rep s E [] [] []"
  shows "crowd_lists s E [] [] = E"
  using sched_repD(4,6) [OF assms] by (intro ext) (simp add: crowd_lists_def)

lemma crowd_start: "sched_rep s E [] [] [] \<Longrightarrow> crowd s E [] [] [] s"
  by (simp add: crowd_def crowd_lists_none)

text \<open>An entry's status depends on its own task and job only.\<close>

lemma status_cong:
  assumes "tasks s' (e_task x) = tasks s (e_task x)" and "task_fun s' = task_fun s"
  shows "has_result s' x = has_result s x"
    and "jobs s' (e_job x) = jobs s (e_job x) \<Longrightarrow> queued s' x = queued s x"
    and "jobs s' (e_job x) = jobs s (e_job x) \<Longrightarrow> finished s' x = finished s x"
  using assms by (simp_all add: has_result_def queued_def finished_def)

lemma list_all_status:
  assumes "\<forall>x \<in> set xs. tasks s' (e_task x) = tasks s (e_task x)" and "task_fun s' = task_fun s"
  shows "list_all (has_result s') xs = list_all (has_result s) xs"
    and "\<forall>x \<in> set xs. jobs s' (e_job x) = jobs s (e_job x) \<Longrightarrow> list_all (queued s') xs = list_all (queued s) xs"
    and "\<forall>x \<in> set xs. jobs s' (e_job x) = jobs s (e_job x) \<Longrightarrow> list_all (finished s') xs = list_all (finished s) xs"
  using assms status_cong [OF _ assms(2)] by (auto simp: list_all_iff)

lemma map_avoids: "a \<notin> set (map f xs) \<Longrightarrow> \<forall>x \<in> set xs. f x \<noteq> a"
  by force

section \<open>One push\<close>

lemma crowd_push:
  assumes "crowd s0 E xs [] [] s" and "client_ready s0 E self" and "task \<notin> set (map e_task xs)"
    and "get_task s0 task = Some t"
  shows "\<exists>s' job. fly_push_task s self task = Some (0, s') \<and> crowd s0 E (xs @ [Entry task t job]) [] [] s' \<and> calls s' = calls s"
proof -
  note c = crowdD [OF assms(1)] and f = client_frame_simps [OF crowdD(2) [OF assms(1)]]
  let ?R = "map e_job xs" and ?job = "brk s" and ?E = "crowd_lists s0 E (map e_job xs) []"
  have rep: "sched_rep s ?E ?R [] []" using c(4) by simp
  have a: "client_thread s self" "\<forall>p. malloc_ok s p" "sem_ok s ?job" "get_task s task = Some t" "task \<noteq> NULL"
    using assms(2-4) c(10) f(1,13) client_thread_crew [OF f(8)] by (auto simp: client_ready_def get_task_iff)
  obtain s' E' where s': "fly_push_task s self task = Some (0, s')" "sched_rep s' E' (?R @ [?job]) [] []"
    "E' = ?E(?job \<mapsto> [], ready_jobs s \<mapsto> ?R @ [?job])" "jobs s' = (jobs s)(?job \<mapsto> task_job (tk_func t) task)"
    "tasks s' = (tasks s)(task \<mapsto> t\<lparr>tk_sched_data := ?job\<rparr>)" "calls s' = calls s" "batches s' = batches s"
    "task_fun s' = task_fun s" "client_frame s s'"
    using push_task_run [OF rep a(1,4,2,3)] by blast
  have new: "?E ?job = None" "jobs s ?job = None" "?job \<noteq> NULL"
    using with_job_rep(2,5) [OF rep] sched_repD(3) [OF rep] by (auto simp: job_mem_ok_def node_mem_ok_def)
  then have n: "?job \<noteq> ready_jobs s0" "?job \<noteq> done_jobs s0" "?job \<notin> set ?R" "E ?job = None"
    by (auto simp: crowd_lists_def split: if_splits)
  have "E' = crowd_lists s0 E (?R @ [?job]) []"
    unfolding s'(3) f(5) using n by (intro ext) (simp add: crowd_lists_def)
  moreover have "list_all (queued s') xs"
  proof (subst list_all_status(2) [of xs s' s])
    have "\<forall>x \<in> set xs. e_task x \<noteq> task \<and> e_job x \<noteq> ?job" using map_avoids assms(3) n(3) by metis
    then show "\<forall>x \<in> set xs. tasks s' (e_task x) = tasks s (e_task x)"
      and "\<forall>x \<in> set xs. jobs s' (e_job x) = jobs s (e_job x)" by (simp_all add: s'(4,5))
  qed (use s'(8) c(11) in simp_all)
  moreover have "queued s' (Entry task t ?job)"
    by (simp add: queued_def s'(4,5))
  moreover have "client_frame s0 s'" by (rule client_frame_trans [OF c(2) s'(9)])
  moreover have "jobs s0 ?job = None" using c(9) n(3) new(2) by simp
  ultimately have "crowd s0 E (xs @ [(Entry task t ?job)]) [] [] s'"
    unfolding crowd_def using c(1,3,5-10) s'(2,4,5,7) n new(3) a(5) assms(3)
    by simp
  with s'(1,6) show ?thesis by blast
qed

section \<open>One turn\<close>

lemma crowd_turn:
  assumes "crowd s0 E (xs @ [x]) ys [] s" and "\<forall>p. malloc_ok s0 p" and "int (fst w) < nbworkers s0"
  shows "\<exists>s'. fly_schedule s w = Some s' \<and> crowd s0 E xs (ys @ [x]) [] s' \<and> calls s' = calls s @ [e_call x]"
proof -
  note c = crowdD [OF assms(1)] and f = client_frame_simps [OF crowdD(2) [OF assms(1)]]
  let ?R = "map e_job xs" and ?D = "map e_job ys" and ?job = "e_job x" and ?task = "e_task x" and ?t = "e_rec x"
  let ?E = "crowd_lists s0 E (map e_job (xs @ [x])) (map e_job ys)"
  let ?j = "task_job (tk_func ?t) ?task" and ?u = "?t\<lparr>tk_sched_data := ?job\<rparr>"
  have rep: "sched_rep s ?E (?R @ [?job]) [] ?D" using c(4) by simp
  have job: "?job \<noteq> NULL" "?task \<noteq> NULL" "?job \<notin> set ?R" "?job \<notin> set ?D" "E ?job = None" using c(5,7,8) by auto
  have q: "tasks s ?task = Some ?u" "jobs s ?job = Some ?j" using c(11) by (simp_all add: queued_def)
  have wt: "get_wt s w \<noteq> None"
    using assms(3) f(3) sched_repD(8) [OF rep] by (auto simp: get_wt_def split: prod.splits)
  have g: "get_job s ?job = Some ?j" "j_jtype ?j = FLY_TASK_TASK" "malloc_ok s (brk s)"
    using q(2) job(1) assms(2) f(1) by (simp_all add: get_job_iff task_job_def)
  let ?j1 = "?j\<lparr>j_batches_done := j_nbbatches ?j, j_state := FLY_JOB_RUNNING\<rparr>"
  obtain s1 where s1: "fly_sched_get_job s w = Some (?job, s1)" "sched_frame s s1"
    "sched_rep s1 (?E(ready_jobs s \<mapsto> ?R, running_jobs s \<mapsto> [] @ [?job])) ?R ([] @ [?job]) ?D"
    "jobs s1 = (jobs s)(?job \<mapsto> ?j1)" "batches s1 = batches s" "calls s1 = calls s"
    using get_job_ready_task [OF rep wt g] by blast
  note f1 = sched_frame_simps [OF s1(2)]
  have g1: "get_job s1 ?job = Some ?j1" "j_jtype ?j1 = FLY_TASK_TASK" "j_batches_done ?j1 = j_nbbatches ?j1"
    "get_task s1 (j_data ?j1) = Some ?u" "malloc_ok s1 (brk s1)"
    using s1(4) f1 job(1,2) q g(2) assms(2) f(1) by (simp_all add: get_job_iff get_task_iff task_job_def)
  obtain s2 E2 where s2: "fly_sched_exec_job s1 ?job = Some (0, s2)"
    "sched_rep s2 E2 ?R (remove1 ?job ([] @ [?job])) (?D @ [?job])" "calls s2 = calls s1 @ [e_call x]"
    "tasks s2 = (tasks s1)(?task \<mapsto> ?u\<lparr>tk_result := Some (task_fun s1 (tk_func ?u) (tk_param ?u))\<rparr>)"
    "jobs s2 = (jobs s1)(?job \<mapsto> ?j1\<lparr>j_state := FLY_JOB_DONE, j_sem := Suc (j_sem ?j1)\<rparr>)"
    "task_fun s2 = task_fun s1" "batches s2 = batches s1"
    "E2 = ?E(ready_jobs s \<mapsto> ?R, running_jobs s \<mapsto> [] @ [?job], running_jobs s1 \<mapsto> remove1 ?job ([] @ [?job]),
       done_jobs s1 \<mapsto> ?D @ [?job])" "client_frame s1 s2"
    using exec_task_run [OF s1(3) g1] by (auto simp: task_job_def e_call_def)
  have e: "E2 = crowd_lists s0 E ?R (map e_job (ys @ [x]))"
    using sched_repD(4-7) [OF c(1)] f f1 s2(8) by (intro ext) (auto simp: crowd_lists_def)
  have "?task \<notin> set (map e_task (xs @ ys))" "?job \<notin> set (map e_job (xs @ ys))" using c(5,6) by auto
  from this [THEN map_avoids]
  have other: "\<forall>y \<in> set (xs @ ys). e_task y \<noteq> ?task \<and> e_job y \<noteq> ?job" by blast
  have tf: "task_fun s2 = task_fun s" using s2(6) f1 by simp
  have same: "\<forall>y \<in> set (xs @ ys). tasks s2 (e_task y) = tasks s (e_task y)"
    "\<forall>y \<in> set (xs @ ys). jobs s2 (e_job y) = jobs s (e_job y)"
    using other s2(4,5) s1(4) f1 by simp_all
  have "list_all (queued s2) xs" "list_all (finished s2) ys"
    using list_all_status(2) [of xs s2 s, OF _ tf] list_all_status(3) [of ys s2 s, OF _ tf] same c(11,12) by simp_all
  moreover have "finished s2 x"
    using s2(4-6) s1(4) f1 by (simp add: finished_def has_result_def task_job_def)
  moreover have "client_frame s0 s2"
    using client_frame_trans [OF client_frame_trans [OF c(2) sched_client_frame [OF s1(2)]] s2(9)] .
  moreover have "\<forall>p. p \<notin> set (map e_job (xs @ ys @ [x])) \<longrightarrow> jobs s2 p = jobs s0 p"
    "\<forall>p. p \<notin> set (map e_task (xs @ ys @ [x])) \<longrightarrow> tasks s2 p = tasks s0 p"
    using c(9,10) s2(4,5) s1(4) f1 by simp_all
  ultimately have "crowd s0 E xs (ys @ [x]) [] s2"
    unfolding crowd_def using c(1,3,5-8) s2(2,7) s1(5) e by auto
  with s1(1,6) s2(1,3) job(1) show ?thesis by (intro exI [of _ s2]) (simp add: fly_schedule_def)
qed

section \<open>One wait\<close>

lemma map_remove1_inj: "distinct (map f ys) \<Longrightarrow> y \<in> set ys \<Longrightarrow> map f (remove1 y ys) = remove1 (f y) (map f ys)"
proof (induction ys)
  case (Cons a ys)
  then have "f a \<notin> set (map f ys)" by simp
  from map_avoids [OF this] Cons show ?case by auto
qed simp

lemma crowd_wait:
  assumes "crowd s0 E [] ys zs s" and "y \<in> set ys"
  shows "\<exists>s'. fly_wait_task s (e_task y) [] = Some (0, s') \<and> crowd s0 E [] (remove1 y ys) (zs @ [y]) s' \<and> calls s' = calls s"
proof -
  note c = crowdD [OF assms(1)] and f = client_frame_simps [OF crowdD(2) [OF assms(1)]]
  let ?D = "map e_job ys" and ?job = "e_job y" and ?t = "e_rec y"
  let ?E = "crowd_lists s0 E [] ?D" and ?ys = "remove1 y ys"
  have rep: "sched_rep s ?E [] [] ?D" using c(4) by simp
  have job: "?job \<noteq> NULL" "e_task y \<noteq> NULL" "E ?job = None" "jobs s0 ?job = None" using c(7,8) assms(2) by auto
  let ?j = "(task_job (tk_func ?t) (e_task y))\<lparr>j_batches_done := 1, j_state := FLY_JOB_DONE, j_sem := 1\<rparr>"
  have fin: "finished s y" using c(12) assms(2) by (simp add: list_all_iff)
  then have g: "get_job s ?job = Some ?j" "j_sem ?j = Suc 0" using job(1) by (simp_all add: finished_def get_job_iff)
  obtain t where t: "get_task s (e_task y) = Some t" "tk_sched_data t = ?job"
    using fin job(2) by (simp add: finished_def has_result_def get_task_iff)
  let ?s1 = "\<lambda>h. (put_job s ?job (?j\<lparr>j_sem := 0\<rparr>))\<lparr>nodes := h\<rparr>"
  obtain h where h: "fly_wait_job s ?job = Some (0, ?s1 h)"
    "sched_rep (?s1 h) (?E(done_jobs s \<mapsto> remove1 ?job ?D)) [] [] (remove1 ?job ?D)"
    using wait_job_run [OF rep g] by blast
  have q: "?job \<noteq> ready_jobs s" "?job \<noteq> running_jobs s" "?job \<noteq> done_jobs s" "?job \<in> set ?D"
    using sched_repD(4-6) [OF c(1)] f job(3) assms(2) by auto
  have l: "(?E(done_jobs s \<mapsto> remove1 ?job ?D)) ?job = Some []" "not_queue (?s1 h) ?job"
    using q f by (simp_all add: crowd_lists_def not_queue_def)
  have holds: "job_holds (?s1 h) ?job (?j\<lparr>j_sem := 0\<rparr>) [] []" using job(1) by (simp add: job_holds_def get_job_def put_job_def)
  let ?s2 = "\<lambda>h'. (?s1 h)\<lparr>nodes := h', batches := batches (?s1 h) |` (- set []), jobs := (jobs (?s1 h))(?job := None)\<rparr>"
  obtain h' where h': "fly_destroy_job (?s1 h) ?job = Some (?s2 h')"
    "sched_rep (?s2 h') (?E(done_jobs s \<mapsto> remove1 ?job ?D, ?job := None)) [] [] (remove1 ?job ?D)"
    using destroy_job_sched [OF h(2) l(1) holds l(2)] unfolding Let_def by blast
  have run: "fly_wait_task s (e_task y) [] = Some (0, ?s2 h')"
    using t h(1) h'(1) job(1) by (simp add: fly_wait_task_def Let_def)
  have ys: "map e_job ?ys = remove1 ?job ?D" "distinct (map e_job ?ys)" "set (map e_job ?ys) = set ?D - {?job}" "set ?ys \<subseteq> set ys"
    using c(5) assms(2) map_remove1_inj [of e_job ys y] by (simp_all add: distinct_remove1 set_remove1_subset)
  have e: "?E(done_jobs s \<mapsto> remove1 ?job ?D, ?job := None) = crowd_lists s0 E [] (map e_job ?ys)"
    using q(1,3) job(3) ys(3) sched_repD(7) [OF c(1)] unfolding ys(1) f(4,5)
    by (intro ext) (simp add: crowd_lists_def)
  obtain s2 where s2: "s2 = ?s2 h'" by simp
  have keep: "tasks s2 = tasks s" "task_fun s2 = task_fun s" "batches s2 = batches s"
    "\<forall>p. p \<noteq> ?job \<longrightarrow> jobs s2 p = jobs s p" "jobs s2 ?job = None" "calls s2 = calls s"
    by (simp_all add: s2 put_job_def restrict_map_def)
  have "?job \<notin> set (map e_job ?ys)" using ys(3) by simp
  from map_avoids [OF this] have "\<forall>x \<in> set ?ys. jobs s2 (e_job x) = jobs s (e_job x)" using keep(4) by simp
  then have "list_all (finished s2) ?ys = list_all (finished s) ?ys"
    by (intro list_all_status(3)) (simp_all add: keep(1,2))
  then have "list_all (finished s2) ?ys" using c(12) ys(4) by (auto simp: list_all_iff)
  moreover have "list_all (has_result s2) (zs @ [y])"
    using list_all_status(1) [of "zs @ [y]" "s2" s] keep(1,2) c(13) fin by (simp add: finished_def)
  moreover have "sched_frame s s2" by (rule sched_frameI) (simp_all add: s2 put_job_def)
  then have "client_frame s0 s2" by (rule client_frame_trans [OF c(2) sched_client_frame])
  moreover have "\<forall>p. p \<notin> set (map e_job ?ys) \<longrightarrow> jobs s2 p = jobs s0 p"
  proof (intro allI impI)
    fix p
    assume "p \<notin> set (map e_job ?ys)"
    then have "p = ?job \<or> p \<notin> set ?D" unfolding ys(3) by blast
    with c(9) keep(4,5) job(4) show "jobs s2 p = jobs s0 p" by (cases "p = ?job") simp_all
  qed
  moreover have "distinct (map e_task (?ys @ zs @ [y]))" "set (map e_task (?ys @ zs @ [y])) = set (map e_task (ys @ zs))"
    using c(6) map_remove1_inj [of e_task ys y] assms(2) by (auto simp: distinct_remove1 dest: notin_set_remove1)
  moreover have "sched_rep s2 (crowd_lists s0 E [] (map e_job ?ys)) [] [] (map e_job ?ys)"
    using h'(2) unfolding e ys(1) s2 .
  ultimately have "crowd s0 E [] ?ys (zs @ [y]) s2"
    unfolding crowd_def using c(1,3,7,8,10) keep(1,3) ys(2,4) assms(2) by auto
  with run keep(6) show ?thesis unfolding s2 by blast
qed

section \<open>All of them\<close>

lemma push_all:
  assumes "crowd s0 E xs [] [] s" and "client_ready s0 E self" and "distinct (map e_task xs @ tks)"
    and "\<forall>tk \<in> set tks. get_task s0 tk = Some (R tk)"
  shows "\<exists>s' ys. push_tasks s self tks = Some (replicate (length tks) 0, s') \<and> calls s' = calls s \<and>
    crowd s0 E (xs @ ys) [] [] s' \<and> map e_task ys = tks \<and> map e_rec ys = map R tks"
  using assms(1,3,4)
proof (induction tks arbitrary: xs s)
  case Nil
  then show ?case by auto
next
  case (Cons tk tks)
  then have t: "tk \<notin> set (map e_task xs)" "get_task s0 tk = Some (R tk)" by auto
  obtain s1 job where s1: "fly_push_task s self tk = Some (0, s1)" "crowd s0 E (xs @ [Entry tk (R tk) job]) [] [] s1"
    "calls s1 = calls s" using crowd_push [OF Cons.prems(1) assms(2) t] by blast
  have "distinct (map e_task (xs @ [Entry tk (R tk) job]) @ tks)" "\<forall>x \<in> set tks. get_task s0 x = Some (R x)"
    using Cons.prems(2,3) by simp_all
  from Cons.IH [OF s1(2) this] obtain s2 ys where s2: "push_tasks s1 self tks = Some (replicate (length tks) 0, s2)"
    "calls s2 = calls s1" "crowd s0 E ((xs @ [Entry tk (R tk) job]) @ ys) [] [] s2"
    "map e_task ys = tks" "map e_rec ys = map R tks" by blast
  then show ?case using s1(1,3) by (intro exI [of _ s2] exI [of _ "Entry tk (R tk) job # ys"]) simp
qed

lemma turns_all:
  assumes "crowd s0 E xs ys [] s" and "\<forall>p. malloc_ok s0 p" and "\<forall>w \<in> set ws. int (fst w) < nbworkers s0"
    and "length ws = length xs"
  shows "\<exists>s'. turns s ws = Some s' \<and> crowd s0 E [] (ys @ rev xs) [] s' \<and> calls s' = calls s @ map e_call (rev xs)"
  using assms(1,3,4)
proof (induction ws arbitrary: xs ys s)
  case Nil
  then show ?case by simp
next
  case (Cons w ws)
  then obtain x xs' where x: "xs = xs' @ [x]" by (cases xs rule: rev_cases) auto
  obtain s1 where s1: "fly_schedule s w = Some s1" "crowd s0 E xs' (ys @ [x]) [] s1" "calls s1 = calls s @ [e_call x]"
    using crowd_turn [OF Cons.prems(1) [unfolded x] assms(2), of w] Cons.prems(2) by auto
  have "\<forall>w \<in> set ws. int (fst w) < nbworkers s0" "length ws = length xs'" using Cons.prems(2,3) x by simp_all
  from Cons.IH [OF s1(2) this] s1(1,3) show ?case by (auto simp: x)
qed

lemma waits_all:
  assumes "crowd s0 E [] ys zs s" and "distinct xs" and "set xs = set ys"
  shows "\<exists>s'. wait_tasks_loop s err (map (\<lambda>x. (e_task x, [])) xs) = Some (err, s') \<and>
    crowd s0 E [] [] (zs @ xs) s' \<and> calls s' = calls s"
  using assms
proof (induction xs arbitrary: ys zs s)
  case Nil
  then show ?case by simp
next
  case (Cons x xs)
  then have x: "x \<in> set ys" by auto
  obtain s1 where s1: "fly_wait_task s (e_task x) [] = Some (0, s1)" "crowd s0 E [] (remove1 x ys) (zs @ [x]) s1"
    "calls s1 = calls s" using crowd_wait [OF Cons.prems(1) x] by blast
  have "distinct ys" using crowdD(5) [OF Cons.prems(1)] by (simp add: distinct_map)
  then have "set xs = set (remove1 x ys)" using Cons.prems(2,3) by auto
  from Cons.IH [OF s1(2) _ this] Cons.prems(2) s1(1,3) show ?case by auto
qed

text \<open>The turns are taken during the first wait; the other waits find their job done.\<close>

lemma wait_task_turns:
  assumes "get_task s tk = Some t" and "turns s ws = Some s1" and "get_task s1 tk = Some t1"
    and "tk_sched_data t1 = tk_sched_data t" and "tk_sched_data t \<noteq> NULL"
  shows "fly_wait_task s tk ws = fly_wait_task s1 tk []"
  using assms by (simp add: fly_wait_task_def)

lemma tasks_run:
  assumes "client_ready s E self" and "distinct tks" and "\<forall>tk \<in> set tks. get_task s tk = Some (R tk)"
    and "length ws = length tks" and "\<forall>w \<in> set ws. int (fst w) < nbworkers s"
    and "waits = zip tks (ws # replicate (length tks - 1) [])"
  shows "\<exists>s1 s2. push_tasks s self tks = Some (replicate (length tks) 0, s1) \<and>
    fly_wait_tasks s1 waits = Some (0, s2) \<and> client_ready s2 E self \<and> jobs s2 = jobs s \<and> batches s2 = batches s \<and>
    calls s2 = calls s @ map (\<lambda>tk. TaskCall (tk_func (R tk)) (tk_param (R tk))) (rev tks) \<and>
    (\<forall>tk \<in> set tks. fly_get_task_result s2 tk = Some (task_fun s (tk_func (R tk)) (tk_param (R tk))))"
proof -
  have m: "sched_rep s E [] [] []" "\<forall>p. malloc_ok s p" using assms(1) by (simp_all add: client_ready_def)
  obtain s1 ys where s1: "push_tasks s self tks = Some (replicate (length tks) 0, s1)" "calls s1 = calls s"
    "crowd s E ys [] [] s1" "map e_task ys = tks" "map e_rec ys = map R tks"
    using push_all [OF crowd_start [OF m(1)] assms(1), of tks R] assms(2,3) by auto
  have len: "length ws = length ys" using assms(4) s1(4) by auto
  obtain s2 where s2: "turns s1 ws = Some s2" "crowd s E [] (rev ys) [] s2" "calls s2 = calls s1 @ map e_call (rev ys)"
    using turns_all [OF s1(3) m(2) assms(5) len] by auto
  have R: "\<forall>y \<in> set ys. e_rec y = R (e_task y)" using s1(4,5) by auto
  have d: "distinct ys" using s1(4) assms(2) by (auto simp: distinct_map)
  obtain s3 where s3: "wait_tasks_loop s2 0 (map (\<lambda>x. (e_task x, [])) ys) = Some (0, s3)" "crowd s E [] [] ys s3" "calls s3 = calls s2"
    using waits_all [OF s2(2) d, of 0] by auto
  note c = crowdD [OF s3(2)] and f = client_frame_simps [OF crowdD(2) [OF s3(2)]]
  have "fly_wait_tasks s1 waits = Some (0, s3)"
  proof (cases ys)
    case Nil
    then show ?thesis using s1(4) s2(1) s3(1) len assms(6) by (simp add: fly_wait_tasks_def)
  next
    case (Cons y ys')
    let ?q = "(e_rec y)\<lparr>tk_sched_data := e_job y\<rparr>"
    have q: "get_task s1 (e_task y) = Some ?q" "e_job y \<noteq> NULL"
      using crowdD(7,8,11) [OF s1(3)] Cons by (simp_all add: queued_def get_task_iff)
    have "finished s2 y" using crowdD(12) [OF s2(2)] Cons by (simp add: list_all_iff)
    then obtain t where "get_task s2 (e_task y) = Some t" "tk_sched_data t = e_job y"
      using crowdD(8) [OF s2(2)] Cons by (simp add: finished_def has_result_def get_task_iff)
    then have "fly_wait_task s1 (e_task y) ws = fly_wait_task s2 (e_task y) []"
      using wait_task_turns [OF q(1) s2(1)] q(2) by simp
    moreover have "waits = (e_task y, ws) # map (\<lambda>x. (e_task x, [])) ys'"
      using assms(6) s1(4) Cons by (auto simp: zip_replicate2)
    ultimately show ?thesis using s3(1) Cons by (simp add: fly_wait_tasks_def)
  qed
  moreover have "client_ready s3 E self"
    using assms(1) c(4) f(1,13) client_thread_crew [OF f(8)] crowd_lists_none [OF m(1)] by (simp add: client_ready_def)
  moreover have "jobs s3 = jobs s" using c(9) by (intro ext) simp
  moreover have "map e_call (rev ys) = map (\<lambda>tk. TaskCall (tk_func (R tk)) (tk_param (R tk))) (rev tks)"
    using R s1(4) by (auto simp: e_call_def rev_map)
  moreover have "fly_get_task_result s3 tk = Some (task_fun s (tk_func (R tk)) (tk_param (R tk)))" if "tk \<in> set tks" for tk
  proof -
    obtain y where y: "y \<in> set ys" "tk = e_task y" using \<open>tk \<in> set tks\<close> s1(4) by auto
    then have "has_result s3 y" "tk \<noteq> NULL" using c(8,13) by (simp_all add: list_all_iff)
    then show ?thesis using y R f(6) by (simp add: fly_get_task_result_def get_task_def has_result_def)
  qed
  ultimately show ?thesis using s1(1,2) s2(3) s3(3) c(3) by (intro exI [of _ s1] exI [of _ s3]) simp
qed

section \<open>Properties\<close>


definition three_tasks :: fly_sched where
  "three_tasks = (small_sched (pfor_job 3 50 60))\<lparr>calls := [], tasks := (\<lambda>p. if p \<in> {20, 21, 22}
     then Some \<lparr>tk_func = 70, tk_param = p, tk_result = None, tk_sched_data = NULL\<rparr> else None)\<rparr>"


end
