(* ===== verification/Fly_Types.thy ===== *)
theory Fly_Types
  imports Fly_Client
begin

text \<open>
  The types of the fields of jobs and batches, and that every operation keeps them, on any heap,
  well formed or not, and whatever memory is missing.  The model holds the C integers as \<open>int\<close>;
  this says that the values it stores are values of the C types: counters and bounds are within
  \<^verbatim>\<open>int\<close>, a flag is 0 or 1, a job's kind is one of the three of
  \<^verbatim>\<open>src/fly_sched.h\<close> and agrees with its function pointer.
\<close>

section \<open>What holds of a result\<close>

text \<open>
  \<open>post P x\<close>: if the call \<open>x\<close> returns, its result has the property \<open>P\<close>.  The rules
  follow the structure of a function's body.
\<close>

definition post :: "('a \<Rightarrow> bool) \<Rightarrow> 'a option \<Rightarrow> bool" where
  "post P x \<longleftrightarrow> (\<forall>y. x = Some y \<longrightarrow> P y)"

named_theorems post_rules

lemma post_intros [post_rules]:
  "(\<And>y. x = Some y \<Longrightarrow> post P (f y)) \<Longrightarrow> post P (Option.bind x f)"
  "P y \<Longrightarrow> post P (Some y)"
  "post P None"
  "(b \<Longrightarrow> post P u) \<Longrightarrow> (\<not> b \<Longrightarrow> post P v) \<Longrightarrow> post P (if b then u else v)"
  "(\<And>a c. p = (a, c) \<Longrightarrow> post P (g a c)) \<Longrightarrow> post P (case p of (a, c) \<Rightarrow> g a c)"
  by (auto simp: post_def bind_eq_Some_conv split: prod.splits)

text \<open>A call in the middle of a body whose own body branches.\<close>

lemma bind_branches:
  "Option.bind (if b then u else v) f = (if b then Option.bind u f else Option.bind v f)"
  "Option.bind (case p of (a, c) \<Rightarrow> g a c) f = (case p of (a, c) \<Rightarrow> Option.bind (g a c) f)"
  by (simp_all split: prod.splits)

lemmas body_simps = bind_branches Option.bind_assoc bind.bind_lunit Let_def

lemma post_result:
  "x = Some y \<Longrightarrow> post P x \<Longrightarrow> P y"
  "z = Some (r, y) \<Longrightarrow> post (\<lambda>p. P (snd p)) z \<Longrightarrow> P y"
  by (auto simp: post_def)

section \<open>Typed jobs and batches\<close>

fun bound_typed :: "int option \<Rightarrow> bool" where
  "bound_typed None = False"
| "bound_typed (Some v) = c_ok v"

fun loop_func :: "job_func \<Rightarrow> bool" where
  "loop_func (PFor f) = True"
| "loop_func (TFunc f) = False"

definition job_typed :: "fly_job \<Rightarrow> bool" where
  "job_typed j \<longleftrightarrow> c_ok (j_nbbatches j) \<and> c_ok (j_batches_done j) \<and> c_ok (j_recurse j) \<and>
     (if j_jtype j = FLY_TASK_TASK then \<not> loop_func (j_func j)
      else is_pfor_type (j_jtype j) \<and> loop_func (j_func j) \<and> bound_typed (j_start j) \<and> bound_typed (j_end j) \<and>
        (j_jtype j = FLY_TASK_PARALLEL_FOR_ARR \<longrightarrow> j_elsize j \<noteq> None))"

definition batch_typed :: "fly_job_batch \<Rightarrow> bool" where
  "batch_typed b \<longleftrightarrow> c_ok (b_start b) \<and> c_ok (b_end b) \<and> b_execed b \<in> {0, 1}"

text \<open>A heap with typed objects; \<open>M\<close> are the fields of the record that extends it.\<close>

definition typed :: "'a \<Rightarrow> 'a job_mem_scheme \<Rightarrow> bool" where
  "typed M m \<longleftrightarrow> job_mem.more m = M \<and> (\<forall>p j. jobs m p = Some j \<longrightarrow> job_typed j) \<and>
     (\<forall>p b. batches m p = Some b \<longrightarrow> batch_typed b)"

text \<open>The steps of the operations, each with its call as the first premise.\<close>

named_theorems typed_step

lemma typed_get:
  "get_job m p = Some j \<Longrightarrow> typed M m \<Longrightarrow> job_typed j"
  "get_batch m p = Some b \<Longrightarrow> typed M m \<Longrightarrow> batch_typed b"
  by (auto simp: typed_def get_job_def get_batch_def split: if_splits)

lemma typed_put:
  "typed M m \<Longrightarrow> job_typed j \<Longrightarrow> typed M (put_job m p j)"
  "typed M m \<Longrightarrow> batch_typed b \<Longrightarrow> typed M (put_batch m p b)"
  by (auto simp: typed_def put_job_def put_batch_def)

lemma job_typed_upd [simp]:
  "job_typed (j\<lparr>j_state := st\<rparr>) = job_typed j" "job_typed (j\<lparr>j_sem := k\<rparr>) = job_typed j"
  "job_typed j \<Longrightarrow> c_ok n \<Longrightarrow> job_typed (j\<lparr>j_nbbatches := n\<rparr>)"
  "job_typed j \<Longrightarrow> c_ok n \<Longrightarrow> job_typed (j\<lparr>j_batches_done := n\<rparr>)"
  "job_typed j \<Longrightarrow> c_ok n \<Longrightarrow> job_typed (j\<lparr>j_recurse := n\<rparr>)"
  by (simp_all add: job_typed_def)

lemma c_arith_ok: "c_add x y = Some z \<Longrightarrow> c_ok z" "c_sub x y = Some z \<Longrightarrow> c_ok z" "c_mul x y = Some z \<Longrightarrow> c_ok z"
  by (auto simp: c_add_def c_sub_def c_mul_def c_int_def split: if_splits)

section \<open>Lists\<close>

text \<open>A list operation changes nothing beyond the nodes and the allocator.\<close>

definition extends :: "'a node_mem_scheme \<Rightarrow> 'a \<Rightarrow> bool" where
  "extends m M \<longleftrightarrow> node_mem.more m = M"

named_theorems nodes_only

lemma extends_steps [nodes_only]:
  "set_next m p v = Some m' \<Longrightarrow> extends m M \<Longrightarrow> extends m' M"
  "set_prev m p v = Some m' \<Longrightarrow> extends m M \<Longrightarrow> extends m' M"
  "fly_free_node m p = Some m' \<Longrightarrow> extends m M \<Longrightarrow> extends m' M"
  "fly_malloc m = (r, m') \<Longrightarrow> extends m M \<Longrightarrow> extends m' M"
  "extends m M \<Longrightarrow> extends (fly_list_init_with_el m x e) M"
  by (auto simp: extends_def set_next_def set_prev_def put_node_def fly_free_node_def fly_malloc_def
      fly_list_init_with_el_def split: option.splits if_splits)

lemma extends_append_node [nodes_only]:
  "fly_list_append_node m l n = Some m' \<Longrightarrow> extends m M \<Longrightarrow> extends m' M"
  by (erule post_result(1)) (simp only: fly_list_append_node_def body_simps; intro post_rules; auto simp: post_def nodes_only)

lemma extends_append [nodes_only]:
  "fly_list_append m l e = Some (r, m') \<Longrightarrow> extends m M \<Longrightarrow> extends m' M"
  by (erule post_result(2)) (simp only: fly_list_append_def body_simps; intro post_rules; auto simp: post_def nodes_only)

lemma extends_remove_node [nodes_only]:
  "fly_list_remove_node m l n = Some m' \<Longrightarrow> extends m M \<Longrightarrow> extends m' M"
  by (erule post_result(1)) (simp only: fly_list_remove_node_def body_simps; intro post_rules; auto simp: post_def nodes_only)

lemma extends_remove [nodes_only]:
  "fly_list_remove m l e = Some m' \<Longrightarrow> extends m M \<Longrightarrow> extends m' M"
  by (erule post_result(1)) (simp only: fly_list_remove_def body_simps; intro post_rules; auto simp: post_def nodes_only)

lemma extends_tail_remove [nodes_only]:
  "fly_list_tail_remove m l = Some (e, m') \<Longrightarrow> extends m M \<Longrightarrow> extends m' M"
  by (erule post_result(2)) (simp only: fly_list_tail_remove_def body_simps; intro post_rules; auto simp: post_def nodes_only)

lemma typed_more: "typed M m \<Longrightarrow> extends m' (node_mem.more m) \<Longrightarrow> typed M m'"
  by (cases m, cases m') (simp add: typed_def extends_def)

lemma extends_refl: "extends m (node_mem.more m)"
  by (simp add: extends_def)

lemma typed_lists [typed_step]:
  "fly_list_append m l e = Some (r, m') \<Longrightarrow> typed M m \<Longrightarrow> typed M m'"
  "fly_list_remove m l e = Some m' \<Longrightarrow> typed M m \<Longrightarrow> typed M m'"
  "fly_list_tail_remove m l = Some (e', m') \<Longrightarrow> typed M m \<Longrightarrow> typed M m'"
  by (erule typed_more, erule nodes_only, rule extends_refl)+

lemma typed_brk: "typed M (m\<lparr>brk := b\<rparr>) = typed M m"
  by (simp add: typed_def)

lemma typed_init: "typed M (fly_list_init m l) = typed M m"
  by (simp add: typed_def fly_list_init_def put_node_def)

section \<open>Jobs and batches\<close>

lemma case_prod_iff: "(case p of (a, c) \<Rightarrow> g a c) = x \<longleftrightarrow> (\<exists>a c. p = (a, c) \<and> g a c = x)"
  by (cases p) simp

lemmas calls = bind_eq_Some_conv case_prod_iff

lemma typed_frees [typed_step]:
  "fly_free_job m p = Some m' \<Longrightarrow> typed M m \<Longrightarrow> typed M m'"
  "fly_free_batch m p = Some m' \<Longrightarrow> typed M m \<Longrightarrow> typed M m'"
  "fly_malloc m = (r, m') \<Longrightarrow> typed M m \<Longrightarrow> typed M m'"
  "set_state m p st = Some m' \<Longrightarrow> typed M m \<Longrightarrow> typed M m'"
  by (auto simp: fly_free_job_def fly_free_batch_def fly_malloc_def set_state_def typed_brk bind_eq_Some_conv
      intro!: typed_put split: if_splits dest: typed_get)
    (auto simp: typed_def)

lemmas [typed_step] = typed_put typed_init typed_brk c_arith_ok

text \<open>An object that is read, changed and written back.\<close>

lemma typed_put_back [typed_step]:
  "get_job m p = Some j \<Longrightarrow> typed M m \<Longrightarrow> (job_typed j \<Longrightarrow> job_typed j') \<Longrightarrow> typed M (put_job m p j')"
  "get_batch m p = Some b \<Longrightarrow> typed M m \<Longrightarrow> (batch_typed b \<Longrightarrow> batch_typed b') \<Longrightarrow> typed M (put_batch m p b')"
  by (simp_all add: typed_put typed_get)

lemma typed_make_batch [typed_step]:
  "job_make_batch m job a z = (b, m') \<Longrightarrow> c_ok a \<Longrightarrow> c_ok z \<Longrightarrow> typed M m \<Longrightarrow> typed M m'"
  by (auto simp: job_make_batch_def typed_step batch_typed_def split: prod.splits if_splits)

lemma typed_batch_ops [typed_step]:
  "job_add_batch m job b = Some (r, m') \<Longrightarrow> typed M m \<Longrightarrow> typed M m'"
  "job_remove_batch m job b = Some m' \<Longrightarrow> typed M m \<Longrightarrow> typed M m'"
  "job_destroy_batch m b = Some m' \<Longrightarrow> typed M m \<Longrightarrow> typed M m'"
  by (auto simp: job_add_batch_def job_remove_batch_def job_destroy_batch_def bind_eq_Some_conv typed_step)

lemma typed_drop_batch [typed_step]:
  "job_drop_batch m job = Some m' \<Longrightarrow> typed M m \<Longrightarrow> typed M m'"
  by (auto simp: job_drop_batch_def bind_eq_Some_conv typed_step)

lemma typed_drop_batches [typed_step]:
  assumes "job_drop_batches m job = Some m'"
  shows "typed M m \<Longrightarrow> typed M m'"
  by (rule job_drop_batches.raw_induct [where P = "\<lambda>m job m'. typed M m \<longrightarrow> typed M m'", rule_format, OF _ assms])
    (auto simp: bind_eq_Some_conv typed_drop_batch split: if_splits)

lemma typed_destroy [typed_step]:
  "fly_destroy_job m job = Some m' \<Longrightarrow> typed M m \<Longrightarrow> typed M m'"
  "fly_destroy_batches m job = Some m' \<Longrightarrow> typed M m \<Longrightarrow> typed M m'"
  by (auto simp: fly_destroy_job_def fly_destroy_batches_def bind_eq_Some_conv typed_step split: if_splits)

lemma typed_create:
  "fly_create_job_pfor m count f d = (p, m') \<Longrightarrow> c_ok count \<Longrightarrow> typed M m \<Longrightarrow> typed M m'"
  "fly_create_job_pfarr m b e f d z = Some (p, m') \<Longrightarrow> c_ok b \<Longrightarrow> c_ok e \<Longrightarrow> typed M m \<Longrightarrow> typed M m'"
  "fly_create_job_task m t = Some (p, m') \<Longrightarrow> typed M m \<Longrightarrow> typed M m'"
  by (auto simp: fly_create_job_pfor_def fly_create_job_pfarr_def fly_create_job_task_def bind_eq_Some_conv typed_step
      job_typed_def is_pfor_type_def jtype_defs split: prod.splits if_splits)

lemma typed_make_loop [typed_step]:
  assumes "make_batches_loop m job nb sz i = Some (k, m')"
  shows "typed M m \<Longrightarrow> typed M m'"
  by (rule make_batches_loop.raw_induct [where P = "\<lambda>m job nb sz i r. typed M m \<longrightarrow> typed M (snd r)",
        rule_format, OF _ assms, simplified])
    (auto simp: calls typed_step split: if_splits)

lemma cas_flag: "fly_atomic_cas x 0 1 = (r, v) \<Longrightarrow> x \<in> {0, 1} \<Longrightarrow> v \<in> {0, 1}"
  by (auto simp: fly_atomic_cas_def split: if_splits)

lemma batch_typed_upd:
  "batch_typed b \<Longrightarrow> x \<in> {0, 1} \<Longrightarrow> batch_typed (b\<lparr>b_execed := x\<rparr>)"
  "batch_typed b \<Longrightarrow> c_ok x \<Longrightarrow> batch_typed (b\<lparr>b_end := x\<rparr>)"
  by (simp_all add: batch_typed_def)

lemma typed_claim:
  "get_batch m p = Some b \<Longrightarrow> fly_atomic_cas (b_execed b) 0 1 = (r, v) \<Longrightarrow> typed M m \<Longrightarrow>
     typed M (put_batch m p (b\<lparr>b_execed := v\<rparr>))"
  by (rule typed_put(2), assumption, rule batch_typed_upd(1), erule (1) typed_get(2), erule cas_flag)
    (drule (1) typed_get(2), simp add: batch_typed_def)

lemma typed_get_exec [typed_step]:
  assumes "get_exec_loop m cur = Some (b, m')"
  shows "typed M m \<Longrightarrow> typed M m'"
  by (rule get_exec_loop.raw_induct [where P = "\<lambda>m cur r. typed M m \<longrightarrow> typed M (snd r)",
        rule_format, OF _ assms, simplified])
    (auto simp: calls typed_claim split: if_splits)

lemma typed_get_exec_batch [typed_step]:
  "fly_get_exec_batch m job = Some (b, m') \<Longrightarrow> typed M m \<Longrightarrow> typed M m'"
  by (auto simp: fly_get_exec_batch_def calls typed_get_exec)

lemma cas_typed: "fly_atomic_cas x y z = (r, v) \<Longrightarrow> c_ok x \<Longrightarrow> c_ok z \<Longrightarrow> c_ok v"
  by (auto simp: fly_atomic_cas_def split: if_splits)

lemma typed_job_fields:
  "job_typed j \<Longrightarrow> c_ok (j_nbbatches j)" "job_typed j \<Longrightarrow> c_ok (j_batches_done j)" "job_typed j \<Longrightarrow> c_ok (j_recurse j)"
  by (simp_all add: job_typed_def)

lemma typed_is_done [typed_step]:
  "fly_job_is_done m job = Some (d, m') \<Longrightarrow> typed M m \<Longrightarrow> typed M m'"
  by (auto simp: fly_job_is_done_def calls intro!: typed_put job_typed_upd elim!: cas_typed intro: typed_job_fields typed_get)

lemma typed_make_batches [typed_step]:
  "fly_make_batches m job nb = Some (r, m') \<Longrightarrow> c_ok nb \<Longrightarrow> typed M m \<Longrightarrow> typed M m'"
  by (erule post_result(2)) (simp only: fly_make_batches_def body_simps; intro post_rules; simp add: typed_step batch_typed_upd)

section \<open>A typed scheduler\<close>

definition sched_typed :: "int \<Rightarrow> fly_sched \<Rightarrow> bool" where
  "sched_typed n s \<longleftrightarrow> typed (job_mem.more s) s \<and> nbworkers s = n \<and> c_ok n"

definition err_code :: "int \<Rightarrow> bool" where
  "err_code r \<longleftrightarrow> r \<in> range fly_err"

named_theorems sched_step

lemma err_code_err [sched_step]:
  "err_code (fly_err e)" "err_code 0" "err_code 1" "err_code 2" "err_code 3" "err_code 4"
proof -
  have e: "err_code (fly_err e)" for e by (simp add: err_code_def)
  show "err_code (fly_err e)" "err_code 0" "err_code 1" "err_code 2" "err_code 3" "err_code 4"
    using e [of e] e [of FLYESUCCESS] e [of FLYENORES] e [of FLYEATTR] e [of FLYELLLIB] e [of FLYENOIMP] by simp_all
qed

text \<open>An operation on the heap keeps the scheduler's own fields.\<close>

lemma sched_lift:
  assumes "sched_typed n s" and "\<And>M. typed M s \<Longrightarrow> typed M s'"
  shows "sched_typed n s'"
proof -
  have "typed (job_mem.more s) s'" using assms by (simp add: sched_typed_def)
  then have "job_mem.more s' = job_mem.more s" by (simp add: typed_def)
  then show ?thesis
    using assms(1) \<open>typed (job_mem.more s) s'\<close> by (cases s, cases s') (simp add: sched_typed_def)
qed

lemma sched_mem [sched_step]:
  "fly_list_append s l e = Some (r, s') \<Longrightarrow> sched_typed n s \<Longrightarrow> sched_typed n s'"
  "fly_list_remove s l e = Some s' \<Longrightarrow> sched_typed n s \<Longrightarrow> sched_typed n s'"
  "fly_list_tail_remove s l = Some (e', s') \<Longrightarrow> sched_typed n s \<Longrightarrow> sched_typed n s'"
  "fly_malloc s = (p, s') \<Longrightarrow> sched_typed n s \<Longrightarrow> sched_typed n s'"
  "set_state s job st = Some s' \<Longrightarrow> sched_typed n s \<Longrightarrow> sched_typed n s'"
  "fly_destroy_job s job = Some s' \<Longrightarrow> sched_typed n s \<Longrightarrow> sched_typed n s'"
  "fly_destroy_batches s job = Some s' \<Longrightarrow> sched_typed n s \<Longrightarrow> sched_typed n s'"
  "fly_get_exec_batch s job = Some (b, s') \<Longrightarrow> sched_typed n s \<Longrightarrow> sched_typed n s'"
  "fly_job_is_done s job = Some (d, s') \<Longrightarrow> sched_typed n s \<Longrightarrow> sched_typed n s'"
  "fly_create_job_pfor s count f a = (p, s') \<Longrightarrow> c_ok count \<Longrightarrow> sched_typed n s \<Longrightarrow> sched_typed n s'"
  "fly_create_job_pfarr s x z f a el = Some (p, s') \<Longrightarrow> c_ok x \<Longrightarrow> c_ok z \<Longrightarrow> sched_typed n s \<Longrightarrow> sched_typed n s'"
  "fly_create_job_task s t = Some (p, s') \<Longrightarrow> sched_typed n s \<Longrightarrow> sched_typed n s'"
  "get_job s p = Some j \<Longrightarrow> sched_typed n s \<Longrightarrow> (job_typed j \<Longrightarrow> job_typed j') \<Longrightarrow> sched_typed n (put_job s p j')"
  by (erule sched_lift, simp add: typed_step typed_create)+

lemma sched_make_batches [sched_step]:
  "fly_make_batches s job (nbworkers s) = Some (r, s') \<Longrightarrow> sched_typed n s \<Longrightarrow> sched_typed n s'"
  by (frule sched_lift) (auto simp: sched_typed_def intro: typed_step)

lemma post_code: "z = Some (r, y) \<Longrightarrow> post (\<lambda>p. err_code (fst p)) z \<Longrightarrow> err_code r"
  by (auto simp: post_def)

lemma err_make_batches [sched_step]:
  "fly_make_batches s job nb = Some (r, s') \<Longrightarrow> err_code r"
  by (erule post_code) (simp only: fly_make_batches_def body_simps; intro post_rules; simp add: sched_step)

lemma err_append [sched_step]: "fly_list_append s l e = Some (r, s') \<Longrightarrow> err_code r"
  by (auto simp: fly_list_append_def calls sched_step split: if_splits)

text \<open>The fields beyond the heap of jobs; the number of workers is not among those written here.\<close>

lemma sched_same:
  "jobs s' = jobs s \<Longrightarrow> batches s' = batches s \<Longrightarrow> nbworkers s' = nbworkers s \<Longrightarrow> sched_typed n s' = sched_typed n s"
  by (simp add: sched_typed_def typed_def)

lemma sched_fields [sched_step]:
  "sched_typed n (put_wt s r t) = sched_typed n s"
  "sched_typed n (set_lock s k l) = sched_typed n s"
  "sched_typed n (s\<lparr>workers := ws\<rparr>) = sched_typed n s"
  "sched_typed n (s\<lparr>tasks := T\<rparr>) = sched_typed n s"
  "sched_typed n (log_call s c) = sched_typed n s"
  "sched_typed n (put_task s p tk) = sched_typed n s"
  by (rule sched_same; cases k; simp add: put_wt_def log_call_def put_task_def set_lock.simps split: prod.splits)+

lemma sched_locks [sched_step]:
  "sched_notrack_wlock s k = Some s' \<Longrightarrow> sched_typed n s \<Longrightarrow> sched_typed n s'"
  "sched_wlock s k r = Some s' \<Longrightarrow> sched_typed n s \<Longrightarrow> sched_typed n s'"
  "sched_rlock s k r = Some s' \<Longrightarrow> sched_typed n s \<Longrightarrow> sched_typed n s'"
  "sched_wunlock s k = Some s' \<Longrightarrow> sched_typed n s \<Longrightarrow> sched_typed n s'"
  "sched_runlock s k = Some s' \<Longrightarrow> sched_typed n s \<Longrightarrow> sched_typed n s'"
  by (auto simp: sched_notrack_wlock_def sched_wlock_def sched_rlock_def sched_wunlock_def sched_runlock_def calls sched_step)

lemma sched_queues [sched_step]:
  "fly_sched_add_to_ready s job = Some (r, s') \<Longrightarrow> err_code r"
  "fly_sched_add_to_ready s job = Some (r, s') \<Longrightarrow> sched_typed n s \<Longrightarrow> sched_typed n s'"
  "fly_sched_get_ready s t = Some (p, s') \<Longrightarrow> sched_typed n s \<Longrightarrow> sched_typed n s'"
  "fly_sched_get_running s t = Some (p, s') \<Longrightarrow> sched_typed n s \<Longrightarrow> sched_typed n s'"
  "fly_sched_move_to_running s job t = Some s' \<Longrightarrow> sched_typed n s \<Longrightarrow> sched_typed n s'"
  "fly_sched_remove_running s job = Some s' \<Longrightarrow> sched_typed n s \<Longrightarrow> sched_typed n s'"
  "fly_sched_move_to_done s job = Some s' \<Longrightarrow> sched_typed n s \<Longrightarrow> sched_typed n s'"
  "fly_sched_job_collected s job = Some (r, s') \<Longrightarrow> sched_typed n s \<Longrightarrow> sched_typed n s'"
  by (auto simp: fly_sched_add_to_ready_def fly_sched_get_ready_def fly_sched_get_running_def
      fly_sched_move_to_running_def fly_sched_remove_running_def fly_sched_move_to_done_def
      fly_sched_job_collected_def calls sched_step)

lemma sched_notify_loop:
  "notify_loop s skip is = Some s' \<Longrightarrow> sched_typed n s \<Longrightarrow> sched_typed n s'"
  by (induction s skip "is" rule: notify_loop.induct) (auto simp: sched_step split: if_splits)

lemma sched_notify [sched_step]:
  "notify_workers s skip = Some s' \<Longrightarrow> sched_typed n s \<Longrightarrow> sched_typed n s'"
  by (simp add: notify_workers_def sched_notify_loop)

lemma sched_add_pfj [sched_step]:
  "fly_sched_add_pfj s job = Some (r, s') \<Longrightarrow> err_code r"
  "fly_sched_add_pfj s job = Some (r, s') \<Longrightarrow> sched_typed n s \<Longrightarrow> sched_typed n s'"
  by (auto simp: fly_sched_add_pfj_def calls sched_step split: if_splits)

lemma sched_add_job [sched_step]:
  "fly_sched_add_job s job = Some (r, s') \<Longrightarrow> err_code r"
  "fly_sched_add_job s job = Some (r, s') \<Longrightarrow> sched_typed n s \<Longrightarrow> sched_typed n s'"
  by (auto simp: fly_sched_add_job_def calls sched_step split: if_splits)

lemma sched_add_job_from_worker [sched_step]:
  "fly_sched_add_job_from_worker s job w = Some (r, s') \<Longrightarrow> err_code r"
  "fly_sched_add_job_from_worker s job w = Some (r, s') \<Longrightarrow> sched_typed n s \<Longrightarrow> sched_typed n s'"
  by (auto simp: fly_sched_add_job_from_worker_def calls sched_step split: if_splits)

lemma sched_pfptrj_loop [sched_step]:
  assumes "pfptrj_loop s job b k i = Some s'"
  shows "sched_typed n s \<Longrightarrow> sched_typed n s'"
  by (rule pfptrj_loop.raw_induct [where P = "\<lambda>s job b k i s'. sched_typed n s \<longrightarrow> sched_typed n s'", rule_format, OF _ assms])
    (auto simp: calls sched_step split: if_splits)

lemma sched_pfarrj_loop [sched_step]:
  assumes "pfarrj_loop s job b k i p = Some s'"
  shows "sched_typed n s \<Longrightarrow> sched_typed n s'"
  by (rule pfarrj_loop.raw_induct [where P = "\<lambda>s job b k i p s'. sched_typed n s \<longrightarrow> sched_typed n s'", rule_format, OF _ assms])
    (auto simp: calls sched_step split: if_splits)

lemma sched_inc_done [sched_step]:
  "inc_batches_done s job = Some s' \<Longrightarrow> sched_typed n s \<Longrightarrow> sched_typed n s'"
  by (auto simp: inc_batches_done_def fly_atomic_inc_def calls c_ok_wrap intro: sched_step)

lemma sched_execs [sched_step]:
  "fly_pfptrj_exec s job = Some (r, s') \<Longrightarrow> sched_typed n s \<Longrightarrow> sched_typed n s'"
  "fly_pfarrj_exec s job = Some (r, s') \<Longrightarrow> sched_typed n s \<Longrightarrow> sched_typed n s'"
  "fly_taskjob_exec s job = Some (r, s') \<Longrightarrow> sched_typed n s \<Longrightarrow> sched_typed n s'"
  "finish_if_done s job = Some s' \<Longrightarrow> sched_typed n s \<Longrightarrow> sched_typed n s'"
  by (auto simp: fly_pfptrj_exec_def fly_pfarrj_exec_def fly_taskjob_exec_def finish_if_done_def calls sched_step
      split: if_splits)

lemma sched_exec_job [sched_step]:
  "fly_sched_exec_job s job = Some (r, s') \<Longrightarrow> sched_typed n s \<Longrightarrow> sched_typed n s'"
  by (auto simp: fly_sched_exec_job_def calls sched_step split: if_splits)

lemma sched_get_job [sched_step]:
  "fly_sched_get_job s t = Some (p, s') \<Longrightarrow> sched_typed n s \<Longrightarrow> sched_typed n s'"
  by (auto simp: fly_sched_get_job_def calls sched_step typed_job_fields split: if_splits)

lemma sched_schedule [sched_step]:
  "wait_work s t = Some s' \<Longrightarrow> sched_typed n s \<Longrightarrow> sched_typed n s'"
  "fly_schedule s t = Some s' \<Longrightarrow> sched_typed n s \<Longrightarrow> sched_typed n s'"
  "fly_schedule_for_job s job = Some s' \<Longrightarrow> sched_typed n s \<Longrightarrow> sched_typed n s'"
  by (auto simp: wait_work_def fly_schedule_def fly_schedule_for_job_def calls sched_step split: if_splits)

lemma sched_wait_job [sched_step]:
  "fly_wait_job s job = Some (r, s') \<Longrightarrow> err_code r"
  "fly_wait_job s job = Some (r, s') \<Longrightarrow> sched_typed n s \<Longrightarrow> sched_typed n s'"
  by (auto simp: fly_wait_job_def Let_def calls sched_step split: if_splits)

lemma sched_turns [sched_step]: "turns s ts = Some s' \<Longrightarrow> sched_typed n s \<Longrightarrow> sched_typed n s'"
  by (induction s ts rule: turns.induct) (auto simp: calls sched_step)

lemma sched_recurse_loop [sched_step]:
  assumes "recurse_loop s job = Some s'"
  shows "sched_typed n s \<Longrightarrow> sched_typed n s'"
  by (rule recurse_loop.raw_induct [where P = "\<lambda>s job s'. sched_typed n s \<longrightarrow> sched_typed n s'", rule_format, OF _ assms])
    (auto simp: calls sched_step split: if_splits)

lemma sched_add_and_wait [sched_step]:
  "fly_add_job_and_wait s self job w ts = Some (r, s') \<Longrightarrow> err_code r"
  "fly_add_job_and_wait s self job w ts = Some (r, s') \<Longrightarrow> sched_typed n s \<Longrightarrow> sched_typed n s'"
  by (auto simp: fly_add_job_and_wait_def calls sched_step c_arith_ok split: if_splits option.splits)

lemma sched_parallel_for [sched_step]:
  "fly_parallel_for s self k f p ts = Some (r, s') \<Longrightarrow> err_code r"
  "fly_parallel_for s self k f p ts = Some (r, s') \<Longrightarrow> c_ok k \<Longrightarrow> sched_typed n s \<Longrightarrow> sched_typed n s'"
  "fly_parallel_for_arr s self a z f p el ts = Some (r, s') \<Longrightarrow> err_code r"
  "fly_parallel_for_arr s self a z f p el ts = Some (r, s') \<Longrightarrow> c_ok a \<Longrightarrow> c_ok z \<Longrightarrow> sched_typed n s \<Longrightarrow> sched_typed n s'"
  by (auto simp: fly_parallel_for_def fly_parallel_for_arr_def calls sched_step split: if_splits)

lemma sched_tasks [sched_step]:
  "fly_create_task s f p = Some (tk, s') \<Longrightarrow> sched_typed n s \<Longrightarrow> sched_typed n s'"
  "fly_destroy_task s tk = Some s' \<Longrightarrow> sched_typed n s \<Longrightarrow> sched_typed n s'"
  "fly_push_task s self tk = Some (r, s') \<Longrightarrow> err_code r"
  "fly_push_task s self tk = Some (r, s') \<Longrightarrow> sched_typed n s \<Longrightarrow> sched_typed n s'"
  "fly_wait_task s tk ts = Some (r, s') \<Longrightarrow> err_code r"
  "fly_wait_task s tk ts = Some (r, s') \<Longrightarrow> sched_typed n s \<Longrightarrow> sched_typed n s'"
  by (auto simp: fly_create_task_def fly_destroy_task_def fly_push_task_def fly_wait_task_def Let_def calls sched_step
      split: if_splits)

section \<open>Typed calls\<close>

fun call_typed :: "client_call \<Rightarrow> bool" where
  "call_typed (ParallelFor count f p ts) = c_ok count"
| "call_typed (ParallelForArr b e f arr el ts) = (c_ok b \<and> c_ok e)"
| "call_typed (RunTask f p w) = True"

text \<open>A loop returns a code of \<^verbatim>\<open>src/include/libfly/fly_error.h\<close>, a task its result or the code of a failure.\<close>

fun answers :: "client_call \<Rightarrow> client_res \<Rightarrow> bool" where
  "answers (RunTask f p w) (Value v) = True"
| "answers (RunTask f p w) (Code r) = (err_code r \<and> r \<noteq> fly_err FLYESUCCESS)"
| "answers x (Value v) = False"
| "answers x (Code r) = err_code r"

lemma sched_client_step [sched_step]:
  "client_step s self x = Some (r, s') \<Longrightarrow> answers x r"
  "client_step s self x = Some (r, s') \<Longrightarrow> call_typed x \<Longrightarrow> sched_typed n s \<Longrightarrow> sched_typed n s'"
  by (cases x; auto simp: run_task_def calls sched_step split: if_splits)+

section \<open>Properties\<close>



end
