(* ===== verification/Fly_Conc.thy ===== *)
theory Fly_Conc
  imports Fly_Thread
begin

text \<open>
  One parallel job under concurrent workers: \<^verbatim>\<open>fly_sched_exec_job\<close> of
  \<^verbatim>\<open>src/fly_sched.c\<close>, \<^verbatim>\<open>fly_get_exec_batch\<close> and \<^verbatim>\<open>fly_wait_job\<close> of
  \<^verbatim>\<open>src/fly_job.c\<close>, and the end of \<^verbatim>\<open>fly_parallel_for\<close> in
  \<^verbatim>\<open>src/fly.c\<close>, interleaved at each access to what the threads share.

  A step of any number of worker threads is one atomic builtin, one section under a queue's lock, one
  call of the client's function for a whole batch, or one post.  The client that added the job is the
  last thread; it waits, collects the job and destroys it.  Other jobs appear only in that a worker
  may find this one last in the running queue although it is complete.
\<close>

section \<open>States\<close>

text \<open>
  Where a worker stands: not at the job; with the job taken from the ready queue; at the batch
  number \<open>k\<close> of the search; in the client's function; before the increment; before the test for
  completion; and the stages of finishing the job, each before its action.
\<close>

datatype jpc = Away | Moving | Claiming nat | Executing nat | Counting | Asking
  | Marking | Unqueuing | Finishing | Posting

datatype waiter = AtWait | Collecting | Destroying | Returned

record jsys =
  js_flags :: "int list"
  js_done :: int
  js_ready :: bool
  js_running :: nat
  js_donelist :: nat
  js_sem :: nat
  js_ran :: "nat list"
  js_alive :: bool
  js_waiter :: waiter
  js_pcs :: "nat \<Rightarrow> jpc"

abbreviation at :: "jsys \<Rightarrow> nat \<Rightarrow> jpc \<Rightarrow> (nat \<Rightarrow> jpc)" where
  "at s t p \<equiv> (js_pcs s)(t := p)"

text \<open>The places before an access to the job's memory; it is undefined once the job is freed.\<close>

fun touches :: "jpc \<Rightarrow> bool" where
  "touches Away = False"
| "touches Unqueuing = False"
| "touches Finishing = False"
| "touches _ = True"

definition use_after_free :: "jsys \<Rightarrow> bool" where
  "use_after_free s \<longleftrightarrow> \<not> js_alive s \<and> (\<exists>t. touches (js_pcs s t))"

inductive job_step :: "jsys \<Rightarrow> jsys \<Rightarrow> bool" where
  take_ready: "js_pcs s t = Away \<Longrightarrow> js_ready s \<Longrightarrow>
    job_step s (s\<lparr>js_ready := False, js_pcs := at s t Moving\<rparr>)"
| move: "js_pcs s t = Moving \<Longrightarrow> js_alive s \<Longrightarrow>
    job_step s (s\<lparr>js_running := Suc (js_running s), js_pcs := at s t (Claiming 0)\<rparr>)"
| pick: "js_pcs s t = Away \<Longrightarrow> 0 < js_running s \<Longrightarrow> js_alive s \<Longrightarrow>
    job_step s (s\<lparr>js_pcs := at s t (Claiming 0)\<rparr>)"
| claim: "js_pcs s t = Claiming k \<Longrightarrow> js_alive s \<Longrightarrow> k < length (js_flags s) \<Longrightarrow>
    fly_atomic_cas (js_flags s ! k) 0 1 = (taken, v) \<Longrightarrow>
    job_step s (s\<lparr>js_flags := (js_flags s)[k := v],
      js_pcs := at s t (if taken then Executing k else Claiming (Suc k))\<rparr>)"
| no_batch: "js_pcs s t = Claiming k \<Longrightarrow> js_alive s \<Longrightarrow> length (js_flags s) \<le> k \<Longrightarrow>
    job_step s (s\<lparr>js_pcs := at s t Asking\<rparr>)"
| execute: "js_pcs s t = Executing k \<Longrightarrow> js_alive s \<Longrightarrow>
    job_step s (s\<lparr>js_ran := js_ran s @ [k], js_pcs := at s t Counting\<rparr>)"
| count: "js_pcs s t = Counting \<Longrightarrow> js_alive s \<Longrightarrow> fly_atomic_inc (js_done s) 1 = (r, v) \<Longrightarrow>
    job_step s (s\<lparr>js_done := v, js_pcs := at s t Asking\<rparr>)"
| ask: "js_pcs s t = Asking \<Longrightarrow> js_alive s \<Longrightarrow>
    fly_atomic_cas (js_done s) (int (length (js_flags s))) (int (length (js_flags s))) = (d, v) \<Longrightarrow>
    job_step s (s\<lparr>js_done := v, js_pcs := at s t (if d then Marking else Away)\<rparr>)"
| mark: "js_pcs s t = Marking \<Longrightarrow> js_alive s \<Longrightarrow> job_step s (s\<lparr>js_pcs := at s t Unqueuing\<rparr>)"
| unqueue: "js_pcs s t = Unqueuing \<Longrightarrow>
    job_step s (s\<lparr>js_running := js_running s - 1, js_pcs := at s t Finishing\<rparr>)"
| to_done: "js_pcs s t = Finishing \<Longrightarrow>
    job_step s (s\<lparr>js_donelist := Suc (js_donelist s), js_pcs := at s t Posting\<rparr>)"
| post: "js_pcs s t = Posting \<Longrightarrow> js_alive s \<Longrightarrow>
    job_step s (s\<lparr>js_sem := Suc (js_sem s), js_pcs := at s t Away\<rparr>)"
| wait_over: "js_waiter s = AtWait \<Longrightarrow> js_sem s = Suc n \<Longrightarrow>
    job_step s (s\<lparr>js_sem := n, js_waiter := Collecting\<rparr>)"
| collect: "js_waiter s = Collecting \<Longrightarrow>
    job_step s (s\<lparr>js_donelist := js_donelist s - 1, js_waiter := Destroying\<rparr>)"
| destroy: "js_waiter s = Destroying \<Longrightarrow> job_step s (s\<lparr>js_alive := False, js_waiter := Returned\<rparr>)"

text \<open>After \<^verbatim>\<open>fly_sched_add_job\<close>: \<open>n\<close> unclaimed batches, the job in the ready queue.\<close>

definition job_start :: "nat \<Rightarrow> jsys" where
  "job_start n = \<lparr>js_flags = replicate n 0, js_done = 0, js_ready = True, js_running = 0, js_donelist = 0,
     js_sem = 0, js_ran = [], js_alive = True, js_waiter = AtWait, js_pcs = \<lambda>_. Away\<rparr>"

section \<open>The invariant\<close>

text \<open>Every claimed batch has run or is with exactly one thread.\<close>

definition claims_inv :: "nat \<Rightarrow> jsys \<Rightarrow> bool" where
  "claims_inv n s \<longleftrightarrow>
     length (js_flags s) = n \<and> distinct (js_ran s) \<and>
     (\<forall>k \<in> set (js_ran s). k < n \<and> js_flags s ! k \<noteq> 0) \<and>
     (\<forall>t k. js_pcs s t = Executing k \<longrightarrow> k < n \<and> js_flags s ! k \<noteq> 0 \<and> k \<notin> set (js_ran s)) \<and>
     (\<forall>t u k. js_pcs s t = Executing k \<and> js_pcs s u = Executing k \<longrightarrow> t = u) \<and>
     (\<forall>k < n. js_flags s ! k \<noteq> 0 \<longrightarrow> k \<in> set (js_ran s) \<or> (\<exists>t. js_pcs s t = Executing k))"

text \<open>The counter counts the batches that have run, but for the increments under way.\<close>

definition counter_inv :: "jsys \<Rightarrow> bool" where
  "counter_inv s \<longleftrightarrow> finite {t. js_pcs s t \<noteq> Away} \<and> 0 \<le> js_done s \<and>
     js_done s + pc_count ((=) Counting) (js_pcs s) = int (length (js_ran s))"

fun finishing :: "jpc \<Rightarrow> bool" where
  "finishing Marking = True"
| "finishing Unqueuing = True"
| "finishing Finishing = True"
| "finishing Posting = True"
| "finishing _ = False"

text \<open>The job is finished only when it is complete, and then it is: nobody has to come for it.\<close>

definition someone :: "(jpc \<Rightarrow> bool) \<Rightarrow> (nat \<Rightarrow> jpc) \<Rightarrow> bool" where
  "someone P f \<longleftrightarrow> (\<exists>t. P (f t))"

definition finish_inv :: "nat \<Rightarrow> jsys \<Rightarrow> bool" where
  "finish_inv n s \<longleftrightarrow>
     (someone finishing (js_pcs s) \<or> 0 < js_sem s \<or> js_waiter s \<noteq> AtWait \<longrightarrow> js_done s = int n) \<and>
     (js_waiter s = AtWait \<and> js_done s = int n \<and> js_sem s = 0 \<longrightarrow>
        someone ((=) Asking) (js_pcs s) \<or> someone finishing (js_pcs s)) \<and>
     (js_ready s \<or> someone ((=) Moving) (js_pcs s) \<or> 0 < js_running s \<or> js_done s = int n)"

lemma someoneI: "P (f t) \<Longrightarrow> someone P f"
  unfolding someone_def by blast

lemma someone_upd: "\<not> P (f t) \<Longrightarrow> someone P (f(t := x)) \<longleftrightarrow> P x \<or> someone P f"
  unfolding someone_def by (metis fun_upd_apply)

lemma someone_here: "P x \<Longrightarrow> someone P (f(t := x))"
  unfolding someone_def by (metis fun_upd_same)

definition job_inv :: "nat \<Rightarrow> jsys \<Rightarrow> bool" where
  "job_inv n s \<longleftrightarrow> claims_inv n s \<and> counter_inv s \<and> finish_inv n s"

lemma job_inv_start:
  assumes "0 < n"
  shows "job_inv n (job_start n)"
  using assms by (simp add: job_inv_def claims_inv_def counter_inv_def finish_inv_def job_start_def someone_def pc_count_def)

lemma ran_bound:
  assumes "claims_inv n s"
  shows "length (js_ran s) \<le> n" and "length (js_ran s) = n \<Longrightarrow> set (js_ran s) = {..<n}"
proof -
  have d: "distinct (js_ran s)" "set (js_ran s) \<subseteq> {..<n}" using assms by (auto simp: claims_inv_def)
  then show "length (js_ran s) \<le> n"
    using card_mono [OF _ d(2)] by (simp add: distinct_card)
  show "set (js_ran s) = {..<n}" if "length (js_ran s) = n"
    using d that by (intro card_subset_eq) (simp_all add: distinct_card)
qed

text \<open>A thread that neither starts nor ends the execution of a batch changes nothing here.\<close>

lemma claims_idle:
  assumes "claims_inv n s" and "js_flags s' = js_flags s" and "js_ran s' = js_ran s"
    and "\<And>u k. js_pcs s' u = Executing k \<longleftrightarrow> js_pcs s u = Executing k"
  shows "claims_inv n s'"
  using assms(1) unfolding claims_inv_def assms(2-4) .

lemma claims_step:
  assumes "claims_inv n s" and "job_step s s'"
  shows "claims_inv n s'"
  using assms(2)
proof (cases rule: job_step.cases)
  case (claim t k taken v)
  show ?thesis
  proof (cases "js_flags s ! k = 0")
    case True
    with claim have v: "taken" "v = 1" by (simp_all add: fly_atomic_cas_def)
    have "k \<notin> set (js_ran s)" "js_pcs s u \<noteq> Executing k" for u
      using assms(1) True by (auto simp: claims_inv_def)
    with assms(1) claim v show ?thesis
      by (auto simp: claims_inv_def nth_list_update) (metis jpc.distinct)
  next
    case False
    with claim have v: "\<not> taken" "v = js_flags s ! k" by (simp_all add: fly_atomic_cas_def)
    with claim show ?thesis by (intro claims_idle [OF assms(1)]) auto
  qed
next
  case (execute t k)
  with assms(1) show ?thesis by (auto simp: claims_inv_def) (metis jpc.inject)
qed (rule claims_idle [OF assms(1)]; auto split: if_splits)+

lemma counting_finite: "finite {t. f t \<noteq> Away} \<Longrightarrow> finite {t. Counting = f t}"
  by (rule finite_subset [of _ "{t. f t \<noteq> Away}"]) auto

lemma counting_below:
  assumes "counter_inv s" and "claims_inv n s" and "js_pcs s t = Counting"
  shows "js_done s + 1 \<le> int n"
proof -
  have "finite {u. Counting = js_pcs s u}"
    using assms(1) counting_finite [of "js_pcs s"] by (simp add: counter_inv_def)
  then have "0 < pc_count ((=) Counting) (js_pcs s)"
    using assms(3) [symmetric] by (auto simp: pc_count_def card_gt_0_iff)
  then show ?thesis using assms(1) ran_bound(1) [OF assms(2)] by (simp add: counter_inv_def)
qed

lemma counter_step:
  assumes "counter_inv s" and "claims_inv n s" and "c_ok (int n)" and "job_step s s'"
  shows "counter_inv s'"
proof -
  have f: "finite {t. js_pcs s t \<noteq> Away}" using assms(1) by (simp add: counter_inv_def)
  note upd = finite_moved [OF f] pc_count_upd [where P = "(=) Counting" and f = "js_pcs s", OF counting_finite [OF f]]
  show ?thesis
    using assms(4)
  proof (cases rule: job_step.cases)
    case (count t r v)
    have "js_done s + 1 \<le> int n" by (rule counting_below [OF assms(1,2) count(2)])
    then have "c_ok (js_done s + 1)" using assms(1,3) by (simp add: c_ok_iff counter_inv_def)
    then have "v = js_done s + 1" using count(4) by (simp add: fly_atomic_inc_def)
    with count assms(1) upd show ?thesis by (simp add: counter_inv_def)
  next
    case (claim t k taken v)
    with assms(1) upd show ?thesis by (simp add: counter_inv_def)
  next
    case (ask t d v)
    then have "v = js_done s" by (auto simp: fly_atomic_cas_def split: if_splits)
    with ask assms(1) upd show ?thesis by (simp add: counter_inv_def)
  qed (use assms(1) upd in \<open>simp_all add: counter_inv_def\<close>)
qed

lemma finish_step:
  assumes "finish_inv n s" and "counter_inv s" and "claims_inv n s" and "c_ok (int n)" and "job_step s s'"
  shows "finish_inv n s'"
proof -
  note inv = finish_inv_def someone_upd someone_here
  have fin: "finishing (js_pcs s t) \<Longrightarrow> js_done s = int n" for t
    using assms(1) someoneI [of finishing "js_pcs s" t] by (simp add: finish_inv_def)
  show ?thesis
    using assms(5)
  proof (cases rule: job_step.cases)
    case (count t r v)
    have lt: "js_done s + 1 \<le> int n" by (rule counting_below [OF assms(2,3) count(2)])
    then have "c_ok (js_done s + 1)" using assms(2,4) by (simp add: c_ok_iff counter_inv_def)
    then have v: "v = js_done s + 1" using count(4) by (simp add: fly_atomic_inc_def)
    have "\<not> someone finishing (js_pcs s)" "js_sem s = 0" "js_waiter s = AtWait"
      using assms(1) lt by (auto simp: finish_inv_def)
    with count v assms(1) lt show ?thesis by (auto simp: inv)
  next
    case (ask t d v)
    have "length (js_flags s) = n" using assms(3) by (simp add: claims_inv_def)
    with ask have "d = (js_done s = int n)" "v = js_done s" by (auto simp: fly_atomic_cas_def split: if_splits)
    with ask assms(1) show ?thesis by (auto simp: inv)
  next
    case (mark t)
    with assms(1) fin [of t] show ?thesis by (auto simp: inv)
  next
    case (unqueue t)
    with assms(1) fin [of t] show ?thesis by (auto simp: inv)
  next
    case (to_done t)
    with assms(1) fin [of t] show ?thesis by (auto simp: inv)
  next
    case (post t)
    with assms(1) fin [of t] show ?thesis by (auto simp: inv)
  qed (use assms(1) in \<open>auto simp: inv\<close>)
qed

definition job_init :: "nat \<Rightarrow> jsys \<Rightarrow> bool" where
  "job_init n s \<longleftrightarrow> 0 < n \<and> c_ok (int n) \<and> s = job_start n"

interpretation one_job: invariant_system "job_init n" job_step "\<lambda>s. c_ok (int n) \<and> job_inv n s" for n
proof unfold_locales
  fix s t
  show "c_ok (int n) \<and> job_inv n s" if "job_init n s"
    using that job_inv_start by (simp add: job_init_def)
  show "c_ok (int n) \<and> job_inv n t" if "c_ok (int n) \<and> job_inv n s" "job_step s t"
    using that claims_step counter_step finish_step unfolding job_inv_def by blast
qed

text \<open>A complete job has run every batch, and nobody is in the client's function.\<close>

lemma complete_ran:
  assumes "job_inv n s" and "js_done s = int n"
  shows "distinct (js_ran s)" and "set (js_ran s) = {..<n}" and "js_pcs s t \<noteq> Executing k"
proof -
  have c: "claims_inv n s" and d: "counter_inv s" using assms(1) by (simp_all add: job_inv_def)
  have "length (js_ran s) = n" using ran_bound(1) [OF c] d assms(2) pc_count_nonneg [of "(=) Counting" "js_pcs s"]
    by (simp add: counter_inv_def)
  then show r: "set (js_ran s) = {..<n}" by (rule ran_bound(2) [OF c])
  show "distinct (js_ran s)" using c by (simp add: claims_inv_def)
  show "js_pcs s t \<noteq> Executing k" using c r by (auto simp: claims_inv_def)
qed

section \<open>A run of two workers\<close>

definition two_at :: "jpc \<Rightarrow> jpc \<Rightarrow> nat \<Rightarrow> jpc" where
  "two_at p q = (\<lambda>_. Away)(0 := p, 1 := q)"

lemma two_at_simps [simp]:
  "two_at p q 0 = p" "two_at p q (Suc 0) = q"
  "(two_at p q)(0 := x) = two_at x q" "(two_at p q)(Suc 0 := x) = two_at p x"
  by (auto simp: two_at_def)

text \<open>Both have run their batch and are about to test for completion.\<close>

lemma both_asking:
  "reach (job_init 2) job_step \<lparr>js_flags = [1, 1], js_done = 2, js_ready = False, js_running = 1, js_donelist = 0,
     js_sem = 0, js_ran = [0, 1], js_alive = True, js_waiter = AtWait, js_pcs = two_at Asking Asking\<rparr>"
proof -
  let ?r = "reach (job_init 2) job_step"
  let ?s = "\<lambda>f d b r x p q. \<lparr>js_flags = f, js_done = d, js_ready = b, js_running = r, js_donelist = 0,
     js_sem = 0, js_ran = x, js_alive = True, js_waiter = AtWait, js_pcs = two_at p q\<rparr>"
  have "two_at Away Away = (\<lambda>_. Away)" by (auto simp: two_at_def)
  then have "job_init 2 (?s [0, 0] 0 True 0 [] Away Away)"
    by (simp add: job_init_def job_start_def c_ok_iff numeral_2_eq_2)
  then have "?r (?s [0, 0] 0 True 0 [] Away Away)" by (rule reach_init)
  from reach_step [OF this take_ready [of _ 0]] have "?r (?s [0, 0] 0 False 0 [] Moving Away)" by simp
  from reach_step [OF this move [of _ 0]] have "?r (?s [0, 0] 0 False 1 [] (Claiming 0) Away)" by simp
  from reach_step [OF this pick [of _ 1]] have "?r (?s [0, 0] 0 False 1 [] (Claiming 0) (Claiming 0))" by simp
  from reach_step [OF this claim [of _ 0 0 True 1]] have "?r (?s [1, 0] 0 False 1 [] (Executing 0) (Claiming 0))"
    by (simp add: fly_atomic_cas_def)
  from reach_step [OF this claim [of _ 1 0 False 1]] have "?r (?s [1, 0] 0 False 1 [] (Executing 0) (Claiming 1))"
    by (simp add: fly_atomic_cas_def)
  from reach_step [OF this claim [of _ 1 1 True 1]] have "?r (?s [1, 1] 0 False 1 [] (Executing 0) (Executing 1))"
    by (simp add: fly_atomic_cas_def)
  from reach_step [OF this execute [of _ 0 0]] have "?r (?s [1, 1] 0 False 1 [0] Counting (Executing 1))" by simp
  from reach_step [OF this execute [of _ 1 1]] have "?r (?s [1, 1] 0 False 1 [0, 1] Counting Counting)" by simp
  from reach_step [OF this count [of _ 0 1 1]] have "?r (?s [1, 1] 1 False 1 [0, 1] Asking Counting)"
    by (simp add: fly_atomic_inc_def)
  from reach_step [OF this count [of _ 1 2 2]] show ?thesis by (simp add: fly_atomic_inc_def c_ok_iff)
qed

text \<open>The first of them finishes the job and the client collects and destroys it.\<close>

lemma first_finishes:
  "reach (job_init 2) job_step \<lparr>js_flags = [1, 1], js_done = 2, js_ready = False, js_running = 0, js_donelist = 0,
     js_sem = 0, js_ran = [0, 1], js_alive = False, js_waiter = Returned, js_pcs = two_at Away Asking\<rparr>"
proof -
  let ?r = "reach (job_init 2) job_step"
  let ?s = "\<lambda>r l m a w p. \<lparr>js_flags = [1, 1], js_done = 2, js_ready = False, js_running = r, js_donelist = l,
     js_sem = m, js_ran = [0, 1], js_alive = a, js_waiter = w, js_pcs = two_at p Asking\<rparr>"
  from reach_step [OF both_asking ask [of _ 0 True 2]] have "?r (?s 1 0 0 True AtWait Marking)"
    by (simp add: fly_atomic_cas_def)
  from reach_step [OF this mark [of _ 0]] have "?r (?s 1 0 0 True AtWait Unqueuing)" by simp
  from reach_step [OF this unqueue [of _ 0]] have "?r (?s 0 0 0 True AtWait Finishing)" by simp
  from reach_step [OF this to_done [of _ 0]] have "?r (?s 0 1 0 True AtWait Posting)" by simp
  from reach_step [OF this post [of _ 0]] have "?r (?s 0 1 1 True AtWait Away)" by simp
  from reach_step [OF this wait_over [of _ 0]] have "?r (?s 0 1 0 True Collecting Away)" by simp
  from reach_step [OF this collect] have "?r (?s 0 0 0 True Destroying Away)" by simp
  from reach_step [OF this destroy] show ?thesis by simp
qed

section \<open>Properties\<close>

text \<open>
  C13. No batch is run twice, whatever the interleaving of any number of worker threads, and the client
  does not get past its wait before every batch has been run and every call of its function has
  returned.
\<close>

theorem wait_ends_after_all_batches:
  assumes "reach (job_init n) job_step s"
  shows "distinct (js_ran s) \<and> set (js_ran s) \<subseteq> {..<n} \<and>
    (js_waiter s \<noteq> AtWait \<longrightarrow> set (js_ran s) = {..<n} \<and> (\<forall>t k. js_pcs s t \<noteq> Executing k))"
proof -
  have i: "job_inv n s" using one_job.reach_inv [OF assms] by blast
  then have "distinct (js_ran s) \<and> set (js_ran s) \<subseteq> {..<n}"
    by (auto simp: job_inv_def claims_inv_def)
  moreover have "js_waiter s \<noteq> AtWait \<longrightarrow> js_done s = int n" using i by (simp add: job_inv_def finish_inv_def)
  ultimately show ?thesis using complete_ran [OF i] by blast
qed

theorem wait_ends_after_all_batches_witness:
  "\<exists>s. reach (job_init 2) job_step s \<and> js_waiter s = Returned \<and> set (js_ran s) = {..<2}"
  using wait_ends_after_all_batches [OF first_finishes] first_finishes by fastforce



text \<open>
  C28. A worker can use a job after it is freed.  With two batches, each run by one of two workers, both
  workers test for completion after both increments; the first finishes the job, the client wakes up and
  destroys it, and the second is still to read it.
\<close>

theorem job_used_after_free:
  "\<exists>s. reach (job_init 2) job_step s \<and> use_after_free s \<and> js_pcs s 1 = Asking"
proof -
  have "touches (two_at Away Asking 1)" by simp
  then have "\<exists>t. touches (two_at Away Asking t)" by blast
  with first_finishes show ?thesis
    by (intro exI conjI) (assumption, simp_all add: use_after_free_def)
qed

end
