(* ===== verification/Fly_Sim.thy ===== *)
theory Fly_Sim
  imports Fly_Turns Fly_Conc "HOL-Library.Multiset"
begin

text \<open>
  The two models of a parallel job belong together: an execution by
  \<^verbatim>\<open>fly_sched_exec_job\<close> in the detailed model of the heap (\<open>Fly_Exec\<close>) is a run of one
  thread in the interleaving \<open>job_step\<close> of \<open>Fly_Conc\<close>, and a job that has just been added is
  a start of that interleaving.
\<close>

section \<open>What the interleaving sees of the heap\<close>

text \<open>
  The flags, the count, the queues and the semaphore are those of the job at \<open>job\<close>; \<open>g k\<close> are the
  calls of the batch \<open>k\<close>, and those made since the log was \<open>c0\<close> are those of the batches that
  have run.
\<close>

definition job_view ::
  "fly_sched \<Rightarrow> ptr list \<Rightarrow> ptr list \<Rightarrow> ptr list \<Rightarrow> ptr \<Rightarrow> fly_job \<Rightarrow> fly_job_batch list \<Rightarrow> (nat \<Rightarrow> call list) \<Rightarrow> call list \<Rightarrow>
    jsys \<Rightarrow> bool"
where
  "job_view s R U D job j bs g c0 c \<longleftrightarrow> js_flags c = map b_execed bs \<and> js_done c = j_batches_done j \<and>
     js_ready c = (job \<in> set R) \<and> js_running c = count_list U job \<and> js_donelist c = count_list D job \<and>
     js_sem c = j_sem j \<and> js_alive c \<and> calls s = c0 @ concat (map g (js_ran c))"

text \<open>The detailed state and its view together.\<close>

definition viewed ::
  "fly_sched \<Rightarrow> ptr list \<Rightarrow> ptr list \<Rightarrow> ptr list \<Rightarrow> ptr \<Rightarrow> (nat \<Rightarrow> call list) \<Rightarrow> call list \<Rightarrow> jsys \<Rightarrow> bool"
where
  "viewed s R U D job g c0 c \<longleftrightarrow> (\<exists>E es j f bs. sched_rep s E R U D \<and> E job = Some es \<and> not_queue s job \<and>
     job_holds s job j es bs \<and> pfor_ok j f \<and> (\<forall>b \<in> set bs. batch_ok b) \<and> j_nbbatches j = int (length bs) \<and>
     (\<forall>k < length bs. g k = batch_calls j f (bs ! k)) \<and> job_view s R U D job j bs g c0 c)"

abbreviation steps :: "jsys \<Rightarrow> jsys \<Rightarrow> bool" where
  "steps \<equiv> job_step\<^sup>*\<^sup>*"

lemma step1: "steps c c1 \<Longrightarrow> job_step c1 c2 \<Longrightarrow> steps c c2"
  by (rule rtranclp.rtrancl_into_rtrancl)

section \<open>The stages of an execution\<close>

text \<open>The search passes over the claimed batches.\<close>

lemma scan_steps:
  assumes "js_pcs c t = Claiming i" and "js_alive c" and "i + n \<le> length (js_flags c)"
    and "\<forall>k. i \<le> k \<and> k < i + n \<longrightarrow> js_flags c ! k \<noteq> 0"
  shows "steps c (c\<lparr>js_pcs := at c t (Claiming (i + n))\<rparr>)"
  using assms
proof (induction n)
  case 0
  then have "at c t (Claiming (i + 0)) = js_pcs c" by auto
  then show ?case by simp
next
  case (Suc n)
  let ?c = "c\<lparr>js_pcs := at c t (Claiming (i + n))\<rparr>"
  have 1: "steps c ?c" by (rule Suc.IH) (use Suc.prems in simp_all)
  have "fly_atomic_cas (js_flags ?c ! (i + n)) 0 1 = (False, js_flags ?c ! (i + n))"
    using Suc.prems(4) by (simp add: fly_atomic_cas_def)
  from claim [where s = ?c and t = t and k = "i + n", OF _ _ _ this]
  have "job_step ?c (c\<lparr>js_pcs := at c t (Claiming (i + Suc n))\<rparr>)" using Suc.prems(2,3) by simp
  from step1 [OF 1 this] show ?case .
qed

lemma take_steps:
  assumes "js_pcs c t = Claiming 0" and "js_alive c" and "js_flags c = fs @ 0 # gs" and "\<forall>x \<in> set fs. x \<noteq> 0"
    and "v = c_wrap (js_done c + 1)"
  shows "steps c (c\<lparr>js_flags := fs @ 1 # gs, js_ran := js_ran c @ [length fs], js_done := v, js_pcs := at c t Asking\<rparr>)"
proof -
  let ?n = "length fs"
  let ?c1 = "c\<lparr>js_pcs := at c t (Claiming ?n)\<rparr>"
  let ?c2 = "c\<lparr>js_flags := fs @ 1 # gs, js_pcs := at c t (Executing ?n)\<rparr>"
  let ?c3 = "c\<lparr>js_flags := fs @ 1 # gs, js_ran := js_ran c @ [?n], js_pcs := at c t Counting\<rparr>"
  let ?c4 = "c\<lparr>js_flags := fs @ 1 # gs, js_ran := js_ran c @ [?n], js_done := v, js_pcs := at c t Asking\<rparr>"
  have "\<forall>k. 0 \<le> k \<and> k < 0 + ?n \<longrightarrow> js_flags c ! k \<noteq> 0" using assms(3,4) by (auto simp: nth_append)
  from scan_steps [OF assms(1,2) _ this] assms(3) have 1: "steps c ?c1" by simp
  have "fly_atomic_cas (js_flags ?c1 ! ?n) 0 1 = (True, 1)" using assms(3) by (simp add: fly_atomic_cas_def)
  from claim [where s = ?c1 and t = t and k = ?n, OF _ _ _ this] have "job_step ?c1 ?c2" using assms(2,3) by simp
  moreover have "job_step ?c2 ?c3" using execute [where s = ?c2 and t = t and k = ?n] assms(2) by simp
  moreover have "fly_atomic_inc (js_done ?c3) 1 = (js_done c, v) \<or> fly_atomic_inc (js_done ?c3) 1 = (v, v)"
    using assms(5) by (simp add: fly_atomic_inc_def)
  then have "job_step ?c3 ?c4" using job_step.count [where s = ?c3 and t = t] assms(2) by auto
  ultimately show ?thesis using 1 step1 by blast
qed

lemma none_steps:
  assumes "js_pcs c t = Claiming 0" and "js_alive c" and "\<forall>x \<in> set (js_flags c). x \<noteq> 0"
  shows "steps c (c\<lparr>js_pcs := at c t Asking\<rparr>)"
proof -
  let ?c = "c\<lparr>js_pcs := at c t (Claiming (length (js_flags c)))\<rparr>"
  have "\<forall>k. 0 \<le> k \<and> k < 0 + length (js_flags c) \<longrightarrow> js_flags c ! k \<noteq> 0" using assms(3) by simp
  from scan_steps [OF assms(1,2) _ this] have "steps c ?c" by simp
  moreover have "job_step ?c (c\<lparr>js_pcs := at c t Asking\<rparr>)" using no_batch [where s = ?c and t = t] assms(2) by simp
  ultimately show ?thesis by (rule step1)
qed

text \<open>From the test for completion on.\<close>

lemma leave_steps:
  assumes "js_pcs c t = Asking" and "js_alive c" and "js_done c \<noteq> int (length (js_flags c))"
  shows "steps c (c\<lparr>js_pcs := at c t Away\<rparr>)"
proof -
  have "fly_atomic_cas (js_done c) (int (length (js_flags c))) (int (length (js_flags c))) = (False, js_done c)"
    using assms(3) by (simp add: fly_atomic_cas_def)
  from ask [OF assms(1,2) this] show ?thesis by (intro r_into_rtranclp) simp
qed

lemma finish_steps:
  assumes "js_pcs c t = Asking" and "js_alive c" and "js_done c = int (length (js_flags c))"
  shows "steps c (c\<lparr>js_running := js_running c - 1, js_donelist := Suc (js_donelist c), js_sem := Suc (js_sem c),
    js_pcs := at c t Away\<rparr>)"
proof -
  let ?c1 = "c\<lparr>js_pcs := at c t Marking\<rparr>" and ?c2 = "c\<lparr>js_pcs := at c t Unqueuing\<rparr>"
  let ?c3 = "c\<lparr>js_running := js_running c - 1, js_pcs := at c t Finishing\<rparr>"
  let ?c4 = "c\<lparr>js_running := js_running c - 1, js_donelist := Suc (js_donelist c), js_pcs := at c t Posting\<rparr>"
  let ?c5 = "c\<lparr>js_running := js_running c - 1, js_donelist := Suc (js_donelist c), js_sem := Suc (js_sem c), js_pcs := at c t Away\<rparr>"
  have "fly_atomic_cas (js_done c) (int (length (js_flags c))) (int (length (js_flags c))) = (True, js_done c)"
    using assms(3) by (simp add: fly_atomic_cas_def)
  from ask [OF assms(1,2) this] have "job_step c ?c1" by simp
  moreover have "job_step ?c1 ?c2" using mark [where s = ?c1 and t = t] assms(2) by simp
  moreover have "job_step ?c2 ?c3" using unqueue [where s = ?c2 and t = t] by simp
  moreover have "job_step ?c3 ?c4" using to_done [where s = ?c3 and t = t] by simp
  moreover have "job_step ?c4 ?c5" using post [where s = ?c4 and t = t] assms(2) by simp
  ultimately show ?thesis by (meson r_into_rtranclp step1)
qed

section \<open>An execution is a run of the interleaving\<close>

lemma count_remove1: "count_list (remove1 x xs) x = count_list xs x - 1"
  by (induction xs) auto

lemma batch_calls_state [simp]: "batch_calls (j\<lparr>j_state := a, j_sem := b\<rparr>) f = batch_calls j f"
  by (rule ext) (simp add: batch_calls.simps)

lemma view_finish:
  assumes "viewed s R U D job g c0 c" and "js_pcs c t = Asking" and "malloc_ok s (brk s)"
  shows "\<exists>s' U' D' c'. finish_if_done s job = Some s' \<and> viewed s' R U' D' job g c0 c' \<and> steps c c' \<and>
    js_pcs c' = at c t Away \<and> (U' = U \<or> U' = remove1 job U) \<and> heap_step s s'"
proof -
  obtain E es j f bs where v: "sched_rep s E R U D" "E job = Some es" "not_queue s job" "job_holds s job j es bs"
    "pfor_ok j f" "\<forall>b \<in> set bs. batch_ok b" "j_nbbatches j = int (length bs)"
    "\<forall>k < length bs. g k = batch_calls j f (bs ! k)" "job_view s R U D job j bs g c0 c"
    using assms(1) unfolding viewed_def by blast
  have g: "get_job s job = Some j" "job \<noteq> NULL" using v(4) by (simp_all add: job_holds_def get_job_iff)
  have c: "js_alive c" "js_done c = j_batches_done j" "length (js_flags c) = length bs" using v(9) by (simp_all add: job_view_def)
  show ?thesis
  proof (cases "j_batches_done j = j_nbbatches j")
    case False
    let ?c = "c\<lparr>js_pcs := at c t Away\<rparr>"
    have "steps c ?c" using leave_steps [OF assms(2) c(1)] c(2,3) v(7) False by simp
    moreover have "job_view s R U D job j bs g c0 ?c" using v(9) by (simp add: job_view_def)
    then have "viewed s R U D job g c0 ?c" using v(1-8) unfolding viewed_def by blast
    moreover have "heap_step s s" by (rule heap_stepI [where J = "jobs s" and B = "batches s" and b = "brk s" and h = "nodes s"]) simp
    ultimately show ?thesis
      using finish_not_done [OF g(1) False] by (intro exI [of _ s] exI [of _ U] exI [of _ D] exI [of _ ?c]) simp
  next
    case True
    let ?j = "j\<lparr>j_state := FLY_JOB_DONE, j_sem := Suc (j_sem j)\<rparr>"
    let ?E = "E(running_jobs s \<mapsto> remove1 job U, done_jobs s \<mapsto> D @ [job])"
    let ?c = "c\<lparr>js_running := js_running c - 1, js_donelist := Suc (js_donelist c), js_sem := Suc (js_sem c), js_pcs := at c t Away\<rparr>"
    obtain s' where s': "finish_if_done s job = Some s'" "heap_step s s'" "batches s' = batches s"
      "jobs s' = (jobs s)(job \<mapsto> ?j)" "sched_rep s' ?E R (remove1 job U) (D @ [job])"
      using finish_done [OF v(1) g(1) True] assms(3) by auto
    note hs = heap_step_simps [OF s'(2)]
    have "steps c ?c" using finish_steps [OF assms(2) c(1)] c(2,3) v(7) True by simp
    moreover have "job_view s' R (remove1 job U) (D @ [job]) job ?j bs g c0 ?c"
      using v(9) hs(2) by (simp add: job_view_def count_remove1)
    moreover have "?E job = Some es" using v(2,3) by (simp add: not_queue_def)
    moreover have "not_queue s' job" using v(3) hs by (simp add: not_queue_def)
    moreover have "job_holds s' job ?j es bs" using v(4) s'(3,4) g(2) by (simp add: job_holds_def get_job_def)
    moreover have "pfor_ok ?j f" "j_nbbatches ?j = int (length bs)" using v(5,7) by (simp_all add: pfor_ok_def)
    moreover have "\<forall>k < length bs. g k = batch_calls ?j f (bs ! k)" using v(8) by simp
    ultimately have "viewed s' R (remove1 job U) (D @ [job]) job g c0 ?c" "steps c ?c"
      using s'(5) v(6) unfolding viewed_def by blast+
    with s'(1,2) show ?thesis
      by (intro exI [of _ s'] exI [of _ "remove1 job U"] exI [of _ "D @ [job]"] exI [of _ ?c]) simp
  qed
qed

lemma nth_replaced: "(ab @ b # cb) ! k = (if k = length ab then b else (ab @ d # cb) ! k)"
  by (simp add: nth_append nth_Cons split: nat.split)

lemma view_exec:
  assumes "viewed s R U D job g c0 c" and "js_pcs c t = Claiming 0" and "malloc_ok s (brk s)"
  shows "\<exists>r s' U' D' c'. fly_sched_exec_job s job = Some (r, s') \<and> viewed s' R U' D' job g c0 c' \<and> steps c c' \<and>
    js_pcs c' = at c t Away \<and> (U' = U \<or> U' = remove1 job U) \<and> sched_frame s s'"
proof -
  obtain E es j f bs where v: "sched_rep s E R U D" "E job = Some es" "not_queue s job" "job_holds s job j es bs"
    "pfor_ok j f" "\<forall>b \<in> set bs. batch_ok b" "j_nbbatches j = int (length bs)"
    "\<forall>k < length bs. g k = batch_calls j f (bs ! k)" "job_view s R U D job j bs g c0 c"
    using assms(1) unfolding viewed_def by blast
  have g: "get_job s job = Some j" using v(4) by (simp add: job_holds_def)
  have c: "js_alive c" "js_flags c = map b_execed bs" "js_done c = j_batches_done j"
    "calls s = c0 @ concat (map g (js_ran c))" using v(9) by (simp_all add: job_view_def)
  have len: "length es = length bs" using v(4) by (auto simp: job_holds_def dest: map_eq_imp_length_eq)
  have fin: ?thesis if a: "pfj_exec j s job = Some (r, s1)" "viewed s1 R U D job g c0 c1" "steps c c1" "js_pcs c1 = at c t Asking"
    "malloc_ok s1 (brk s1)" "sched_frame s s1" for r s1 c1
  proof -
    obtain s' U' D' c' where n: "finish_if_done s1 job = Some s'" "viewed s' R U' D' job g c0 c'" "steps c1 c'"
      "js_pcs c' = at c1 t Away" "U' = U \<or> U' = remove1 job U" "heap_step s1 s'"
      using view_finish [OF a(2) _ a(5), of t] a(4) by auto
    have "fly_sched_exec_job s job = Some (r, s')" using exec_job_pfor [OF g v(5)] a(1) n(1) by simp
    moreover have "steps c c'" using a(3) n(3) by (rule rtranclp_trans)
    moreover have "sched_frame s s'" by (rule sched_frame_trans [OF a(6) heap_step_frame [OF n(6)]])
    ultimately show ?thesis using n(2,4,5) a(4)
      by (intro exI [of _ r] exI [of _ s'] exI [of _ U'] exI [of _ D'] exI [of _ c']) simp
  qed
  show ?thesis
  proof (cases "unclaimed es bs")
    case Nil
    let ?c = "c\<lparr>js_pcs := at c t Asking\<rparr>"
    have "fly_get_exec_batch s job = Some (NULL, s)" by (rule get_exec_sched(1) [OF v(1,2,4) Nil])
    then have "pfj_exec j s job = Some (1, s)" by (simp add: pfj_exec_def fly_pfptrj_exec_def fly_pfarrj_exec_def)
    moreover have "filter (\<lambda>b. b_execed b = 0) bs = []" using unclaimed_none [OF len] Nil by simp
    then have "steps c ?c" by (intro none_steps assms(2) c(1)) (simp add: c(2) filter_empty_conv)
    moreover have "job_view s R U D job j bs g c0 ?c" using v(9) by (simp add: job_view_def)
    then have "viewed s R U D job g c0 ?c" using v(1-8) unfolding viewed_def by blast
    ultimately show ?thesis using fin assms(3) by simp
  next
    case (Cons e rest)
    let ?j = "j\<lparr>j_batches_done := c_wrap (j_batches_done j + 1)\<rparr>"
    obtain ab b cb s1 where x: "bs = ab @ b # cb" "filter (\<lambda>b. b_execed b = 0) ab = []" "b_execed b = 0"
      "pfj_exec j s job = Some (0, s1)" "exec_frame s s1" "sched_rep s1 E R U D"
      "job_holds s1 job ?j es (ab @ b\<lparr>b_execed := 1\<rparr> # cb)" "calls s1 = calls s @ batch_calls j f b"
      using pfj_exec_take [OF v(1,2,4-6) Cons] by blast
    let ?bs = "ab @ b\<lparr>b_execed := 1\<rparr> # cb"
    let ?c = "c\<lparr>js_flags := map b_execed ab @ 1 # map b_execed cb, js_ran := js_ran c @ [length (map b_execed ab)],
      js_done := c_wrap (js_done c + 1), js_pcs := at c t Asking\<rparr>"
    have "steps c ?c"
      by (rule take_steps) (use assms(2) c(1,2) x(1-3) in \<open>auto simp: filter_empty_conv\<close>)
    moreover have "g (length ab) = batch_calls j f b" using v(8) x(1) by simp
    then have "job_view s1 R U D job ?j ?bs g c0 ?c" using v(9) x(8) c(4) by (simp add: job_view_def)
    moreover have "batch_calls ?j f (?bs ! k) = batch_calls j f (bs ! k)" for k
      unfolding x(1) nth_replaced [of ab "b\<lparr>b_execed := 1\<rparr>" cb k b] by simp
    then have "\<forall>k < length ?bs. g k = batch_calls ?j f (?bs ! k)" using v(8) x(1) by simp
    moreover have "not_queue s1 job" using v(3) exec_frame_simps [OF x(5)] by (simp add: not_queue_def)
    moreover have "\<forall>b \<in> set ?bs. batch_ok b" "j_nbbatches ?j = int (length ?bs)" "pfor_ok ?j f" using v(5-7) x(1) by simp_all
    ultimately have "viewed s1 R U D job g c0 ?c" "steps c ?c" using x(6,7) v(2) unfolding viewed_def by blast+
    then show ?thesis using fin [OF x(4)] exec_frame_simps [OF x(5)] exec_frame_frame [OF x(5)] assms(3) by simp
  qed
qed

section \<open>A job that is added, and the turns of workers\<close>

lemma reach_steps: "steps c c' \<Longrightarrow> reach (job_init n) job_step c \<Longrightarrow> reach (job_init n) job_step c'"
  by (induction rule: rtranclp_induct) (auto intro: reach_step)

lemma viewed_workers:
  assumes "viewed s R U D job g c0 c" and "length ws = length (workers s)"
  shows "viewed (s\<lparr>workers := ws\<rparr>) R U D job g c0 c"
proof -
  obtain E es j f bs where v: "sched_rep s E R U D" "E job = Some es" "not_queue s job" "job_holds s job j es bs"
    "pfor_ok j f" "\<forall>b \<in> set bs. batch_ok b" "j_nbbatches j = int (length bs)"
    "\<forall>k < length bs. g k = batch_calls j f (bs ! k)" "job_view s R U D job j bs g c0 c"
    using assms(1) unfolding viewed_def by blast
  let ?s = "s\<lparr>workers := ws\<rparr>"
  have "sched_rep ?s E R U D" using v(1) assms(2) by (rule sched_rep_workers)
  moreover have "not_queue ?s job" "job_holds ?s job j es bs" "job_view ?s R U D job j bs g c0 c"
    using v(3,9) job_holds_cong [OF v(4)] by (simp_all add: not_queue_def job_view_def)
  ultimately show ?thesis using v(2,5-8) unfolding viewed_def by blast
qed

text \<open>The job is the only one: it is ready, or running, or out of both queues.\<close>

definition sole :: "nat \<Rightarrow> fly_sched \<Rightarrow> ptr \<Rightarrow> (nat \<Rightarrow> call list) \<Rightarrow> call list \<Rightarrow> bool" where
  "sole n s job g c0 \<longleftrightarrow> (\<exists>R U D c. viewed s R U D job g c0 c \<and> reach (job_init n) job_step c \<and> js_pcs c = (\<lambda>_. Away) \<and>
     (R, U) \<in> {([job], []), ([], [job]), ([], [])} \<and> (\<forall>p. malloc_ok s p))"

lemma wait_work_frame:
  assumes "wait_work s t = Some s'"
  shows "\<exists>ws. s' = s\<lparr>workers := ws\<rparr> \<and> length ws = length (workers s)"
  using wait_work_crew [OF assms] sched_frame_simps(8) by blast

lemma turn_view:
  assumes "sole n s job g c0" and "get_wt s t \<noteq> None" and "fly_schedule s t = Some s'"
  shows "sole n s' job g c0" and "length (workers s') = length (workers s)"
proof -
  obtain R U D c where u: "viewed s R U D job g c0 c" "reach (job_init n) job_step c" "js_pcs c = (\<lambda>_. Away)"
    "(R, U) \<in> {([job], []), ([], [job]), ([], [])}" "\<forall>p. malloc_ok s p"
    using assms(1) unfolding sole_def by blast
  obtain E es j f bs where v: "sched_rep s E R U D" "E job = Some es" "not_queue s job" "job_holds s job j es bs"
    "pfor_ok j f" "\<forall>b \<in> set bs. batch_ok b" "j_nbbatches j = int (length bs)"
    "\<forall>k < length bs. g k = batch_calls j f (bs ! k)" "job_view s R U D job j bs g c0 c"
    using u(1) unfolding viewed_def by blast
  have g: "get_job s job = Some j" "job \<noteq> NULL" using v(4) by (simp_all add: job_holds_def get_job_iff)
  have rest: "sole n s' job g c0 \<and> length (workers s') = length (workers s)"
    if a: "viewed s1 [] U' D' job g c0 c'" "reach (job_init n) job_step c'" "js_pcs c' = (\<lambda>_. Away)" "U' = [job] \<or> U' = []"
      "sched_frame s s1" "s' = s1 \<or> wait_work s1 t = Some s'" for s1 U' D' c'
  proof -
    have "viewed s' [] U' D' job g c0 c'" "malloc_ok s' = malloc_ok s1" "length (workers s') = length (workers s1)"
      using a(1,6) viewed_workers wait_work_frame [of s1 t s'] by auto
    then show ?thesis using a(2-4) u(5) sched_frame_simps(1,8) [OF a(5)] unfolding sole_def by auto
  qed
  have exec: "sole n s' job g c0 \<and> length (workers s') = length (workers s)"
    if a: "fly_sched_get_job s t = Some (job, s0)" "sched_frame s s0" "viewed s0 [] [job] D job g c0 c1"
      "reach (job_init n) job_step c1" "js_pcs c1 = (\<lambda>_. Away)(k := Claiming 0)" for s0 c1 k
  proof -
    obtain r s1 U' D' c' where x: "fly_sched_exec_job s0 job = Some (r, s1)" "viewed s1 [] U' D' job g c0 c'" "steps c1 c'"
      "js_pcs c' = at c1 k Away" "U' = [job] \<or> U' = remove1 job [job]" "sched_frame s0 s1"
      using view_exec [OF a(3), of k] a(5) u(5) sched_frame_simps(1) [OF a(2)] by auto
    have "js_pcs c' = (\<lambda>_. Away)" using x(4) a(5) by auto
    moreover have "s' = s1 \<or> wait_work s1 t = Some s'"
      using assms(3) a(1) x(1) g(2) by (auto simp: fly_schedule_def split: if_splits)
    ultimately show ?thesis
      using rest [OF x(2) reach_steps [OF x(3) a(4)]] x(5) sched_frame_trans [OF a(2) x(6)] by auto
  qed
  have alive: "js_alive c" using v(9) by (simp add: job_view_def)
  have "sole n s' job g c0 \<and> length (workers s') = length (workers s)"
  proof (cases "R = [job]")
    case True
    then have U: "U = []" using u(4) by auto
    have r: "sched_rep s E ([] @ [job]) [] D" using v(1) True U by simp
    have ty: "is_pfor_type (j_jtype j)" using v(5) by (simp add: pfor_ok_def)
    let ?E = "E(ready_jobs s \<mapsto> [], running_jobs s \<mapsto> [job])" and ?j = "j\<lparr>j_state := FLY_JOB_RUNNING\<rparr>"
    let ?c1 = "c\<lparr>js_ready := False, js_pcs := at c 0 Moving\<rparr>"
    let ?c2 = "c\<lparr>js_ready := False, js_running := Suc (js_running c), js_pcs := at c 0 (Claiming 0)\<rparr>"
    obtain s0 where s0: "fly_sched_get_job s t = Some (job, s0)" "sched_frame s s0" "sched_rep s0 ?E [] [job] D"
      "jobs s0 = (jobs s)(job \<mapsto> ?j)" "batches s0 = batches s" "calls s0 = calls s"
      using get_job_ready_pfor [OF r assms(2) g(1) ty refl] u(5) by auto
    have "job_step c ?c1" using take_ready [where s = c and t = 0] u(3) v(9) True by (simp add: job_view_def)
    moreover have "job_step ?c1 ?c2" using move [where s = ?c1 and t = 0] alive by simp
    ultimately have "reach (job_init n) job_step ?c2" using u(2) by (meson reach_step)
    moreover have "job_view s0 [] [job] D job ?j bs g c0 ?c2"
      using v(9) s0(6) U by (simp add: job_view_def)
    moreover have "?E job = Some es" "not_queue s0 job"
      using v(2,3) sched_frame_simps [OF s0(2)] by (simp_all add: not_queue_def)
    moreover have "job_holds s0 job ?j es bs" using v(4) s0(4,5) g(2) by (simp add: job_holds_def get_job_def)
    moreover have "pfor_ok ?j f" "j_nbbatches ?j = int (length bs)" using v(5,7) by (simp_all add: pfor_ok_def)
    moreover have "batch_calls ?j f = batch_calls j f" by (rule ext) (simp add: batch_calls.simps)
    ultimately have "viewed s0 [] [job] D job g c0 ?c2" "reach (job_init n) job_step ?c2"
      using s0(3) v(6,8) unfolding viewed_def by metis+
    then show ?thesis using exec [OF s0(1,2), of ?c2 0] u(3) by simp
  next
    case False
    then have R: "R = []" using u(4) by auto
    have ex: "\<forall>x \<in> set U. get_job s x \<noteq> None" using u(4) g(1) by auto
    obtain s0 where s0: "fly_sched_get_job s t = Some (running_pick (complete s) U NULL, s0)" "sched_frame s s0"
      "sched_rep s0 E [] U D" "jobs s0 = jobs s" "batches s0 = batches s" "calls s0 = calls s"
      using get_job_running [OF v(1) [unfolded R] assms(2) ex] by blast
    have "job_holds s0 job j es bs" "not_queue s0 job" "job_view s0 [] U D job j bs g c0 c"
      using job_holds_cong [OF v(4)] v(3,9) s0(4-6) sched_frame_simps [OF s0(2)] R
      by (simp_all add: not_queue_def job_view_def)
    then have v0: "viewed s0 [] U D job g c0 c" using s0(3) v(2,5-8) unfolding viewed_def by blast
    show ?thesis
    proof (cases "U = []")
      case True
      then have "wait_work s0 t = Some s'" using assms(3) s0(1) by (simp add: fly_schedule_def)
      with rest [OF v0 u(2,3)] True s0(2) show ?thesis by blast
    next
      case False
      then have U: "U = [job]" using u(4) by auto
      let ?c = "c\<lparr>js_pcs := at c 0 (Claiming 0)\<rparr>"
      have "job_step c ?c" using pick [where s = c and t = 0] u(3) v(9) U alive by (simp add: job_view_def)
      then have "reach (job_init n) job_step ?c" using u(2) by (meson reach_step)
      moreover have "viewed s0 [] [job] D job g c0 ?c"
        using v0 U unfolding viewed_def job_view_def by simp
      ultimately show ?thesis using exec [of s0 ?c 0] s0(1,2) U u(3) by simp
    qed
  qed
  then show "sole n s' job g c0" "length (workers s') = length (workers s)" by simp_all
qed

lemma turns_sole:
  assumes "sole n s job g c0" and "\<forall>t \<in> set ts. get_wt s t \<noteq> None" and "turns s ts = Some s'"
  shows "sole n s' job g c0"
  using assms
proof (induction ts arbitrary: s)
  case (Cons t ts)
  then obtain s1 where s1: "fly_schedule s t = Some s1" "turns s1 ts = Some s'" by (auto split: bind_splits)
  note v = turn_view [OF Cons.prems(1) _ s1(1)]
  have "sole n s1 job g c0" "\<forall>u \<in> set ts. get_wt s1 u \<noteq> None"
    using v Cons.prems(2) by (auto simp: get_wt_def split: prod.splits)
  with Cons.IH s1(2) show ?case by blast
qed simp

lemma add_sole:
  assumes "sched_rep s E [] [] D" and "addable s E job j js je" and "pfor_ok j f"
    and "j_batches_done j = 0" and "j_sem j = 0" and "\<forall>p. malloc_ok s p" and "job \<notin> set D"
  shows "\<exists>s1. fly_sched_add_job s job = Some (0, s1) \<and> sched_frame s s1 \<and>
    sole (nat (nbworkers s)) s1 job (\<lambda>k. batch_calls j f (batch_plan job js (je - js) (nbworkers s) ! k)) (calls s)"
proof -
  let ?nb = "nbworkers s" and ?bs = "batch_plan job js (je - js) (nbworkers s)" and ?r = "ready_job j (nbworkers s)"
  let ?g = "\<lambda>k. batch_calls j f (?bs ! k)" and ?c = "job_start (nat (nbworkers s))"
  have a: "not_queue s job" "batch_range_ok js je ?nb" using assms(2) by (simp_all add: addable_def)
  then have nb: "0 < ?nb" "c_ok ?nb" by (simp_all add: batch_range_ok_def)
  obtain s1 es where s1: "fly_sched_add_job s job = Some (0, s1)" "sched_frame s s1" "calls s1 = calls s"
    "sched_rep s1 (E(job \<mapsto> es, ready_jobs s \<mapsto> [job])) [job] [] D" "job_holds s1 job ?r es ?bs"
    using add_job_run [OF assms(1,2)] assms(6) by auto
  have len: "length ?bs = nat ?nb" by (rule plan_length [OF nb(1)])
  have "todo ?bs = ?bs" by (rule plan_todo [OF nb(1)])
  then have "\<forall>b \<in> set ?bs. b_execed b = 0" by (simp add: todo_def filter_id_conv)
  then have "map b_execed ?bs = map (\<lambda>b. 0) ?bs" by (intro map_cong) auto
  then have "map b_execed ?bs = replicate (nat ?nb) 0" by (simp add: map_replicate_const len)
  then have "job_view s1 [job] [] D job ?r ?bs ?g (calls s) ?c"
    using assms(4,5,7) s1(3) by (simp add: job_view_def job_start_def ready_job_def)
  moreover have "(E(job \<mapsto> es, ready_jobs s \<mapsto> [job])) job = Some es" "not_queue s1 job"
    using a(1) sched_frame_simps [OF s1(2)] by (simp_all add: not_queue_def)
  moreover have "pfor_ok ?r f" "j_nbbatches ?r = int (length ?bs)"
    using assms(3) len nb(1) by (simp_all add: ready_job_def pfor_ok_def)
  moreover have "batch_calls ?r f = batch_calls j f" by (rule ext) (simp add: batch_calls.simps ready_job_def)
  ultimately have "viewed s1 [job] [] D job ?g (calls s) ?c"
    using s1(4,5) plan_batch_ok [OF a(2)] unfolding viewed_def by metis
  moreover have "reach (job_init (nat ?nb)) job_step ?c"
    by (rule reach_init) (use nb in \<open>simp add: job_init_def\<close>)
  ultimately have "sole (nat ?nb) s1 job ?g (calls s)"
    using assms(6) sched_frame_simps(1) [OF s1(2)] unfolding sole_def job_start_def by fastforce
  with s1(1,2) show ?thesis by blast
qed

lemma posted_ran:
  assumes "job_inv n c" and "0 < js_sem c"
  shows "set (js_ran c) = {..<n}"
  using assms complete_ran(2) [OF assms(1)] by (simp add: job_inv_def finish_inv_def)

lemma wait_ran:
  assumes "job_inv n c"
  shows "distinct (js_ran c)" and "set (js_ran c) \<subseteq> {..<n}"
  using assms by (auto simp: job_inv_def claims_inv_def)

lemma mset_ran:
  assumes "distinct ks" and "set ks = {..<length bs}"
  shows "mset (concat (map (\<lambda>k. h (bs ! k)) ks)) = mset (concat (map h bs))"
proof -
  have "mset ks = mset [0..<length bs]"
    using mset_set_set [OF assms(1)] assms(2) by (simp add: lessThan_atLeast0)
  then have "mset (map (\<lambda>k. h (bs ! k)) ks) = mset (map (\<lambda>k. h (bs ! k)) [0..<length bs])" by (simp add: mset_map)
  also have "map (\<lambda>k. h (bs ! k)) [0..<length bs] = map h bs" by (rule nth_equalityI) simp_all
  finally have "mset (map (\<lambda>k. h (bs ! k)) ks) = mset (map h bs)" .
  then have "mset (map mset (map (\<lambda>k. h (bs ! k)) ks)) = mset (map mset (map h bs))" by (simp only: mset_map)
  then have "\<Sum>\<^sub># (mset (map mset (map (\<lambda>k. h (bs ! k)) ks))) = \<Sum>\<^sub># (mset (map mset (map h bs)))" by (rule arg_cong)
  then show ?thesis by (simp only: mset_concat sum_mset_sum_list)
qed

section \<open>Properties\<close>

text \<open>
  C6. The two models of a parallel job agree: where the heap of the detailed model is seen as a state
  of the interleaving, executing the job on it is defined, and is a run of the interleaving by one
  thread from the start of its search for a batch until it is away from the job; the new heap is seen
  as the state that run ends in.
\<close>

theorem exec_job_simulated:
  assumes "viewed s R U D job g c0 c" and "js_pcs c t = Claiming 0" and "malloc_ok s (brk s)"
  shows "\<exists>r s' U' D' c'. fly_sched_exec_job s job = Some (r, s') \<and> viewed s' R U' D' job g c0 c' \<and>
    job_step\<^sup>*\<^sup>* c c' \<and> js_pcs c' = (js_pcs c)(t := Away)"
  using view_exec [OF assms] by blast

theorem exec_job_simulated_witness:
  "\<exists>s R U D g c r s' U' D' c'. fly_sched_add_job (small_sched (pfor_job 3 50 60)) 4 = Some (0, s) \<and>
    viewed s R U D 4 g [] c \<and> js_pcs c 0 = Claiming 0 \<and> fly_sched_exec_job s 4 = Some (r, s') \<and>
    viewed s' R U' D' 4 g [] c' \<and> job_step\<^sup>*\<^sup>* c c' \<and> js_pcs c' 0 = Away"
proof -
  let ?s = "small_sched (pfor_job 3 50 60)"
  have a: "addable ?s small_lists 4 (pfor_job 3 50 60) 0 3" "pfor_ok (pfor_job 3 50 60) 50"
    by (simp_all add: addable_def small_lists_def not_queue_def pfor_job_def is_pfor_type_def
        batch_range_ok_def c_ok_iff pfor_ok_def jtype_defs)
  have z: "j_batches_done (pfor_job 3 50 60) = 0" "j_sem (pfor_job 3 50 60) = 0" "\<forall>p. malloc_ok ?s p" "4 \<notin> set []"
    by (simp_all add: pfor_job_def)
  obtain s g where s: "fly_sched_add_job ?s 4 = Some (0, s)" "sole 2 s 4 g []"
    using add_sole [OF small_sched_rep a z] by auto
  then obtain R U D c where c: "viewed s R U D 4 g [] c" "malloc_ok s (brk s)" unfolding sole_def by blast
  let ?c = "c\<lparr>js_pcs := at c 0 (Claiming 0)\<rparr>"
  have v: "viewed s R U D 4 g [] ?c" using c(1) unfolding viewed_def job_view_def by simp
  have p: "js_pcs ?c 0 = Claiming 0" by simp
  obtain r s' U' D' c' where x: "fly_sched_exec_job s 4 = Some (r, s')" "viewed s' R U' D' 4 g [] c'"
    "job_step\<^sup>*\<^sup>* ?c c'" "js_pcs c' = (js_pcs ?c)(0 := Away)"
    using exec_job_simulated [OF v p c(2)] by blast
  have "js_pcs c' 0 = Away" using x(4) by simp
  with s(1) v p x(1-3) show ?thesis by blast
qed



end
