(* ===== verification/Fly_Update.thy ===== *)
theory Fly_Update
  imports Fly_Turns
begin

text \<open>
  The hand-over between a worker's two threads, from \<^verbatim>\<open>fly_sched_update\<close> of
  \<^verbatim>\<open>src/fly_sched.c\<close> through \<^verbatim>\<open>fly_worker_update\<close> of
  \<^verbatim>\<open>src/fly_worker.c\<close> to the parser of the status files in
  \<^verbatim>\<open>src/fly_thread.c\<close>, and back to the notification of new work.
\<close>

section \<open>Status files at their first reading\<close>

text \<open>The name, the state letter and the rest of a thread's status file.\<close>

type_synonym status_line = "string \<times> char \<times> string"

definition fresh_file :: "status_line \<Rightarrow> status_file" where
  "fresh_file x = \<lparr>sf_text = status_text (fst x) (fst (snd x)) (snd (snd x)), sf_pos = 0\<rparr>"

definition readable :: "status_line \<Rightarrow> bool" where
  "readable x \<longleftrightarrow> CHR 0x0A \<notin> set (fst x) \<and> length (fst x) \<le> 497 \<and> fst (snd x) \<noteq> CHR 0x09 \<and> fst (snd x) \<noteq> CHR '' ''"

text \<open>The kernel says that the thread sleeps, and it does not sleep in a wait of the library.\<close>

definition in_client :: "fly_worker_thread \<Rightarrow> status_line \<Rightarrow> bool" where
  "in_client t x \<longleftrightarrow> (fst (snd x) = CHR ''S'' \<or> fst (snd x) = CHR ''D'') \<and>
     t_state (wt_thread t) AND FLY_THREAD_SLEEP = 0"

definition updated :: "status_line \<Rightarrow> status_line \<Rightarrow> fly_worker \<Rightarrow> fly_worker \<Rightarrow> bool" where
  "updated x y w w' \<longleftrightarrow> mblocked w' = of_bool (in_client (mthread w) x) \<and> bblocked w' = of_bool (in_client (bthread w) y) \<and>
     wt_sem (mthread w') = wt_sem (mthread w) \<and> wt_sem (bthread w') = wt_sem (bthread w)"

lemma client_block_first:
  assumes "readable x"
  shows "\<exists>th f. fly_thread_is_client_block (wt_thread t) (Some (fresh_file x)) = Some (of_bool (in_client t x), th, Some f)"
  using client_block_iff [of "fst x" "fst (snd x)" "wt_thread t" "snd (snd x)"] assms
  by (simp add: readable_def fresh_file_def in_client_def)

lemma worker_update_first:
  assumes "readable x" and "readable y"
  shows "\<exists>w' mf bf. fly_worker_update w (Some (fresh_file x)) (Some (fresh_file y)) = Some (w', mf, bf) \<and> updated x y w w'"
proof -
  obtain th f where m: "fly_thread_is_client_block (wt_thread (mthread w)) (Some (fresh_file x)) =
      Some (of_bool (in_client (mthread w) x), th, Some f)" using client_block_first [OF assms(1)] by blast
  obtain th' f' where b: "fly_thread_is_client_block (wt_thread (bthread w)) (Some (fresh_file y)) =
      Some (of_bool (in_client (bthread w) y), th', Some f')" using client_block_first [OF assms(2)] by blast
  show ?thesis using m b by (simp add: fly_worker_update_def updated_def)
qed

section \<open>All workers\<close>

lemma update_loop_first:
  assumes "distinct is" and "set is \<subseteq> {..<length (workers s)}" and "\<forall>r. readable (line r)"
    and "\<forall>i \<in> set is. \<forall>w. fds (i, w) = Some (fresh_file (line (i, w)))"
  shows "\<exists>W fds'. update_loop s fds is = Some (s\<lparr>workers := W\<rparr>, fds') \<and> length W = length (workers s) \<and>
    (\<forall>i. i \<notin> set is \<longrightarrow> W ! i = workers s ! i) \<and>
    (\<forall>i \<in> set is. updated (line (i, MThread)) (line (i, BThread)) (workers s ! i) (W ! i))"
  using assms(1,2,4)
proof (induction "is" arbitrary: s fds)
  case Nil
  then show ?case by (intro exI [of _ "workers s"]) simp
next
  case (Cons i "is")
  let ?w = "workers s ! i"
  have i: "i < length (workers s)" "i \<notin> set is" "fds (i, MThread) = Some (fresh_file (line (i, MThread)))"
    "fds (i, BThread) = Some (fresh_file (line (i, BThread)))" using Cons.prems by auto
  obtain w' mf bf where w': "fly_worker_update ?w (fds (i, MThread)) (fds (i, BThread)) = Some (w', mf, bf)"
    "updated (line (i, MThread)) (line (i, BThread)) ?w w'"
    using worker_update_first [of "line (i, MThread)" "line (i, BThread)" ?w] assms(3) i(3,4) by auto
  let ?s = "s\<lparr>workers := (workers s)[i := w']\<rparr>" and ?f = "fds((i, MThread) := mf, (i, BThread) := bf)"
  have "distinct is" "set is \<subseteq> {..<length (workers ?s)}" "\<forall>k \<in> set is. \<forall>w. ?f (k, w) = Some (fresh_file (line (k, w)))"
    using Cons.prems i(2) by auto
  from Cons.IH [OF this] obtain W fds' where W: "update_loop ?s ?f is = Some (?s\<lparr>workers := W\<rparr>, fds')"
    "length W = length (workers ?s)" "\<forall>k. k \<notin> set is \<longrightarrow> W ! k = workers ?s ! k"
    "\<forall>k \<in> set is. updated (line (k, MThread)) (line (k, BThread)) (workers ?s ! k) (W ! k)" by blast
  have "update_loop s fds (i # is) = Some (s\<lparr>workers := W\<rparr>, fds')" using i(1) w'(1) W(1) by simp
  moreover have "\<forall>k. k \<notin> set (i # is) \<longrightarrow> W ! k = workers s ! k" using W(3) by simp
  moreover have "W ! i = w'" using W(3) i(1,2) by simp
  moreover have "workers ?s ! k = workers s ! k" if "k \<in> set is" for k using that i(2) by (cases "k = i") simp_all
  ultimately show ?case using W(2,4) w'(2) by (intro exI [of _ W] exI [of _ fds']) simp
qed

section \<open>Properties\<close>

text \<open>
  C16. The hand-over.  When the scheduler has read the status files of all threads (for the first time)
  and new work is announced, every worker is notified once: its second thread if the main one blocks in
  the client's function (the kernel reports \<open>S\<close> or \<open>D\<close> and it is not asleep in a wait of the library)
  and the second does not, its main thread otherwise.
\<close>

theorem blocked_worker_hands_over:
  assumes "nbworkers s = int (length (workers s))" and "\<forall>r. readable (line r)"
    and "\<forall>i < length (workers s). \<forall>w. fds (i, w) = Some (fresh_file (line (i, w)))"
  shows "\<exists>s1 fds' s2. fly_sched_update s fds = Some (s1, fds') \<and> notify_workers s1 None = Some s2 \<and>
    length (workers s2) = length (workers s) \<and>
    (\<forall>i < length (workers s).
      let w = workers s ! i; w' = workers s2 ! i;
          over = in_client (mthread w) (line (i, MThread)) \<and> \<not> in_client (bthread w) (line (i, BThread))
      in wt_sem (bthread w') = wt_sem (bthread w) + of_bool over \<and> wt_sem (mthread w') = wt_sem (mthread w) + of_bool (\<not> over))"
proof -
  let ?is = "[0..<length (workers s)]"
  have "distinct ?is" "set ?is \<subseteq> {..<length (workers s)}" "\<forall>i \<in> set ?is. \<forall>w. fds (i, w) = Some (fresh_file (line (i, w)))"
    using assms(3) by auto
  then obtain W fds' where W: "update_loop s fds ?is = Some (s\<lparr>workers := W\<rparr>, fds')" "length W = length (workers s)"
    "\<forall>i \<in> set ?is. updated (line (i, MThread)) (line (i, BThread)) (workers s ! i) (W ! i)"
    using update_loop_first [of ?is s line fds] assms(2) by blast
  let ?s1 = "s\<lparr>workers := W\<rparr>" and ?s2 = "s\<lparr>workers := map fly_worker_work_available W\<rparr>"
  have "notify_workers ?s1 None = Some ?s2"
    using notify_workers_run [of ?s1 None] assms(1) W(2) by (simp add: notified_all)
  moreover have "fly_sched_update s fds = Some (?s1, fds')" using W(1) assms(1) by (simp add: fly_sched_update_def)
  ultimately show ?thesis
    using W(2,3) by (intro exI [of _ ?s1] exI [of _ fds'] exI [of _ ?s2]) (simp add: work_available_posts_one updated_def Let_def)
qed

theorem blocked_worker_hands_over_witness:
  "\<exists>s1 fds' s2. fly_sched_update (small_sched (pfor_job 3 50 60))
      (\<lambda>r. Some (fresh_file (''fly'', if r = (0, MThread) then CHR ''S'' else CHR ''R'', [CHR 0x0A]))) = Some (s1, fds') \<and>
    notify_workers s1 None = Some s2 \<and> map (\<lambda>w. (wt_sem (mthread w), wt_sem (bthread w))) (workers s2) = [(0, 1), (1, 0)]"
proof -
  let ?s = "small_sched (pfor_job 3 50 60)"
  let ?line = "\<lambda>r. (''fly'', if r = (0, MThread) then CHR ''S'' else CHR ''R'', [CHR 0x0A])"
  have w: "workers ?s = [zero_worker, zero_worker]" "nbworkers ?s = int (length (workers ?s))" by (simp_all add: small_sched_def)
  have r: "\<forall>r. readable (?line r)" by (simp add: readable_def)
  have z: "t_state (wt_thread zero_worker_thread) AND FLY_THREAD_SLEEP = 0" "mthread zero_worker = zero_worker_thread"
    "bthread zero_worker = zero_worker_thread" "wt_sem zero_worker_thread = 0"
    by (simp_all add: zero_worker_thread_def zero_worker_def)
  obtain s1 fds' s2 where s: "fly_sched_update ?s (\<lambda>r. Some (fresh_file (?line r))) = Some (s1, fds')"
    "notify_workers s1 None = Some s2" "length (workers s2) = 2"
    "\<forall>i < 2. let w = [zero_worker, zero_worker] ! i; w' = workers s2 ! i;
          over = in_client (mthread w) (?line (i, MThread)) \<and> \<not> in_client (bthread w) (?line (i, BThread))
      in wt_sem (bthread w') = wt_sem (bthread w) + of_bool over \<and> wt_sem (mthread w') = wt_sem (mthread w) + of_bool (\<not> over)"
    using blocked_worker_hands_over [OF w(2) r, of "\<lambda>r. Some (fresh_file (?line r))"] unfolding w(1) by auto
  then obtain a b where "workers s2 = [a, b]" by (auto simp: length_Suc_conv numeral_2_eq_2)
  with s show ?thesis
    using s(4) [rule_format, of 0] s(4) [rule_format, of 1]
    by (intro exI [of _ s1] exI [of _ fds'] exI [of _ s2]) (simp add: in_client_def z)
qed

end
