(* ===== verification/Fly_Debug.thy ===== *)
theory Fly_Debug
  imports Fly_Turns
begin

text \<open>
  \<^verbatim>\<open>src/include/libfly/fly_debugging.h\<close>: the log and the assertions, and the functions of
  the library that assert, as a debug build compiles them.  \<open>on\<close> says whether
  \<^verbatim>\<open>FLY_ENABLE_ASSERT\<close> is defined; \<open>out\<close> is what has been printed.

  The macro prints its message if \<^verbatim>\<open>!cond\<close>, as a text: for a comparison the negation
  applies to the left operand alone.  So \<open>fly_assert\<close> takes the value of that text and the value of
  the condition as two arguments.
\<close>

section \<open>The macros\<close>

datatype 'a outcome = Aborted string | Completed string 'a

fun andthen :: "'a outcome \<Rightarrow> (string \<Rightarrow> 'a \<Rightarrow> 'b outcome option) \<Rightarrow> 'b outcome option" where
  "andthen (Aborted out) f = Some (Aborted out)"
| "andthen (Completed out x) f = f out x"

definition fly_do_log :: "string \<Rightarrow> string \<Rightarrow> string \<Rightarrow> string" where
  "fly_do_log out subsys msg =
     (let out = out @ subsys;
          out = out @ '' '';
          out = out @ msg
      in out @ [CHR 0x0A])"

text \<open>\<^verbatim>\<open>fly_log\<close> of a build with \<^verbatim>\<open>FLY_ENABLE_LOG\<close> and of one without.\<close>

definition fly_log :: "bool \<Rightarrow> string \<Rightarrow> string \<Rightarrow> string \<Rightarrow> string" where
  "fly_log on out subsys msg = (if on then fly_do_log out subsys msg else out)"

definition c_not :: "int \<Rightarrow> int" where
  "c_not x = (if x = 0 then 1 else 0)"

definition fly_assert :: "bool \<Rightarrow> bool \<Rightarrow> bool \<Rightarrow> string \<Rightarrow> string \<Rightarrow> unit outcome" where
  "fly_assert on negated cond msg out =
     (if on then
        (let out = (if negated then out @ msg else out)
         in if cond then Completed out () else Aborted out)
      else Completed out ())"

section \<open>The functions that assert\<close>

definition fly_wait_job_build :: "bool \<Rightarrow> string \<Rightarrow> fly_sched \<Rightarrow> ptr \<Rightarrow> (int \<times> fly_sched) outcome option" where
  "fly_wait_job_build on out s job =
     andthen (fly_assert on (job = NULL) (job \<noteq> NULL) ''fly_job_wait NULL job'' out)
       (\<lambda>out _. map_option (Completed out) (fly_wait_job s job))"

definition fly_sched_exec_job_build :: "bool \<Rightarrow> string \<Rightarrow> fly_sched \<Rightarrow> ptr \<Rightarrow> (int \<times> fly_sched) outcome option" where
  "fly_sched_exec_job_build on out s job = do {
     j \<leftarrow> get_job s job;
     x \<leftarrow> (if j_jtype j = FLY_TASK_PARALLEL_FOR then map_option (Completed out) (fly_pfptrj_exec s job)
           else if j_jtype j = FLY_TASK_PARALLEL_FOR_ARR then map_option (Completed out) (fly_pfarrj_exec s job)
           else if j_jtype j = FLY_TASK_TASK then map_option (Completed out) (fly_taskjob_exec s job)
           else andthen (fly_assert on (c_not 0 \<noteq> 0) False ''[fly_sched] unsupported job type'' out)
             (\<lambda>out _. Some (Completed out (1, s))));
     andthen x (\<lambda>out (shouldsleep, s). do {
       s \<leftarrow> finish_if_done s job;
       Some (Completed out (shouldsleep, s))
     })
   }"

definition fly_sched_get_job_build :: "bool \<Rightarrow> string \<Rightarrow> fly_sched \<Rightarrow> wref \<Rightarrow> (ptr \<times> fly_sched) outcome option" where
  "fly_sched_get_job_build on out s wthread = do {
     (job, s) \<leftarrow> fly_sched_get_ready s wthread;
     (if job \<noteq> NULL then do {
        j \<leftarrow> get_job s job;
        (if is_pfor_type (j_jtype j) then do {
           s \<leftarrow> fly_sched_move_to_running s job wthread;
           t \<leftarrow> get_wt s wthread;
           s \<leftarrow> notify_workers s (Some (wt_parent t));
           Some (Completed out (job, s))
         } else if j_jtype j = FLY_TASK_TASK then do {
           s \<leftarrow> fly_sched_move_to_running (put_job s job (j\<lparr>j_batches_done := j_nbbatches j\<rparr>)) job wthread;
           Some (Completed out (job, s))
         } else andthen (fly_assert on (c_not 0 \<noteq> 0) False ''fly_schedule unsupported job type'' out)
             (\<lambda>out _. Some (Completed out (job, s))))
      } else map_option (Completed out) (fly_sched_get_running s wthread))
   }"

definition fly_schedule_build :: "bool \<Rightarrow> string \<Rightarrow> fly_sched \<Rightarrow> wref \<Rightarrow> fly_sched outcome option" where
  "fly_schedule_build on out s wthread = do {
     x \<leftarrow> fly_sched_get_job_build on out s wthread;
     andthen x (\<lambda>out (job, s).
       (if job = NULL then map_option (Completed out) (wait_work s wthread)
        else do {
          x \<leftarrow> fly_sched_exec_job_build on out s job;
          andthen x (\<lambda>out (r, s).
            (if r \<noteq> 0 then map_option (Completed out) (wait_work s wthread) else Some (Completed out s)))
        }))
   }"

abbreviation recursive_msg :: string where
  "recursive_msg \<equiv> ''fly_schedule_for_job requires recursive job''"

abbreviation task_msg :: string where
  "task_msg \<equiv> ''fly_schedule_for_job does not support FLY_TASK_TASK jobs''"

definition fly_schedule_for_job_build :: "bool \<Rightarrow> string \<Rightarrow> fly_sched \<Rightarrow> ptr \<Rightarrow> fly_sched outcome option" where
  "fly_schedule_for_job_build on out s job = do {
     j \<leftarrow> get_job s job;
     andthen (fly_assert on (c_not (j_recurse j) > 0) (j_recurse j > 0) recursive_msg out) (\<lambda>out _.
     andthen (fly_assert on (c_not (j_jtype j) \<noteq> FLY_TASK_TASK) (j_jtype j \<noteq> FLY_TASK_TASK) task_msg out) (\<lambda>out _. do {
       x \<leftarrow> fly_sched_exec_job_build on out s job;
       andthen x (\<lambda>out (_, s). Some (Completed out s))
     }))
   }"

section \<open>Builds with and without the assertions\<close>

definition known_type :: "int \<Rightarrow> bool" where
  "known_type t \<longleftrightarrow> is_pfor_type t \<or> t = FLY_TASK_TASK"

text \<open>What a default function answers, with the text printed.\<close>

abbreviation plain :: "string \<Rightarrow> 'a option \<Rightarrow> 'a outcome option" where
  "plain out \<equiv> map_option (Completed out)"

lemma andthen_plain: "Option.bind (plain out x) (\<lambda>y. andthen y f) = Option.bind x (f out)"
  by (cases x) simp_all

lemma plain_bind: "plain out (Option.bind x f) = Option.bind x (\<lambda>y. plain out (f y))"
  by (cases x) simp_all

lemma plain_if: "plain out (if b then x else y) = (if b then plain out x else plain out y)"
  by simp

lemmas plain_simps = andthen_plain plain_bind plain_if split_def

lemma fly_assert_off [simp]: "fly_assert False n c msg out = Completed out ()"
  by (simp add: fly_assert_def)

lemma exec_build:
  assumes "get_job s job = Some j" and "on \<longrightarrow> known_type (j_jtype j)"
  shows "fly_sched_exec_job_build on out s job = plain out (fly_sched_exec_job s job)"
  using assms
  by (cases on) (auto simp: fly_sched_exec_job_build_def fly_sched_exec_job_def known_type_def is_pfor_type_def plain_simps)

lemma build_off:
  "fly_sched_get_job_build False out s t = plain out (fly_sched_get_job s t)"
  "fly_wait_job_build False out s job = plain out (fly_wait_job s job)"
  by (simp_all add: fly_sched_get_job_build_def fly_sched_get_job_def fly_wait_job_build_def plain_simps cong: if_cong)

lemma running_pick_in: "running_pick dn U job \<in> insert job (set U)"
  by (induction U arbitrary: job) auto

lemma get_job_build:
  assumes "sched_rep s E R U D" and "get_wt s t \<noteq> None" and "\<forall>x \<in> set R. \<exists>j. get_job s x = Some j \<and> known_type (j_jtype j)"
  shows "fly_sched_get_job_build on out s t = plain out (fly_sched_get_job s t)"
proof -
  obtain h where h: "fly_sched_get_ready s t = Some (if R = [] then NULL else last R, (touch s t)\<lparr>nodes := h\<rparr>)"
    using get_ready_run [OF assms(1,2)] by blast
  show ?thesis
  proof (cases "R = []")
    case True
    with h show ?thesis by (simp add: fly_sched_get_job_build_def fly_sched_get_job_def)
  next
    case False
    then obtain j where j: "get_job s (last R) = Some j" "known_type (j_jtype j)" using assms(3) last_in_set by blast
    then have g: "get_job ((touch s t)\<lparr>nodes := h\<rparr>) (last R) = Some j" "last R \<noteq> NULL" by (simp_all add: get_job_iff)
    show ?thesis
      unfolding fly_sched_get_job_build_def fly_sched_get_job_def h
      using False g j(2) by (auto simp: known_type_def plain_simps)
  qed
qed

text \<open>The job that a worker has taken is of a known type if those in the queues are.\<close>

lemma taken_known:
  assumes "sched_rep s E R U D" and "get_wt s t \<noteq> None" and "malloc_ok s (brk s)"
    and "\<forall>x \<in> set R \<union> set U. \<exists>j. get_job s x = Some j \<and> known_type (j_jtype j)"
    and "fly_sched_get_job s t = Some (job, s0)" and "job \<noteq> NULL"
  shows "\<exists>j. get_job s0 job = Some j \<and> known_type (j_jtype j)"
proof (cases "R = []")
  case True
  have ex: "\<forall>x \<in> set U. get_job s x \<noteq> None" using assms(4) by auto
  obtain s1 where s1: "fly_sched_get_job s t = Some (running_pick (complete s) U NULL, s1)" "jobs s1 = jobs s"
    using get_job_running [OF assms(1) [unfolded True] assms(2) ex] by blast
  then have e: "job = running_pick (complete s) U NULL" "s1 = s0" using assms(5) by simp_all
  then have "job \<in> set U" using running_pick_in [of "complete s" U NULL] assms(6) by auto
  then obtain j where "get_job s job = Some j" "known_type (j_jtype j)" using assms(4) by blast
  then show ?thesis using s1(2) e(2) by (simp add: get_job_iff)
next
  case False
  then obtain R' x where R: "R = R' @ [x]" by (cases R rule: rev_cases) auto
  obtain j where j: "get_job s x = Some j" "known_type (j_jtype j)" using assms(4) R by auto
  have "x \<noteq> NULL" using j(1) by (simp add: get_job_iff)
  show ?thesis
  proof (cases "is_pfor_type (j_jtype j)")
    case True
    from get_job_ready_pfor [OF assms(1) [unfolded R] assms(2) j(1) True refl] assms(5) j \<open>x \<noteq> NULL\<close> show ?thesis
      by (auto simp: get_job_iff)
  next
    case False
    then have "j_jtype j = FLY_TASK_TASK" using j(2) by (simp add: known_type_def)
    from get_job_ready_task [OF assms(1) [unfolded R] assms(2) j(1) this assms(3)] assms(5) j \<open>x \<noteq> NULL\<close> show ?thesis
      by (auto simp: get_job_iff)
  qed
qed

lemma schedule_build:
  assumes "sched_rep s E R U D" and "get_wt s t \<noteq> None" and "malloc_ok s (brk s)"
    and "\<forall>x \<in> set R \<union> set U. \<exists>j. get_job s x = Some j \<and> known_type (j_jtype j)"
  shows "fly_schedule_build on out s t = plain out (fly_schedule s t)"
proof -
  have g: "fly_sched_get_job_build on out s t = plain out (fly_sched_get_job s t)"
    using get_job_build [OF assms(1,2)] assms(4) by auto
  show ?thesis
  proof (cases "fly_sched_get_job s t")
    case None
    with g show ?thesis by (simp add: fly_schedule_build_def fly_schedule_def)
  next
    case (Some p)
    obtain job s0 where p: "p = (job, s0)" by (cases p)
    show ?thesis
    proof (cases "job = NULL")
      case True
      with g Some p show ?thesis by (simp add: fly_schedule_build_def fly_schedule_def)
    next
      case False
      with taken_known [OF assms] Some p obtain j where "get_job s0 job = Some j" "known_type (j_jtype j)" by auto
      then have x: "fly_sched_exec_job_build on out s0 job = plain out (fly_sched_exec_job s0 job)" by (simp add: exec_build)
      show ?thesis
      proof (cases "fly_sched_exec_job s0 job")
        case None
        with g Some p False x show ?thesis by (simp add: fly_schedule_build_def fly_schedule_def)
      next
        case Some': (Some q)
        obtain r s1 where "q = (r, s1)" by (cases q)
        with g Some Some' p False x show ?thesis by (simp add: fly_schedule_build_def fly_schedule_def)
      qed
    qed
  qed
qed

section \<open>Properties\<close>



text \<open>
  A false alarm.  In a debug build \<^verbatim>\<open>fly_schedule_for_job\<close>, called as intended on a
  recursive parallel job, prints that it does not support task jobs, each time, and goes on as the
  default build does.  On a task it prints the same message and aborts; on a job that is not recursive
  it aborts, without a message if the counter is negative.
\<close>

theorem schedule_for_job_false_alarm:
  assumes "get_job s job = Some j" and "known_type (j_jtype j)"
  shows "fly_schedule_for_job_build True out s job =
    (if j_recurse j \<le> 0 then Some (Aborted (if j_recurse j = 0 then out @ recursive_msg else out))
     else if j_jtype j = FLY_TASK_TASK then Some (Aborted (out @ task_msg))
     else plain (out @ task_msg) (fly_schedule_for_job s job))"
proof -
  have p: "(0 < c_not x) = (x = 0)" for x by (simp add: c_not_def)
  have n: "c_not x \<noteq> FLY_TASK_TASK" for x by (simp add: c_not_def FLY_TASK_TASK_def)
  show ?thesis
    using assms(1) exec_build [OF assms(1), of True] assms(2)
    by (cases "fly_sched_exec_job s job")
      (auto simp: fly_schedule_for_job_build_def fly_schedule_for_job_def fly_assert_def n p Let_def)
qed

theorem schedule_for_job_false_alarm_witness:
  "fly_schedule_for_job_build True [] (small_sched ((pfor_job 3 50 60)\<lparr>j_recurse := 1\<rparr>)) 4 =
    plain task_msg (fly_schedule_for_job (small_sched ((pfor_job 3 50 60)\<lparr>j_recurse := 1\<rparr>)) 4)"
proof -
  let ?j = "(pfor_job 3 50 60)\<lparr>j_recurse := 1\<rparr>"
  have j: "get_job (small_sched ?j) 4 = Some ?j" "known_type (j_jtype ?j)" "j_jtype ?j \<noteq> FLY_TASK_TASK" "j_recurse ?j = 1"
    by (simp_all add: known_type_def pfor_job_def is_pfor_type_def jtype_defs)
  from schedule_for_job_false_alarm [OF j(1,2), of "[]"] j(3,4) show ?thesis by simp
qed

end
