(* ===== verification/Fly_Memdebug.thy ===== *)
theory Fly_Memdebug
  imports Fly_Prelude
begin

text \<open>
  \<^verbatim>\<open>src/fly_memdebug.h\<close> with \<^verbatim>\<open>FLY_MEMDEBUG\<close> defined, and the default allocator of
  \<^verbatim>\<open>src/fly.c\<close> that feeds it: a table of the blocks in use, from which the leaks are reported.

  The two arrays are lists whose length is what was allocated; an element that was never written is
  \<open>None\<close>.  Reading such an element, or one beyond the array, makes the result \<open>None\<close>.
  Sizes are natural numbers: a table whose size in bytes exceeds \<^verbatim>\<open>size_t\<close> is not reached.
  The mutex around each operation makes it atomic.
\<close>

section \<open>The table\<close>

record memdebug =
  mem_c :: nat
  mem_array_size :: nat
  mem_ptrs :: "ptr option list"
  mem_sizes :: "nat option list"

definition FLY_MEM_START_ARR_SIZE :: nat where "FLY_MEM_START_ARR_SIZE = 256"

definition set_slot :: "memdebug \<Rightarrow> nat \<Rightarrow> ptr \<Rightarrow> nat \<Rightarrow> memdebug option" where
  "set_slot md i p sz =
     (if i < length (mem_ptrs md) \<and> i < length (mem_sizes md)
      then Some (md\<lparr>mem_ptrs := (mem_ptrs md)[i := Some p], mem_sizes := (mem_sizes md)[i := Some sz]\<rparr>)
      else None)"

definition get_slot :: "memdebug \<Rightarrow> nat \<Rightarrow> ptr option" where
  "get_slot md i = (if i < length (mem_ptrs md) then mem_ptrs md ! i else None)"

text \<open>The loop stops at the first empty slot from \<open>i\<close> on.\<close>

function fly_mem_count_alloc_try_add :: "memdebug \<Rightarrow> ptr \<Rightarrow> nat \<Rightarrow> nat \<Rightarrow> (bool \<times> memdebug) option" where
  "fly_mem_count_alloc_try_add md p sz i =
     (if i < mem_array_size md then
        (case get_slot md i of
           None \<Rightarrow> None
         | Some q \<Rightarrow>
             if q = NULL then map_option (Pair True) (set_slot (md\<lparr>mem_c := i\<rparr>) i p sz)
             else fly_mem_count_alloc_try_add md p sz (Suc i))
      else Some (False, md\<lparr>mem_c := i\<rparr>))"
  by pat_completeness auto
termination by (relation "measure (\<lambda>(md, p, sz, i). mem_array_size md - i)") auto

declare fly_mem_count_alloc_try_add.simps [simp del]

text \<open>\<open>ok\<close> and \<open>ok'\<close>: whether the two allocations succeed.\<close>

fun init_slots :: "memdebug \<Rightarrow> nat list \<Rightarrow> memdebug option" where
  "init_slots md [] = Some md"
| "init_slots md (i # is) = do { md \<leftarrow> set_slot md i NULL 0; init_slots (md\<lparr>mem_c := Suc i\<rparr>) is }"

definition fly_init_memdebugf :: "bool \<Rightarrow> bool \<Rightarrow> memdebug option" where
  "fly_init_memdebugf ok ok' = init_slots
     \<lparr>mem_c = 0, mem_array_size = FLY_MEM_START_ARR_SIZE,
      mem_ptrs = (if ok then replicate FLY_MEM_START_ARR_SIZE None else []),
      mem_sizes = (if ok' then replicate FLY_MEM_START_ARR_SIZE None else [])\<rparr>
     [0..<FLY_MEM_START_ARR_SIZE]"

definition fly_mem_count_alloc :: "memdebug \<Rightarrow> ptr \<Rightarrow> nat \<Rightarrow> bool \<Rightarrow> bool \<Rightarrow> memdebug option" where
  "fly_mem_count_alloc md p sz ok ok' =
     (if p \<noteq> NULL then do {
        (added, md) \<leftarrow> fly_mem_count_alloc_try_add md p sz 0;
        (if \<not> added then do {
           let oldsize = mem_array_size md;
           let md = md\<lparr>mem_array_size := 2 * mem_array_size md\<rparr>;
           let md = (if ok then md\<lparr>mem_ptrs := mem_ptrs md @ replicate (mem_array_size md - length (mem_ptrs md)) None\<rparr>
                     else md);
           let md = (if ok' then md\<lparr>mem_sizes := mem_sizes md @ replicate (mem_array_size md - length (mem_sizes md)) None\<rparr>
                     else md);
           (_, md) \<leftarrow> fly_mem_count_alloc_try_add md p sz oldsize;
           Some md
         } else Some md)
      } else Some md)"

function count_free_loop :: "memdebug \<Rightarrow> ptr \<Rightarrow> nat \<Rightarrow> memdebug option" where
  "count_free_loop md p i =
     (if i < mem_array_size md then
        (case get_slot md i of
           None \<Rightarrow> None
         | Some q \<Rightarrow>
             if q = p then set_slot (md\<lparr>mem_c := i\<rparr>) i NULL 0
             else count_free_loop md p (Suc i))
      else Some (md\<lparr>mem_c := i\<rparr>))"
  by pat_completeness auto
termination by (relation "measure (\<lambda>(md, p, i). mem_array_size md - i)") auto

declare count_free_loop.simps [simp del]

definition fly_mem_count_free :: "memdebug \<Rightarrow> ptr \<Rightarrow> memdebug option" where
  "fly_mem_count_free md p = count_free_loop md p 0"

text \<open>The lines printed: the address and the size, cast to \<open>unsigned int\<close>, of every slot in use.\<close>

fun report_loop :: "memdebug \<Rightarrow> nat list \<Rightarrow> (ptr \<times> nat) list option" where
  "report_loop md [] = Some []"
| "report_loop md (i # is) = do {
     q \<leftarrow> get_slot md i;
     rest \<leftarrow> report_loop md is;
     (if q \<noteq> NULL
      then (if i < length (mem_sizes md) then map_option (\<lambda>sz. (q, sz mod 2 ^ 32) # rest) (mem_sizes md ! i) else None)
      else Some rest)
   }"

definition fly_memdebug_report :: "memdebug \<Rightarrow> ((ptr \<times> nat) list \<times> memdebug) option" where
  "fly_memdebug_report md = do {
     out \<leftarrow> report_loop md [0..<mem_array_size md];
     Some (out, md\<lparr>mem_c := mem_array_size md\<rparr>)
   }"

section \<open>The default allocator\<close>

text \<open>\<open>p\<close> is what \<^verbatim>\<open>malloc\<close> returned.\<close>

definition fly_default_malloc :: "memdebug \<Rightarrow> nat \<Rightarrow> ptr \<Rightarrow> bool \<Rightarrow> bool \<Rightarrow> (ptr \<times> memdebug) option" where
  "fly_default_malloc md sz p ok ok' = do { md \<leftarrow> fly_mem_count_alloc md p sz ok ok'; Some (p, md) }"

definition fly_default_free :: "memdebug \<Rightarrow> ptr \<Rightarrow> memdebug option" where
  "fly_default_free md p = fly_mem_count_free md p"

section \<open>A table with all slots written\<close>

text \<open>\<open>table md ts\<close>: the slots hold \<open>ts\<close>.\<close>

definition table :: "memdebug \<Rightarrow> (ptr \<times> nat) list \<Rightarrow> bool" where
  "table md ts \<longleftrightarrow> mem_array_size md = length ts \<and> mem_ptrs md = map (Some \<circ> fst) ts \<and>
     mem_sizes md = map (Some \<circ> snd) ts"

definition used :: "(ptr \<times> nat) list \<Rightarrow> (ptr \<times> nat) list" where
  "used ts = filter (\<lambda>(p, _). p \<noteq> NULL) ts"

lemma table_slot: "table md ts \<Longrightarrow> i < length ts \<Longrightarrow> get_slot md i = Some (fst (ts ! i))"
  by (simp add: table_def get_slot_def)

lemma table_set:
  assumes "table md ts" and "i < length ts"
  shows "\<exists>md'. set_slot (md\<lparr>mem_c := c\<rparr>) i p sz = Some md' \<and> table md' (ts[i := (p, sz)])"
  using assms by (simp add: table_def set_slot_def map_update)

text \<open>The first slot from \<open>i\<close> on whose pointer is \<open>q\<close>.\<close>

lemma first_slot:
  obtains (found) k where "i \<le> k" "k < length ts" "fst (ts ! k) = q" "\<forall>n. i \<le> n \<and> n < k \<longrightarrow> fst (ts ! n) \<noteq> q"
    | (none) "\<forall>n. i \<le> n \<and> n < length ts \<longrightarrow> fst (ts ! n) \<noteq> q"
proof (cases "\<exists>n. i \<le> n \<and> n < length ts \<and> fst (ts ! n) = q")
  case True
  define k where "k = (LEAST n. i \<le> n \<and> n < length ts \<and> fst (ts ! n) = q)"
  from LeastI_ex [OF True] have "i \<le> k \<and> k < length ts \<and> fst (ts ! k) = q" unfolding k_def .
  moreover have "\<forall>n. i \<le> n \<and> n < k \<longrightarrow> fst (ts ! n) \<noteq> q"
    using not_less_Least [of _ "\<lambda>n. i \<le> n \<and> n < length ts \<and> fst (ts ! n) = q", folded k_def] calculation by force
  ultimately show ?thesis using found by blast
next
  case False
  then show ?thesis using none by blast
qed

text \<open>
  The loops over the table differ in what they look for and in what they do when they find it; that
  they stop at the first slot which holds it is shown once.
\<close>

locale slot_scan =
  fixes scan :: "memdebug \<Rightarrow> nat \<Rightarrow> 'r option"
    and q :: ptr
    and hit :: "memdebug \<Rightarrow> nat \<Rightarrow> 'r option"
    and miss :: "memdebug \<Rightarrow> nat \<Rightarrow> 'r"
  assumes scan_step: "table md ts \<Longrightarrow> i < length ts \<Longrightarrow>
      scan md i = (if fst (ts ! i) = q then hit md i else scan md (Suc i))"
    and scan_end: "table md ts \<Longrightarrow> scan md (length ts) = Some (miss md (length ts))"
begin

lemma scan_skips:
  assumes "table md ts" and "i \<le> k" and "k \<le> length ts" and "\<forall>n. i \<le> n \<and> n < k \<longrightarrow> fst (ts ! n) \<noteq> q"
  shows "scan md i = scan md k"
  using assms(2,4)
proof (induction "k - i" arbitrary: i)
  case (Suc n)
  then have i: "i < k" "fst (ts ! i) \<noteq> q" by auto
  with assms(1,3) have "scan md i = scan md (Suc i)" using scan_step [of md ts i] by simp
  moreover have "scan md (Suc i) = scan md k" using Suc by (intro Suc.hyps(1)) auto
  ultimately show ?case by simp
qed simp

lemma scan_found:
  assumes "table md ts" and "k < length ts" and "fst (ts ! k) = q" and "i \<le> k"
    and "\<forall>n. i \<le> n \<and> n < k \<longrightarrow> fst (ts ! n) \<noteq> q"
  shows "scan md i = hit md k"
  using scan_skips [OF assms(1,4) _ assms(5)] scan_step [OF assms(1,2)] assms(2,3) by simp

lemma scan_none:
  assumes "table md ts" and "i \<le> length ts" and "\<forall>n. i \<le> n \<and> n < length ts \<longrightarrow> fst (ts ! n) \<noteq> q"
  shows "scan md i = Some (miss md (length ts))"
  using scan_skips [OF assms(1,2) order_refl assms(3)] scan_end [OF assms(1)] by simp

end

interpretation add_scan: slot_scan "\<lambda>md. fly_mem_count_alloc_try_add md p sz" NULL
    "\<lambda>md i. map_option (Pair True) (set_slot (md\<lparr>mem_c := i\<rparr>) i p sz)"
    "\<lambda>md i. (False, md\<lparr>mem_c := i\<rparr>)" for p sz
proof
  fix md ts i
  assume t: "table md ts" and i: "i < length ts"
  show "fly_mem_count_alloc_try_add md p sz i = (if fst (ts ! i) = NULL
      then map_option (Pair True) (set_slot (md\<lparr>mem_c := i\<rparr>) i p sz) else fly_mem_count_alloc_try_add md p sz (Suc i))"
    using table_slot [OF t i] t i by (subst fly_mem_count_alloc_try_add.simps) (simp add: table_def)
next
  fix md ts
  assume "table md ts"
  then show "fly_mem_count_alloc_try_add md p sz (length ts) = Some (False, md\<lparr>mem_c := length ts\<rparr>)"
    by (subst fly_mem_count_alloc_try_add.simps) (simp add: table_def)
qed

interpretation free_scan: slot_scan "\<lambda>md. count_free_loop md p" p
    "\<lambda>md i. set_slot (md\<lparr>mem_c := i\<rparr>) i NULL 0" "\<lambda>md i. md\<lparr>mem_c := i\<rparr>" for p
proof
  fix md ts i
  assume t: "table md ts" and i: "i < length ts"
  show "count_free_loop md p i = (if fst (ts ! i) = p
      then set_slot (md\<lparr>mem_c := i\<rparr>) i NULL 0 else count_free_loop md p (Suc i))"
    using table_slot [OF t i] t i by (subst count_free_loop.simps) (simp add: table_def)
next
  fix md ts
  assume "table md ts"
  then show "count_free_loop md p (length ts) = Some (md\<lparr>mem_c := length ts\<rparr>)"
    by (subst count_free_loop.simps) (simp add: table_def)
qed

section \<open>What the operations do to the blocks in use\<close>

text \<open>\<open>live_table md m\<close>: the table holds exactly the blocks of the map \<open>m\<close>, each once.\<close>

definition live_table :: "memdebug \<Rightarrow> (ptr \<rightharpoonup> nat) \<Rightarrow> bool" where
  "live_table md m \<longleftrightarrow> (\<exists>ts. table md ts \<and> distinct (map fst (used ts)) \<and> map_of (used ts) = m)"

lemma used_simps [simp]:
  "used [] = []" "used (xs @ ys) = used xs @ used ys"
  "used ((p, sz) # xs) = (if p \<noteq> NULL then [(p, sz)] else []) @ used xs"
  by (simp_all add: used_def)

lemma slot_split:
  assumes "k < length ts"
  obtains xs ys where "ts = xs @ ts ! k # ys" "\<And>x. ts[k := x] = xs @ x # ys"
  using that [of "take k ts" "drop (Suc k) ts"] id_take_nth_drop [OF assms] upd_conv_take_nth_drop [OF assms] by blast

lemma full_used: "\<forall>n < length ts. fst (ts ! n) \<noteq> NULL \<Longrightarrow> used ts = ts"
  unfolding used_def by (rule filter_True) (fastforce simp: in_set_conv_nth)

lemma map_of_insert: "p \<notin> fst ` set A \<Longrightarrow> map_of (A @ (p, sz) # B) = (map_of (A @ B))(p \<mapsto> sz)"
  by (induction A) auto

lemma map_of_remove:
  "p \<notin> fst ` set A \<Longrightarrow> p \<notin> fst ` set B \<Longrightarrow> map_of (A @ B) = (map_of (A @ (p, sz) # B))(p := None)"
  by (induction A) (auto simp: map_of_eq_None_iff fun_upd_idem)

lemma count_alloc_live:
  assumes "live_table md m" and "p \<noteq> NULL" and "m p = None" and "card (dom m) < mem_array_size md"
  shows "\<exists>md'. fly_mem_count_alloc md p sz ok ok' = Some md' \<and> live_table md' (m(p \<mapsto> sz)) \<and>
    mem_array_size md' = mem_array_size md"
proof -
  obtain ts where ts: "table md ts" "distinct (map fst (used ts))" "map_of (used ts) = m"
    using assms(1) unfolding live_table_def by blast
  have len: "mem_array_size md = length ts" using ts(1) by (simp add: table_def)
  show ?thesis
  proof (cases rule: first_slot [of 0 ts NULL])
    case none
    then have "used ts = ts" by (intro full_used) simp
    then have "card (dom m) = length ts"
      using ts(2,3) by (metis distinct_card dom_map_of_conv_image_fst length_map list.set_map)
    with assms(4) len show ?thesis by simp
  next
    case (found k)
    obtain md' where md': "set_slot (md\<lparr>mem_c := k\<rparr>) k p sz = Some md'" "table md' (ts[k := (p, sz)])"
      using table_set [OF ts(1) found(2)] by blast
    have run: "fly_mem_count_alloc md p sz ok ok' = Some md'"
      using add_scan.scan_found [OF ts(1) found(2,3,1,4), of p sz] md'(1) assms(2)
      by (simp add: fly_mem_count_alloc_def)
    obtain xs ys where sp: "ts = xs @ ts ! k # ys" "\<And>x. ts[k := x] = xs @ x # ys"
      using slot_split [OF found(2)] by blast
    obtain z where z: "ts ! k = (NULL, z)" using found(3) by (metis prod.collapse)
    have u: "used ts = used xs @ used ys" by (subst sp(1)) (simp add: z)
    have u': "used (ts[k := (p, sz)]) = used xs @ (p, sz) # used ys" using sp(2) assms(2) by simp
    have new: "p \<notin> fst ` set (used xs)" "p \<notin> fst ` set (used ys)"
      using assms(3) ts(3) u by (metis UnCI image_Un map_of_eq_None_iff set_append)+
    have "distinct (map fst (used (ts[k := (p, sz)])))" using ts(2) u u' new by auto
    moreover have "map_of (used (ts[k := (p, sz)])) = m(p \<mapsto> sz)"
      using map_of_insert [OF new(1)] u u' ts(3) by simp
    ultimately have "live_table md' (m(p \<mapsto> sz))" using md'(2) unfolding live_table_def by blast
    with run md'(2) len show ?thesis by (auto simp: table_def)
  qed
qed

lemma count_free_live:
  assumes "live_table md m"
  shows "\<exists>md'. fly_mem_count_free md p = Some md' \<and> live_table md' (m(p := None)) \<and>
    mem_array_size md' = mem_array_size md"
proof -
  obtain ts where ts: "table md ts" "distinct (map fst (used ts))" "map_of (used ts) = m"
    using assms(1) unfolding live_table_def by blast
  have len: "mem_array_size md = length ts" using ts(1) by (simp add: table_def)
  have nonnull: "m NULL = None" using ts(3) by (auto simp: map_of_eq_None_iff used_def)
  show ?thesis
  proof (cases rule: first_slot [of 0 ts p])
    case none
    then have "fly_mem_count_free md p = Some (md\<lparr>mem_c := length ts\<rparr>)"
      using free_scan.scan_none [OF ts(1), of 0 p] by (simp add: fly_mem_count_free_def)
    moreover have "p \<notin> fst ` set ts" using none by (fastforce simp: in_set_conv_nth)
    then have "m(p := None) = m" using ts(3) by (intro fun_upd_idem) (auto simp: map_of_eq_None_iff used_def)
    then have "live_table (md\<lparr>mem_c := length ts\<rparr>) (m(p := None))"
      using ts unfolding live_table_def by (intro exI [of _ ts]) (simp add: table_def)
    ultimately show ?thesis by simp
  next
    case (found k)
    obtain md' where md': "set_slot (md\<lparr>mem_c := k\<rparr>) k NULL 0 = Some md'" "table md' (ts[k := (NULL, 0)])"
      using table_set [OF ts(1) found(2)] by blast
    have run: "fly_mem_count_free md p = Some md'"
      using free_scan.scan_found [OF ts(1) found(2,3,1,4)] md'(1) by (simp add: fly_mem_count_free_def)
    obtain xs ys where sp: "ts = xs @ ts ! k # ys" "\<And>x. ts[k := x] = xs @ x # ys"
      using slot_split [OF found(2)] by blast
    obtain z where z: "ts ! k = (p, z)" using found(3) by (metis prod.collapse)
    have u: "used ts = used xs @ used [(p, z)] @ used ys" by (subst sp(1)) (simp add: z)
    have u': "used (ts[k := (NULL, 0)]) = used xs @ used ys" using sp(2) by simp
    have "map_of (used xs @ used ys) = m(p := None)"
    proof (cases "p = NULL")
      case True
      then show ?thesis using u ts(3) nonnull by (simp add: fun_upd_idem)
    next
      case False
      then have "p \<notin> fst ` set (used xs)" "p \<notin> fst ` set (used ys)" using ts(2) u by auto
      from map_of_remove [OF this, of z] False u ts(3) show ?thesis by simp
    qed
    moreover have "distinct (map fst (used xs @ used ys))" using ts(2) u by auto
    ultimately have "live_table md' (m(p := None))"
      using md'(2) u' unfolding live_table_def by (intro exI [of _ "ts[k := (NULL, 0)]"]) simp
    with run md'(2) len show ?thesis by (auto simp: table_def)
  qed
qed

lemma report_live:
  assumes "live_table md m"
  shows "\<exists>out md'. fly_memdebug_report md = Some (out, md') \<and> live_table md' m \<and> distinct (map fst out) \<and>
    map_of out = map_option (\<lambda>sz. sz mod 2 ^ 32) \<circ> m"
proof -
  obtain ts where ts: "table md ts" "distinct (map fst (used ts))" "map_of (used ts) = m"
    using assms(1) unfolding live_table_def by blast
  let ?line = "\<lambda>(p, sz). (p, sz mod 2 ^ 32)"
  have "report_loop md is = Some (map ?line (used (map ((!) ts) is)))" if "set is \<subseteq> {..<length ts}" for "is"
    using that
  proof (induction "is")
    case (Cons i "is")
    then have i: "i < length ts" by simp
    have "mem_sizes md ! i = Some (snd (ts ! i))" "i < length (mem_sizes md)"
      using ts(1) i by (simp_all add: table_def)
    with Cons table_slot [OF ts(1) i] show ?case by (cases "ts ! i") simp
  qed simp
  from this [of "[0..<length ts]"]
  have "fly_memdebug_report md = Some (map ?line (used ts), md\<lparr>mem_c := length ts\<rparr>)"
    using ts(1) by (simp add: fly_memdebug_report_def table_def map_nth subset_eq)
  moreover have "live_table (md\<lparr>mem_c := length ts\<rparr>) m"
    using ts unfolding live_table_def by (intro exI [of _ ts]) (simp add: table_def)
  moreover have "map fst (map ?line (used ts)) = map fst (used ts)" by auto
  moreover have "map_of (map ?line (used ts)) = map_option (\<lambda>sz. sz mod 2 ^ 32) \<circ> m"
    using ts(3) by (simp add: map_of_map)
  ultimately show ?thesis using ts(2) by metis
qed

lemma init_live: "\<exists>md. fly_init_memdebugf True True = Some md \<and> live_table md Map.empty \<and> mem_array_size md = FLY_MEM_START_ARR_SIZE"
proof -
  have run: "\<exists>md'. init_slots md [n..<n + k] = Some md' \<and> table md' (replicate (n + k) (NULL, 0))"
    if "mem_ptrs md = map (\<lambda>_. Some NULL) [0..<n] @ replicate k None"
      "mem_sizes md = map (\<lambda>_. Some 0) [0..<n] @ replicate k None" "mem_array_size md = n + k" for md n k
    using that
  proof (induction k arbitrary: md n)
    case 0
    then show ?case by (simp add: table_def map_replicate_trivial)
  next
    case (Suc k)
    let ?md = "md\<lparr>mem_ptrs := (mem_ptrs md)[n := Some NULL], mem_sizes := (mem_sizes md)[n := Some 0], mem_c := Suc n\<rparr>"
    have "mem_ptrs ?md = map (\<lambda>_. Some NULL) [0..<Suc n] @ replicate k None"
      "mem_sizes ?md = map (\<lambda>_. Some 0) [0..<Suc n] @ replicate k None" "mem_array_size ?md = Suc n + k"
      using Suc.prems by (simp_all add: list_update_append)
    from Suc.IH [OF this] obtain md' where "init_slots ?md [Suc n..<Suc n + k] = Some md'"
      "table md' (replicate (Suc n + k) (NULL, 0))" by blast
    moreover have "init_slots md [n..<n + Suc k] = init_slots ?md [Suc n..<Suc n + k]"
      using Suc.prems by (simp add: upt_conv_Cons set_slot_def del: upt_Suc)
    ultimately show ?case by simp
  qed
  let ?n = FLY_MEM_START_ARR_SIZE
  obtain md where md: "fly_init_memdebugf True True = Some md" "table md (replicate ?n (NULL, 0))"
    using run [of _ 0 ?n] by (force simp: fly_init_memdebugf_def)
  have "used (replicate ?n (NULL, 0)) = []" by (simp add: used_def)
  with md(2) have "live_table md Map.empty" unfolding live_table_def by fastforce
  with md show ?thesis by (simp add: table_def)
qed

section \<open>Runs of the allocator\<close>

text \<open>
  \<open>Malloc p sz\<close>: the client asks for \<open>sz\<close> bytes and \<^verbatim>\<open>malloc\<close> answers
  \<open>p\<close>, a block that is not in use, or null.
\<close>

datatype mem_op = Malloc ptr nat | Free ptr

fun mem_run :: "memdebug \<Rightarrow> mem_op list \<Rightarrow> memdebug option" where
  "mem_run md [] = Some md"
| "mem_run md (Malloc p sz # xs) = do { (_, md) \<leftarrow> fly_default_malloc md sz p True True; mem_run md xs }"
| "mem_run md (Free p # xs) = do { md \<leftarrow> fly_default_free md p; mem_run md xs }"

text \<open>The blocks in use, by the calls alone.\<close>

fun in_use :: "(ptr \<rightharpoonup> nat) \<Rightarrow> mem_op list \<Rightarrow> (ptr \<rightharpoonup> nat)" where
  "in_use m [] = m"
| "in_use m (Malloc p sz # xs) = in_use (if p = NULL then m else m(p \<mapsto> sz)) xs"
| "in_use m (Free p # xs) = in_use (m(p := None)) xs"

text \<open>The answers are fresh and no more than \<open>n\<close> blocks are in use at any time.\<close>

fun mem_ops_ok :: "nat \<Rightarrow> (ptr \<rightharpoonup> nat) \<Rightarrow> mem_op list \<Rightarrow> bool" where
  "mem_ops_ok n m [] \<longleftrightarrow> True"
| "mem_ops_ok n m (Malloc p sz # xs) \<longleftrightarrow>
     (if p = NULL then mem_ops_ok n m xs
      else m p = None \<and> card (dom m) < n \<and> mem_ops_ok n (m(p \<mapsto> sz)) xs)"
| "mem_ops_ok n m (Free p # xs) \<longleftrightarrow> mem_ops_ok n (m(p := None)) xs"

lemma mem_run_live:
  assumes "live_table md m" and "mem_ops_ok (mem_array_size md) m xs"
  shows "\<exists>md'. mem_run md xs = Some md' \<and> live_table md' (in_use m xs)"
  using assms
proof (induction xs arbitrary: md m)
  case (Cons x xs)
  show ?case
  proof (cases x)
    case (Malloc p sz)
    show ?thesis
    proof (cases "p = NULL")
      case True
      with Cons.IH [OF Cons.prems(1)] Cons.prems(2) Malloc show ?thesis
        by (simp add: fly_default_malloc_def fly_mem_count_alloc_def)
    next
      case False
      with Cons.prems(2) Malloc have ok: "m p = None" "card (dom m) < mem_array_size md"
        "mem_ops_ok (mem_array_size md) (m(p \<mapsto> sz)) xs" by simp_all
      obtain md1 where md1: "fly_mem_count_alloc md p sz True True = Some md1" "live_table md1 (m(p \<mapsto> sz))"
        "mem_array_size md1 = mem_array_size md"
        using count_alloc_live [OF Cons.prems(1) False ok(1,2)] by blast
      have e: "mem_run md (x # xs) = mem_run md1 xs" "in_use m (x # xs) = in_use (m(p \<mapsto> sz)) xs"
        using md1(1) Malloc False by (simp_all add: fly_default_malloc_def)
      show ?thesis unfolding e by (rule Cons.IH [OF md1(2), unfolded md1(3), OF ok(3)])
    qed
  next
    case (Free p)
    obtain md1 where md1: "fly_mem_count_free md p = Some md1" "live_table md1 (m(p := None))"
      "mem_array_size md1 = mem_array_size md"
      using count_free_live [OF Cons.prems(1)] by blast
    have e: "mem_run md (x # xs) = mem_run md1 xs" "in_use m (x # xs) = in_use (m(p := None)) xs"
      using md1(1) Free by (simp_all add: fly_default_free_def)
    have "mem_ops_ok (mem_array_size md) (m(p := None)) xs" using Cons.prems(2) Free by simp
    then show ?thesis unfolding e by (rule Cons.IH [OF md1(2), unfolded md1(3)])
  qed
qed simp

section \<open>Properties\<close>

text \<open>
  C27. The leak report is exact.  After any calls of the default allocator in which no more than 256
  blocks are in use at a time, every call has returned and the report lists exactly the blocks in
  use with their sizes (modulo \<open>2 ^ 32\<close>), each once.
\<close>

theorem leak_report_exact:
  assumes "mem_ops_ok FLY_MEM_START_ARR_SIZE Map.empty xs"
  shows "\<exists>md md1 md2 out. fly_init_memdebugf True True = Some md \<and> mem_run md xs = Some md1 \<and>
    fly_memdebug_report md1 = Some (out, md2) \<and> distinct (map fst out) \<and>
    map_of out = map_option (\<lambda>sz. sz mod 2 ^ 32) \<circ> in_use Map.empty xs"
proof -
  obtain md where md: "fly_init_memdebugf True True = Some md" "live_table md Map.empty"
    "mem_array_size md = FLY_MEM_START_ARR_SIZE" using init_live by blast
  obtain md1 where md1: "mem_run md xs = Some md1" "live_table md1 (in_use Map.empty xs)"
    using mem_run_live [OF md(2)] assms md(3) by auto
  from report_live [OF md1(2)] md(1) md1(1) show ?thesis by blast
qed

theorem leak_report_exact_witness:
  "\<exists>md md1 md2 out. fly_init_memdebugf True True = Some md \<and>
    mem_run md [Malloc 10 8, Malloc 20 16, Malloc 0 99, Free 10, Free 0, Malloc 30 24] = Some md1 \<and>
    fly_memdebug_report md1 = Some (out, md2) \<and> map_of out = [20 \<mapsto> 16, 30 \<mapsto> 24]"
proof -
  let ?xs = "[Malloc 10 8, Malloc 20 16, Malloc 0 99, Free 10, Free 0, Malloc 30 24]"
  have "mem_ops_ok FLY_MEM_START_ARR_SIZE Map.empty ?xs"
    by (simp add: FLY_MEM_START_ARR_SIZE_def)
  moreover have "map_option (\<lambda>sz. sz mod 2 ^ 32) \<circ> in_use Map.empty ?xs = [20 \<mapsto> 16, 30 \<mapsto> 24]"
    by (intro ext) simp
  ultimately show ?thesis using leak_report_exact [of ?xs] by auto
qed

text \<open>
  C33. A block too many.  When every slot is taken the table is doubled, but the new slots are not
  initialised before they are searched (and if \<^verbatim>\<open>realloc\<close> fails the old table is
  searched beyond its end): the result is undefined.
\<close>

theorem full_table_undefined:
  assumes "table md ts" and "ts \<noteq> []" and "\<forall>n < length ts. fst (ts ! n) \<noteq> NULL" and "p \<noteq> NULL"
  shows "fly_default_malloc md sz p ok ok' = None"
proof -
  have add: "fly_mem_count_alloc_try_add md p sz 0 = Some (False, md\<lparr>mem_c := length ts\<rparr>)"
    using add_scan.scan_none [OF assms(1), of 0 p sz] assms(3) by simp
  have len: "mem_array_size md = length ts" "length (mem_ptrs md) = length ts" using assms(1) by (simp_all add: table_def)
  have stuck: "fly_mem_count_alloc_try_add md' p sz (length ts) = None"
    if "mem_array_size md' = 2 * length ts" "mem_ptrs md' = mem_ptrs md \<or> mem_ptrs md' = mem_ptrs md @ replicate (length ts) None" for md'
  proof -
    have "get_slot md' (length ts) = None" using that(2) len(2) assms(2) by (auto simp: get_slot_def nth_append)
    with that(1) assms(2) show ?thesis by (subst fly_mem_count_alloc_try_add.simps) simp
  qed
  show ?thesis
    using add assms(4) len by (cases ok; cases ok') (simp_all add: fly_default_malloc_def fly_mem_count_alloc_def stuck)
qed

theorem full_table_undefined_witness:
  "fly_default_malloc \<lparr>mem_c = 0, mem_array_size = 2, mem_ptrs = [Some 10, Some 20], mem_sizes = [Some 8, Some 8]\<rparr>
    8 30 True True = None"
proof -
  have "table \<lparr>mem_c = 0, mem_array_size = 2, mem_ptrs = [Some 10, Some 20], mem_sizes = [Some 8, Some 8]\<rparr> [(10, 8), (20, 8)]"
    by (simp add: table_def)
  moreover have "\<forall>n < length [(10 :: nat, 8 :: nat), (20, 8)]. fst ([(10, 8), (20, 8)] ! n) \<noteq> NULL"
    by (simp add: less_Suc_eq numeral_2_eq_2)
  ultimately show ?thesis by (intro full_table_undefined [of _ "[(10, 8), (20, 8)]"]) simp_all
qed

end
