(* ===== verification/Spec2Isabelle.thy ===== *)
theory Spec2Isabelle
  imports Fly_Outcomes Fly_Tasks Fly_Types Fly_Sim Fly_Update Fly_Debug Fly_Memdebug
begin

text \<open>
  libfly: a C library for parallel loops and tasks on a pool of worker threads.

  \<^bold>\<open>The program.\<close>  A client brings the library up with a number of workers
  (\<^verbatim>\<open>fly_simple_init\<close>), runs loops (\<^verbatim>\<open>fly_parallel_for\<close>,
  \<^verbatim>\<open>fly_parallel_for_arr\<close>) and tasks (\<^verbatim>\<open>fly_create_task\<close>,
  \<^verbatim>\<open>fly_push_task\<close>, \<^verbatim>\<open>fly_wait_task\<close>), and takes it down
  (\<^verbatim>\<open>fly_uninit\<close>).  A loop becomes a job, which the scheduler splits into one batch
  of indices per worker.  The job goes to the ready queue, a worker moves it to the running queue, the
  workers claim its batches with a compare-and-swap and call the client's function, and the worker that
  finds all batches done moves the job to the done queue and posts the semaphore on which the client
  waits.  A worker has two threads; a thread of the scheduler looks from time to time whether the client's
  function blocks, so that the worker's second thread can take over.  The queues are intrusive lists, each
  under a readers-writer lock.

  \<^bold>\<open>The theories\<close>, each after those it uses, with the files under src/ that it models:

  \<^item> \<^verbatim>\<open>Fly_Prelude\<close> (fly_error.h): addresses, C's \<^verbatim>\<open>int\<close> with the
    undefined overflow as \<open>None\<close>, the error codes, reachable states.
  \<^item> \<^verbatim>\<open>Fly_List\<close>, \<^verbatim>\<open>Fly_Lists\<close> (fly_list.h): the list on an explicit heap of nodes
    with an allocator that may refuse; first one list, then several lists on one heap.
  \<^item> \<^verbatim>\<open>Fly_Thread\<close> (fly_thread.h, fly_thread.c, fly_sem.h, fly_atomic.h): thread objects and
    their creation, the state letter read from procfs, semaphores, atomic operations.
  \<^item> \<^verbatim>\<open>Fly_Mrswlock\<close> (fly_mrswlock.h): the lock, as calls without interference and as an
    interleaving of any number of threads.
  \<^item> \<^verbatim>\<open>Fly_Job\<close> (fly_job.h, fly_job.c, fly_task.h): creating, splitting, claiming, destroying.
  \<^item> \<^verbatim>\<open>Fly_Worker\<close> (fly_worker.h, fly_worker.c): a worker and its threads, and the
    interleaving of a worker thread's function with the thread that starts and stops it.
  \<^item> \<^verbatim>\<open>Fly_Sched\<close>, \<^verbatim>\<open>Fly_Exec\<close>, \<^verbatim>\<open>Fly_Turns\<close> (fly_sched.h,
    fly_sched.c and \<^verbatim>\<open>fly_wait_job\<close> of fly_job.c): queues, adding, executing and scheduling
    jobs; a batch's and a job's execution; the turns of workers.
  \<^item> \<^verbatim>\<open>Fly_Init\<close> (fly_sched.c): bringing the scheduler up and down, its own thread and the
    handshake with it.
  \<^item> \<^verbatim>\<open>Fly_Update\<close> (fly_sched.c, fly_worker.c, fly_thread.c): the hand-over between the two
    threads of a worker, from the status files to the notification.
  \<^item> \<^verbatim>\<open>Fly_Conc\<close>, \<^verbatim>\<open>Fly_Sim\<close> (fly_sched.c): one parallel job under any number of
    concurrent workers, one atomic access per step; and that the detailed model is simulated by it.
  \<^item> \<^verbatim>\<open>Fly_Api\<close> (fly.c, fly.h): the functions that a client calls.
  \<^item> \<^verbatim>\<open>Fly_Client\<close>, \<^verbatim>\<open>Fly_Outcomes\<close>, \<^verbatim>\<open>Fly_Tasks\<close>, \<^verbatim>\<open>Fly_Types\<close>:
    sequences of calls against their specification and whole sessions; the same with memory refused
    anywhere and under any turns; many tasks at once; the types of all stored values.
  \<^item> \<^verbatim>\<open>Fly_Memdebug\<close> (fly_memdebug.h and the default allocator of fly.c): the table of blocks
    in use of a build with \<^verbatim>\<open>FLY_MEMDEBUG\<close>.
  \<^item> \<^verbatim>\<open>Fly_Debug\<close> (fly_debugging.h): the log, the assertions, and the functions that assert, as
    a build with them compiles these.

  \<^bold>\<open>How the code is rendered.\<close>  A struct is a record, an address a natural number with
  \<open>NULL\<close> as 0, and a pointer is followed through a map from addresses to records: \<open>node_mem\<close> holds the
  list nodes, \<open>job_mem\<close> extends it by jobs, batches and tasks, \<open>fly_sched\<close> by the scheduler's fields, the
  workers and the operating system's state.  A function takes the state and returns its result with the new
  state as an \<open>option\<close>.  \<open>None\<close> is undefined behaviour (a null or freed pointer, an overflow, a
  division by zero, the wrong member of a union), a wait that is never answered, or a loop that does not
  end; so a theorem that concludes \<open>\<dots> = Some \<dots>\<close> shows that the function returns and does
  nothing undefined.  There is no fuel: loops over lists are \<open>partial_function (option)\<close>, counting loops
  recurse over a list of indices.  Allocation, \<^verbatim>\<open>sem_init\<close>, \<^verbatim>\<open>pthread_create\<close>
  and the other calls of the operating system answer from oracles in the state (\<open>malloc_ok\<close>,
  \<open>sem_ok\<close>, \<open>os\<close>), about which the theorems assume nothing unless they say so.  A client's function is
  an address; calling it is recorded in \<open>calls\<close>, and the value of a task's function comes from
  \<open>task_fun\<close>.  What other threads do while a client waits is an argument: the list of the turns that worker
  threads take (\<open>turns\<close>).  Each turn is executed as a whole there; what happens when turns interleave is in
  the step relations \<open>lock_step\<close>, \<open>job_step\<close>, \<open>worker_step\<close> and
  \<open>sched_thread_step\<close>, over all schedules.

  \<^bold>\<open>What is shown.\<close>

  \<^item> The list implements HOL lists, on one heap with others (\<open>list_rep\<close>, \<open>heap_lists\<close>); the
    scheduler's queues implement three HOL lists (\<open>sched_rep\<close>).
  \<^item> The lock excludes, bounds its readers and loses no wakeup, for any number of threads.
  \<^item> A job is split as planned or left as it was; batches are claimed once; its life leaves no memory
    allocated.
  \<^item> A loop from a client or from inside a worker returns success with each index called once, and gives
    everything back; without memory it fails and changes nothing.  A loop inside a worker returns whatever
    memory is refused and without any other worker.  Sequences of calls meet a specification
    (\<open>call_spec\<close>), and a session from \<^verbatim>\<open>fly_simple_init\<close> to
    \<^verbatim>\<open>fly_uninit\<close> leaves no thread and no memory behind.
  \<^item> Whatever memory is refused and whatever turns are taken, a call that returns has met its specification
    or has answered \<^verbatim>\<open>FLYENORES\<close> with no effect (\<open>call_allowed\<close>, by the invariant \<open>partway\<close>).
  \<^item> No schedule of workers runs a batch twice or releases the client early, in the interleaving of atomic
    steps and in the detailed model, related by \<open>viewed\<close>.
  \<^item> All values stored by any sequence of calls are values of their C types, without assumptions on the
    heap.
  \<^item> Work is announced to the thread of a worker that does not block in a client's function.
  \<^item> Threads stop when asked to, where they do; bringing the scheduler up is all or nothing, where it is.
  \<^item> The faults found: a job read after it is freed, a task run twice, a job finished twice or lost, calls
    beyond the range of a small loop, a worker that never exits, uses of freed or uninitialised memory on
    error paths, and a false alarm of the assertions; each by a theorem on the models of the code.

  \<^bold>\<open>Interfaces.\<close>  The locale \<open>invariant_system\<close> carries the invariants of the step relations
  (interpreted for the lock, the job, the worker and the handshake); \<open>element_list\<close> is the contract of a
  list of elements (one list, a list among others); \<open>drain_loop\<close> the loops that empty a list (a job's
  batches, a queue); \<open>lock_section\<close> a section under a lock (readers, writers); \<open>slot_scan\<close> the
  scans of the table of blocks (adding, freeing).

  \<^bold>\<open>Bounds.\<close>  A parallel loop's range and batch size have to stay within \<^verbatim>\<open>int\<close>
  (\<open>batch_range_ok\<close>), as the code computes them there; \<open>addable\<close>, \<open>call_ok\<close> and \<open>call_fits\<close> include it.
  A loop needs at most one turn per worker, a task one turn, which is what the theorems with
  a fixed number of turns ask for.

  \<^bold>\<open>Not modelled.\<close>  The destructors of the operating system's objects
  (\<^verbatim>\<open>sem_destroy\<close>, \<^verbatim>\<open>pthread_mutex_destroy\<close>), which release nothing that the
  model counts, and the mutexes themselves, whose sections are the atomic steps; the bodies of client
  functions, which could call the library again (a loop inside a worker's function is modelled as the call
  it makes); weak memory: atomic operations are sequentially consistent and plain accesses are taken in
  program order; the time that passes in sleeps; the tests and the build files.  The declarations of fly.h
  and the internal headers have no behaviour of their own.
\<close>

end
